(* ===== verification/Prelude.thy ===== *)
theory Prelude
  imports Main "HOL-Library.Word" "HOL-Library.Signed_Division"
begin

text \<open>
  Shared vocabulary of the development: the machine types of the C and C++ sources, the lemma
  collections the component theories extend, and generic facts about lists, maps, modular
  indices and option values that more than one component uses.
\<close>

unbundle bit_operations_syntax

type_synonym u8 = "8 word"
type_synonym u32 = "32 word"
type_synonym u64 = "64 word"
type_synonym i32 = "32 word"
type_synonym i64 = "64 word"

named_theorems ring_simps \<open>rewrite rules for indices into the ring buffers\<close>
named_theorems agent_defs \<open>definitions of the agent's handlers that unfold together\<close>

subsection \<open>Modular indices\<close>

text \<open>
  Ring positions are ticket numbers modulo the capacity. Two tickets that are less than one
  capacity apart are equal as soon as their positions are.
\<close>

lemma mod_window_eq:
  fixes a b c :: nat
  assumes "a \<le> b" "b < a + c" "a mod c = b mod c"
  shows "a = b"
proof -
  have "c dvd b - a"
    using assms(1,3) by (metis mod_eq_dvd_iff_nat)
  moreover have "b - a < c"
    using assms(1,2) by arith
  ultimately have "b - a = 0"
    by (meson dvd_imp_le not_gr_zero not_le)
  with assms(1) show ?thesis by simp
qed

lemma mod_window_eq_sym:
  fixes a b r c :: nat
  assumes "r \<le> a" "a < r + c" "r \<le> b" "b < r + c" "a mod c = b mod c"
  shows "a = b"
proof (cases "a \<le> b")
  case True
  with assms show ?thesis by (intro mod_window_eq [of a b c]) auto
next
  case False
  with assms have "b = a" by (intro mod_window_eq [of b a c]) auto
  then show ?thesis by simp
qed

lemma Suc_mod_mod [simp, ring_simps]: "Suc (n mod c) mod c = Suc n mod c"
  by (simp add: mod_Suc_eq)

lemma Suc_add_mod_Suc [simp, ring_simps]: "Suc (r + n) mod Suc n = r mod Suc n"
  by (metis add_Suc_right mod_add_self2)

subsection \<open>Lists\<close>

lemma take_Suc_nth_append:
  "n < length xs \<Longrightarrow> take n xs @ [xs ! n] = take (Suc n) xs"
  by (simp add: take_Suc_conv_app_nth)

lemma nth_list_update_if:
  "j < length xs \<Longrightarrow> (xs[i := v]) ! j = (if i = j then v else xs ! j)"
  by (simp add: nth_list_update)

end
