(* ===== verification/Internal_Queue.thy ===== *)
theory Internal_Queue
  imports Prelude
begin

text \<open>
  The multiple-producer single-consumer ring of \<^verbatim>\<open>src/lib/internal_queue.h\<close>. The first part is
  the class itself: its fields, \<open>advance\<close>, \<open>acquireWrite\<close>, \<open>acquireRead\<close>, \<open>commitWrite\<close>,
  \<open>commitRead\<close> and \<open>get\<close>, run without interruption. The second part runs the same code line by
  line in any number of producers and one consumer, as a step relation over the shared ring
  (sequentially consistent: the relaxed and release orderings are not weakened).
\<close>

section \<open>The ring and its operations\<close>

text \<open>
  A cell is the template's \<open>T\<close>: the \<open>is_committed\<close> flag every holder carries and the rest of the
  holder. \<open>Size\<close> is the template argument, \<open>Capacity\<close> one larger. Positions are below the
  capacity, which is far below the range of \<open>size_t\<close>, so they are natural numbers.
\<close>

record 'a cell =
  is_committed :: int
  contents :: 'a

definition COMMITTED :: int where "COMMITTED = 1"
definition UNCOMMITTED :: int where "UNCOMMITTED = 0"

record 'a iqueue =
  iq_input :: nat
  iq_output :: nat
  iq_buffer :: "'a cell list"

definition Capacity :: "nat \<Rightarrow> nat" where
  "Capacity Size = Size + 1"

definition InternalQueue :: "nat \<Rightarrow> 'a \<Rightarrow> 'a iqueue" where
  "InternalQueue Size d =
     \<lparr>iq_input = 0, iq_output = 0,
      iq_buffer = replicate (Capacity Size) \<lparr>is_committed = UNCOMMITTED, contents = d\<rparr>\<rparr>"

definition advance :: "nat \<Rightarrow> nat \<Rightarrow> nat" where
  "advance Size index = (index + 1) mod Capacity Size"

text \<open>
  \<open>acquireWrite\<close> without another thread in between: the compare-and-exchange succeeds in the first
  round. The result is the claimed position, or \<open>None\<close> where the code returns false.
\<close>

definition acquireWrite :: "nat \<Rightarrow> 'a iqueue \<Rightarrow> nat option \<times> 'a iqueue" where
  "acquireWrite Size q =
     (let currentInput = iq_input q; nextInput = advance Size currentInput
      in if iq_output q = nextInput then (None, q)
         else (Some currentInput, q\<lparr>iq_input := nextInput\<rparr>))"

text \<open>
  \<open>acquireRead\<close> returns false on an empty ring and otherwise waits for the commit of the oldest
  cell. Without another thread that wait never ends when the cell is not committed.
\<close>

datatype acquired_read = NoRead | ReadAt nat | Spins

definition acquireRead :: "'a iqueue \<Rightarrow> acquired_read" where
  "acquireRead q =
     (let currentOutput = iq_output q
      in if currentOutput = iq_input q then NoRead
         else if is_committed (iq_buffer q ! currentOutput) \<noteq> COMMITTED then Spins
         else ReadAt currentOutput)"

definition iq_get :: "'a iqueue \<Rightarrow> nat \<Rightarrow> 'a" where
  "iq_get q position = contents (iq_buffer q ! position)"

definition iq_set :: "nat \<Rightarrow> ('a \<Rightarrow> 'a) \<Rightarrow> 'a iqueue \<Rightarrow> 'a iqueue" where
  "iq_set position f q =
     q\<lparr>iq_buffer := (iq_buffer q)[position := (iq_buffer q ! position)\<lparr>contents := f (iq_get q position)\<rparr>]\<rparr>"

definition iq_flag :: "nat \<Rightarrow> int \<Rightarrow> 'a iqueue \<Rightarrow> 'a iqueue" where
  "iq_flag position c q =
     q\<lparr>iq_buffer := (iq_buffer q)[position := (iq_buffer q ! position)\<lparr>is_committed := c\<rparr>]\<rparr>"

definition commitWrite :: "nat \<Rightarrow> 'a iqueue \<Rightarrow> 'a iqueue" where
  "commitWrite position q = iq_flag position COMMITTED q"

definition commitRead :: "nat \<Rightarrow> nat \<Rightarrow> 'a iqueue \<Rightarrow> 'a iqueue" where
  "commitRead Size position q = (iq_flag position UNCOMMITTED q)\<lparr>iq_output := advance Size position\<rparr>"

text \<open>
  How the clients in \<^verbatim>\<open>src/lib/circular_queue.cpp\<close> use the class: claim a position, update the holder
  there, commit; and, on the reading side, acquire, use the holder, optionally clean it, release.
\<close>

definition enqueue :: "nat \<Rightarrow> ('a \<Rightarrow> 'a) \<Rightarrow> 'a iqueue \<Rightarrow> bool \<times> 'a iqueue" where
  "enqueue Size f q =
     (case acquireWrite Size q of
        (None, q') \<Rightarrow> (False, q')
      | (Some i, q') \<Rightarrow> (True, commitWrite i (iq_set i f q')))"

definition dequeue :: "nat \<Rightarrow> ('a \<Rightarrow> 'a) \<Rightarrow> 'a iqueue \<Rightarrow> ('a \<times> 'a iqueue) option" where
  "dequeue Size g q =
     (case acquireRead q of
        ReadAt i \<Rightarrow> Some (iq_get q i, commitRead Size i (iq_set i g q))
      | _ \<Rightarrow> None)"

section \<open>The abstract queue\<close>

text \<open>
  The contract a client relies on: a first-in first-out queue of bounded length, whose \<open>enq\<close>
  reports whether there was room.
\<close>

fun drain :: "('q \<Rightarrow> ('e \<times> 'q) option) \<Rightarrow> nat \<Rightarrow> 'q \<Rightarrow> 'e list \<times> 'q" where
  "drain deq 0 q = ([], q)"
| "drain deq (Suc n) q =
     (case deq q of
        None \<Rightarrow> ([], q)
      | Some (x, q') \<Rightarrow> (let (xs, q'') = drain deq n q' in (x # xs, q'')))"

fun enq_all :: "('e \<Rightarrow> 'q \<Rightarrow> bool \<times> 'q) \<Rightarrow> 'e list \<Rightarrow> 'q \<Rightarrow> nat \<times> 'q" where
  "enq_all enq [] q = (0, q)"
| "enq_all enq (x # xs) q =
     (let (ok, q') = enq x q; (n, q'') = enq_all enq xs q'
      in ((if ok then Suc n else n), q''))"

locale bounded_fifo =
  fixes room :: nat
    and fifo_inv :: "'q \<Rightarrow> bool"
    and fifo_abs :: "'q \<Rightarrow> 'e list"
    and elem :: "'e \<Rightarrow> bool"
    and enq :: "'e \<Rightarrow> 'q \<Rightarrow> bool \<times> 'q"
    and deq :: "'q \<Rightarrow> ('e \<times> 'q) option"
  assumes abs_bound: "fifo_inv q \<Longrightarrow> length (fifo_abs q) \<le> room"
    and enq_room: "fifo_inv q \<Longrightarrow> elem x \<Longrightarrow> length (fifo_abs q) < room \<Longrightarrow>
          fst (enq x q) \<and> fifo_abs (snd (enq x q)) = fifo_abs q @ [x]"
    and enq_full: "fifo_inv q \<Longrightarrow> elem x \<Longrightarrow> length (fifo_abs q) = room \<Longrightarrow>
          \<not> fst (enq x q) \<and> fifo_abs (snd (enq x q)) = fifo_abs q"
    and enq_inv: "fifo_inv q \<Longrightarrow> elem x \<Longrightarrow> fifo_inv (snd (enq x q))"
    and deq_empty: "fifo_inv q \<Longrightarrow> fifo_abs q = [] \<Longrightarrow> deq q = None"
    and deq_head: "fifo_inv q \<Longrightarrow> fifo_abs q = x # xs \<Longrightarrow>
          \<exists>q'. deq q = Some (x, q') \<and> fifo_inv q' \<and> fifo_abs q' = xs"
begin

lemma enq_result:
  assumes "fifo_inv q" "elem x"
  shows "fst (enq x q) \<longleftrightarrow> length (fifo_abs q) < room"
  using abs_bound [OF assms(1)] enq_room [OF assms] enq_full [OF assms]
  by (metis nat_less_le)

lemma enq_abs:
  assumes "fifo_inv q" "elem x"
  shows "fifo_abs (snd (enq x q)) = take room (fifo_abs q @ [x])"
proof (cases "length (fifo_abs q) < room")
  case True
  with enq_room [OF assms True] show ?thesis by simp
next
  case False
  with abs_bound [OF assms(1)] have "length (fifo_abs q) = room" by simp
  with enq_full [OF assms this] show ?thesis by simp
qed

lemma enq_all_abs:
  "fifo_inv q \<Longrightarrow> list_all elem xs \<Longrightarrow>
     fifo_inv (snd (enq_all enq xs q)) \<and>
     fifo_abs (snd (enq_all enq xs q)) = take room (fifo_abs q @ xs) \<and>
     fst (enq_all enq xs q) = min (length xs) (room - length (fifo_abs q))"
proof (induction xs arbitrary: q)
  case Nil
  then show ?case using abs_bound [OF Nil(1)] by simp
next
  case (Cons x xs)
  then have x: "elem x" and xs: "list_all elem xs" by auto
  note IH = Cons.IH [OF enq_inv [OF Cons.prems(1) x] xs]
  have abs: "fifo_abs (snd (enq x q)) = take room (fifo_abs q @ [x])"
    by (rule enq_abs [OF Cons.prems(1) x])
  have res: "fst (enq x q) \<longleftrightarrow> length (fifo_abs q) < room"
    by (rule enq_result [OF Cons.prems(1) x])
  have "take room (take room (fifo_abs q @ [x]) @ xs) = take room (fifo_abs q @ x # xs)"
    using abs_bound [OF Cons.prems(1)] by (cases "length (fifo_abs q) < room") auto
  then show ?case
    using IH abs res abs_bound [OF Cons.prems(1)]
    by (auto simp: split_def Let_def)
qed

lemma drain_abs:
  "fifo_inv q \<Longrightarrow>
     fst (drain deq n q) = take n (fifo_abs q) \<and>
     fifo_inv (snd (drain deq n q)) \<and>
     fifo_abs (snd (drain deq n q)) = drop n (fifo_abs q)"
proof (induction n arbitrary: q)
  case 0
  then show ?case by simp
next
  case (Suc n)
  show ?case
  proof (cases "fifo_abs q")
    case Nil
    with deq_empty [OF Suc.prems] Suc.prems show ?thesis by simp
  next
    case (Cons x xs)
    then obtain q' where "deq q = Some (x, q')" "fifo_inv q'" "fifo_abs q' = xs"
      using deq_head [OF Suc.prems] by blast
    with Suc.IH [of q'] Cons show ?thesis by (simp add: split_def)
  qed
qed

lemma enq_all_drain:
  assumes "fifo_inv q" "fifo_abs q = []" "list_all elem xs"
  shows "fst (drain deq n (snd (enq_all enq xs q))) = take n (take room xs)"
  using assms enq_all_abs [of q xs] drain_abs [of "snd (enq_all enq xs q)" n] by simp

end

section \<open>The ring implements the abstract queue\<close>

definition iq_used :: "nat \<Rightarrow> 'a iqueue \<Rightarrow> nat" where
  "iq_used Size q = (iq_input q + Capacity Size - iq_output q) mod Capacity Size"

definition iq_pos :: "nat \<Rightarrow> 'a iqueue \<Rightarrow> nat \<Rightarrow> nat" where
  "iq_pos Size q k = (iq_output q + k) mod Capacity Size"

definition iq_abs :: "nat \<Rightarrow> 'a iqueue \<Rightarrow> 'a list" where
  "iq_abs Size q = map (\<lambda>k. iq_get q (iq_pos Size q k)) [0..<iq_used Size q]"

definition iq_inv :: "nat \<Rightarrow> 'a iqueue \<Rightarrow> bool" where
  "iq_inv Size q \<longleftrightarrow>
     length (iq_buffer q) = Capacity Size \<and>
     iq_input q < Capacity Size \<and> iq_output q < Capacity Size \<and>
     (\<forall>k < Capacity Size. is_committed (iq_buffer q ! iq_pos Size q k) =
        (if k < iq_used Size q then COMMITTED else UNCOMMITTED))"

lemma Capacity_pos [simp]: "0 < Capacity Size"
  by (simp add: Capacity_def)

lemma flags_distinct [simp]: "COMMITTED \<noteq> UNCOMMITTED" "UNCOMMITTED \<noteq> COMMITTED"
  by (simp_all add: COMMITTED_def UNCOMMITTED_def)

lemma advance_less [simp]: "advance Size i < Capacity Size"
  by (simp add: advance_def)

lemma iq_pos_less [simp]: "iq_pos Size q k < Capacity Size"
  by (simp add: iq_pos_def)

lemma iq_used_le: "iq_used Size q \<le> Size"
proof -
  have "iq_used Size q < Capacity Size" by (simp add: iq_used_def)
  then show ?thesis by (simp add: Capacity_def)
qed

lemma iq_input_pos:
  assumes "iq_inv Size q"
  shows "iq_input q = iq_pos Size q (iq_used Size q)"
proof -
  from assms have b: "iq_input q < Capacity Size" "iq_output q < Capacity Size"
    by (auto simp: iq_inv_def)
  have "iq_pos Size q (iq_used Size q) =
      (iq_output q + (iq_input q + Capacity Size - iq_output q)) mod Capacity Size"
    unfolding iq_pos_def iq_used_def by (rule mod_add_right_eq)
  also have "\<dots> = (iq_input q + Capacity Size) mod Capacity Size"
    using b by (metis add_diff_inverse_nat less_imp_le_nat not_less trans_le_add2)
  also have "\<dots> = iq_input q" using b by simp
  finally show ?thesis by simp
qed

lemma iq_pos_inj:
  assumes "j < Capacity Size" "k < Capacity Size"
  shows "iq_pos Size q j = iq_pos Size q k \<longleftrightarrow> j = k"
proof
  assume "iq_pos Size q j = iq_pos Size q k"
  then have "iq_output q + j = iq_output q + k"
    using assms
      mod_window_eq_sym [of "iq_output q" "iq_output q + j" "Capacity Size" "iq_output q + k"]
    by (simp add: iq_pos_def)
  then show "j = k" by simp
qed simp

lemma advance_iq_pos: "advance Size (iq_pos Size q k) = iq_pos Size q (Suc k)"
  by (simp add: advance_def iq_pos_def)

lemma iq_full_iff:
  assumes "iq_inv Size q"
  shows "iq_output q = advance Size (iq_input q) \<longleftrightarrow> iq_used Size q = Size"
proof -
  have out: "iq_pos Size q 0 = iq_output q"
    using assms by (simp add: iq_pos_def iq_inv_def)
  have "iq_output q = advance Size (iq_input q) \<longleftrightarrow>
      iq_pos Size q 0 = iq_pos Size q (Suc (iq_used Size q))"
    unfolding out iq_input_pos [OF assms] advance_iq_pos ..
  also have "\<dots> \<longleftrightarrow> iq_used Size q = Size"
  proof (cases "iq_used Size q = Size")
    case True
    then have "iq_output q + Suc (iq_used Size q) = iq_output q + Capacity Size"
      by (simp add: Capacity_def)
    with True show ?thesis by (simp add: iq_pos_def)
  next
    case False
    with iq_used_le [of Size q] have "Suc (iq_used Size q) < Capacity Size"
      by (simp add: Capacity_def)
    then show ?thesis using False iq_pos_inj [of 0 Size "Suc (iq_used Size q)" q] by simp
  qed
  finally show ?thesis .
qed

lemma iq_empty_iff:
  assumes "iq_inv Size q"
  shows "iq_output q = iq_input q \<longleftrightarrow> iq_used Size q = 0"
proof -
  have out: "iq_pos Size q 0 = iq_output q"
    using assms by (simp add: iq_pos_def iq_inv_def)
  have "iq_used Size q < Capacity Size" by (simp add: iq_used_def)
  then show ?thesis
    unfolding out [symmetric] iq_input_pos [OF assms] by (auto simp: iq_pos_inj)
qed

lemma iq_used_unique:
  assumes "iq_input q < Capacity Size" "iq_output q < Capacity Size" "u < Capacity Size"
    and "iq_pos Size q u = iq_input q"
  shows "iq_used Size q = u"
proof -
  have "iq_input q + Capacity Size - iq_output q = (iq_output q + u) mod Capacity Size
      + (Capacity Size - iq_output q)"
    using assms by (simp add: iq_pos_def)
  then have "iq_used Size q = (iq_output q + u + (Capacity Size - iq_output q)) mod Capacity Size"
    by (simp only: iq_used_def mod_add_left_eq)
  also have "iq_output q + u + (Capacity Size - iq_output q) = u + Capacity Size"
    using assms(2) by simp
  finally show ?thesis using assms(3) by simp
qed

text \<open>One enqueue that finds room, spelled out on the fields.\<close>

lemma enqueue_room_fields:
  assumes inv: "iq_inv Size q" and room: "iq_used Size q < Size"
  defines "i \<equiv> iq_input q"
  shows "enqueue Size f q = (True,
     q\<lparr>iq_input := advance Size i,
       iq_buffer := (iq_buffer q)[i := \<lparr>is_committed = COMMITTED, contents = f (iq_get q i)\<rparr>]\<rparr>)"
proof -
  have "iq_output q \<noteq> advance Size i" and "i < length (iq_buffer q)"
    using room iq_full_iff [OF inv] inv by (auto simp: iq_inv_def i_def)
  then show ?thesis
    by (cases q, cases "iq_buffer q ! i")
      (simp add: enqueue_def acquireWrite_def commitWrite_def iq_set_def iq_flag_def iq_get_def
        i_def Let_def)
qed

lemma enqueue_full:
  assumes "iq_inv Size q" "iq_used Size q = Size"
  shows "enqueue Size f q = (False, q)"
  using iq_full_iff [OF assms(1)] assms(2) by (simp add: enqueue_def acquireWrite_def Let_def)

lemma enqueue_room:
  assumes inv: "iq_inv Size q" and room: "iq_used Size q < Size"
  shows "fst (enqueue Size f q)"
    and "iq_inv Size (snd (enqueue Size f q))"
    and "iq_used Size (snd (enqueue Size f q)) = Suc (iq_used Size q)"
    and "iq_abs Size (snd (enqueue Size f q)) = iq_abs Size q @ [f (iq_get q (iq_input q))]"
proof -
  let ?u = "iq_used Size q"
  define r where "r = snd (enqueue Size f q)"
  note e = enqueue_room_fields [OF inv room, of f]
  have f: "iq_input r = advance Size (iq_input q)" "iq_output r = iq_output q"
    "iq_buffer r = (iq_buffer q)[iq_input q :=
       \<lparr>is_committed = COMMITTED, contents = f (iq_get q (iq_input q))\<rparr>]"
    by (simp_all add: r_def e)
  have len: "length (iq_buffer q) = Capacity Size" and out: "iq_output q < Capacity Size"
    using inv by (auto simp: iq_inv_def)
  have pos: "iq_pos Size r k = iq_pos Size q k" for k
    by (simp add: f iq_pos_def)
  have u: "Suc ?u < Capacity Size" using room by (simp add: Capacity_def)
  have inp: "iq_input q = iq_pos Size q ?u" by (rule iq_input_pos [OF inv])
  have used: "iq_used Size r = Suc ?u"
    by (rule iq_used_unique) (simp_all add: u out f(1,2) pos inp advance_iq_pos)
  have cell: "iq_buffer r ! iq_pos Size q k =
      (if k = ?u then \<lparr>is_committed = COMMITTED, contents = f (iq_get q (iq_input q))\<rparr>
       else iq_buffer q ! iq_pos Size q k)" if "k < Capacity Size" for k
    using that u iq_pos_inj [of ?u Size k q] by (simp add: f inp [symmetric] nth_list_update_if len)
  show "fst (enqueue Size f q)" by (simp add: e)
  show "iq_used Size (snd (enqueue Size f q)) = Suc ?u"
    using used by (simp only: r_def)
  have "iq_inv Size r"
    unfolding iq_inv_def used pos using inv u by (simp add: iq_inv_def f(1,2) cell) (simp add: f)
  then show "iq_inv Size (snd (enqueue Size f q))" by (simp only: r_def)
  have "map (\<lambda>k. iq_get r (iq_pos Size r k)) [0..<?u] = iq_abs Size q"
    using u by (simp add: iq_abs_def pos iq_get_def cell)
  moreover have "iq_get r (iq_pos Size r ?u) = f (iq_get q (iq_input q))"
    using u by (simp add: pos iq_get_def cell)
  ultimately have "iq_abs Size r = iq_abs Size q @ [f (iq_get q (iq_input q))]"
    unfolding iq_abs_def used by simp
  then show "iq_abs Size (snd (enqueue Size f q)) = iq_abs Size q @ [f (iq_get q (iq_input q))]"
    by (simp only: r_def)
qed

lemma dequeue_empty:
  assumes "iq_inv Size q" "iq_used Size q = 0"
  shows "dequeue Size g q = None"
  using iq_empty_iff [OF assms(1)] assms(2) by (simp add: dequeue_def acquireRead_def)

lemma dequeue_fields:
  assumes inv: "iq_inv Size q" and some: "0 < iq_used Size q"
  shows "dequeue Size g q = Some (iq_get q (iq_output q),
     q\<lparr>iq_output := advance Size (iq_output q),
       iq_buffer := (iq_buffer q)[iq_output q :=
         \<lparr>is_committed = UNCOMMITTED, contents = g (iq_get q (iq_output q))\<rparr>]\<rparr>)"
proof -
  have i: "iq_pos Size q 0 = iq_output q" using inv by (simp add: iq_pos_def iq_inv_def)
  have "is_committed (iq_buffer q ! iq_pos Size q 0) = COMMITTED"
    using inv some unfolding iq_inv_def by (metis Capacity_pos)
  then have "is_committed (iq_buffer q ! iq_output q) = COMMITTED" by (simp only: i)
  moreover have "iq_output q \<noteq> iq_input q" using some iq_empty_iff [OF inv] by simp
  moreover have "iq_output q < length (iq_buffer q)" using inv by (simp add: iq_inv_def)
  ultimately show ?thesis
    by (cases "iq_buffer q ! iq_output q")
      (simp add: dequeue_def acquireRead_def commitRead_def iq_set_def iq_flag_def iq_get_def Let_def)
qed

lemma dequeue_some:
  assumes inv: "iq_inv Size q" and some: "0 < iq_used Size q"
  obtains q' where "dequeue Size g q = Some (iq_get q (iq_output q), q')"
    and "iq_inv Size q'" and "iq_used Size q' = iq_used Size q - 1"
    and "iq_abs Size q = iq_get q (iq_output q) # iq_abs Size q'"
proof -
  let ?u = "iq_used Size q"
  define r where "r = snd (the (dequeue Size g q))"
  note e = dequeue_fields [OF inv some, of g]
  have f: "iq_output r = advance Size (iq_output q)" "iq_input r = iq_input q"
    "iq_buffer r = (iq_buffer q)[iq_output q :=
       \<lparr>is_committed = UNCOMMITTED, contents = g (iq_get q (iq_output q))\<rparr>]"
    by (simp_all add: r_def e)
  have len: "length (iq_buffer q) = Capacity Size" and inp: "iq_input q < Capacity Size"
    using inv by (auto simp: iq_inv_def)
  have pos0: "iq_pos Size q 0 = iq_output q" using inv by (simp add: iq_pos_def iq_inv_def)
  have pos: "iq_pos Size r k = iq_pos Size q (Suc k)" for k
    by (simp add: f iq_pos_def advance_def mod_add_left_eq)
  have u: "?u < Capacity Size" by (simp add: iq_used_def)
  have used: "iq_used Size r = ?u - 1"
    by (rule iq_used_unique) (use u some inp iq_input_pos [OF inv] in \<open>simp_all add: f(1,2) pos\<close>)
  have cell: "iq_buffer r ! iq_pos Size q k =
      (if k = 0 then \<lparr>is_committed = UNCOMMITTED, contents = g (iq_get q (iq_output q))\<rparr>
       else iq_buffer q ! iq_pos Size q k)" if "k < Capacity Size" for k
    using that iq_pos_inj [of 0 Size k q] by (simp add: f pos0 [symmetric] nth_list_update_if len)
  have last: "iq_pos Size q (Capacity Size) = iq_pos Size q 0" by (simp add: iq_pos_def)
  have flag: "is_committed (iq_buffer r ! iq_pos Size r k) =
      (if k < ?u - 1 then COMMITTED else UNCOMMITTED)" if "k < Capacity Size" for k
  proof (cases "Suc k < Capacity Size")
    case True
    with inv show ?thesis by (auto simp: pos cell iq_inv_def)
  next
    case False
    with that have "Suc k = Capacity Size" by simp
    with u show ?thesis by (simp add: pos last cell)
  qed
  have inv': "iq_inv Size r"
    unfolding iq_inv_def used using flag inp len by (simp add: f)
  have "[0..<?u] = 0 # map Suc [0..<?u - 1]"
    using some by (simp add: map_Suc_upt upt_conv_Cons)
  moreover have "iq_get r (iq_pos Size r k) = iq_get q (iq_pos Size q (Suc k))"
    if "k < ?u - 1" for k
    using that u by (simp add: pos iq_get_def cell)
  ultimately have abs: "iq_abs Size q = iq_get q (iq_output q) # iq_abs Size r"
    unfolding iq_abs_def used by (simp add: pos0)
  have "dequeue Size g q = Some (iq_get q (iq_output q), r)" by (simp add: r_def e)
  then show thesis using inv' used abs by (rule that)
qed

lemma length_iq_abs [simp]: "length (iq_abs Size q) = iq_used Size q"
  by (simp add: iq_abs_def)

lemma iq_inv_InternalQueue: "iq_inv Size (InternalQueue Size d)"
  by (simp add: iq_inv_def InternalQueue_def iq_used_def)

lemma iq_abs_InternalQueue: "iq_abs Size (InternalQueue Size d) = []"
  by (simp add: iq_abs_def iq_used_def InternalQueue_def)

lemma enqueue_inv:
  assumes inv: "iq_inv Size q"
  shows "iq_inv Size (snd (enqueue Size f q))"
  using iq_used_le [of Size q] enqueue_room(2) [OF inv] enqueue_full [OF inv] inv
  by (metis nat_less_le snd_conv)

lemma iq_abs_Cons:
  assumes inv: "iq_inv Size q" and "iq_abs Size q = x # xs"
  obtains q' where "dequeue Size g q = Some (x, q')" "iq_inv Size q'" "iq_abs Size q' = xs"
  using dequeue_some [OF inv, of g] assms(2)
  by (metis length_iq_abs length_greater_0_conv list.distinct(1) list.inject)

interpretation ring: bounded_fifo Size "iq_inv Size" "iq_abs Size" "\<lambda>_. True"
  "\<lambda>x. enqueue Size (\<lambda>_. x)" "dequeue Size g" for Size g
proof
  fix q :: "'a iqueue" and x :: 'a and xs
  assume inv: "iq_inv Size q"
  show "length (iq_abs Size q) \<le> Size" using iq_used_le by simp
  show "iq_inv Size (snd (enqueue Size (\<lambda>_. x) q))" by (rule enqueue_inv [OF inv])
  show "length (iq_abs Size q) < Size \<Longrightarrow> fst (enqueue Size (\<lambda>_. x) q) \<and>
      iq_abs Size (snd (enqueue Size (\<lambda>_. x) q)) = iq_abs Size q @ [x]"
    using enqueue_room [OF inv] by simp
  show "length (iq_abs Size q) = Size \<Longrightarrow> \<not> fst (enqueue Size (\<lambda>_. x) q) \<and>
      iq_abs Size (snd (enqueue Size (\<lambda>_. x) q)) = iq_abs Size q"
    using enqueue_full [OF inv] by simp
  show "iq_abs Size q = [] \<Longrightarrow> dequeue Size g q = None"
    using dequeue_empty [OF inv] by (metis length_iq_abs list.size(3))
  show "iq_abs Size q = x # xs \<Longrightarrow>
      \<exists>q'. dequeue Size g q = Some (x, q') \<and> iq_inv Size q' \<and> iq_abs Size q' = xs"
    using iq_abs_Cons [OF inv] by metis
qed

text \<open>run without interruption, the ring is a bounded queue: of any sequence of pushes onto an empty ring
  the first \<open>Size\<close> are kept and the rest refused, and reads return the kept values in order.\<close>

lemma ring_push_pop_order:
  "fst (drain (dequeue Size g) n
     (snd (enq_all (\<lambda>x. enqueue Size (\<lambda>_. x)) xs (InternalQueue Size d)))) = take n (take Size xs) \<and>
   fst (enq_all (\<lambda>x. enqueue Size (\<lambda>_. x)) xs (InternalQueue Size d)) = min (length xs) Size"
  using ring.enq_all_drain [OF iq_inv_InternalQueue iq_abs_InternalQueue, where xs = xs and g = g and n = n]
    ring.enq_all_abs [OF iq_inv_InternalQueue, of xs Size d]
  by (simp add: iq_abs_InternalQueue list_all_length)

end
