(* ===== verification/Queue_Interleaving.thy ===== *)
theory Queue_Interleaving
  imports Internal_Queue
begin

text \<open>
  The ring of \<^verbatim>\<open>src/lib/internal_queue.h\<close> with its threads: signal handlers and the metrics thread
  as producers, the processor thread as the consumer. One step of a thread is one atomic access of
  the source (a load, a store, the compare-and-exchange); the scheduler picks any thread at any
  time. History variables (\<open>claims\<close>, \<open>reads\<close>, \<open>delivered\<close> and the ticket numbers in the program
  counters) record what happened and never influence a step.
\<close>

section \<open>The threads\<close>

text \<open>
  Program counter of a producer in \<open>acquireWrite\<close>, the write of the holder and \<open>commitWrite\<close>:
  \<open>P_Loaded v currentInput n\<close> after the load of \<open>input\<close> (\<open>n\<close> claims had happened by then),
  \<open>P_Checked\<close> after \<open>output\<close> was found different from \<open>nextInput\<close>, \<open>P_Claimed v position t\<close> after
  the successful exchange, \<open>P_Written position t\<close> after the holder was filled in.
\<close>

datatype 'a producer =
    P_Idle
  | P_Loaded 'a nat nat
  | P_Checked 'a nat nat
  | P_Claimed 'a nat nat
  | P_Written nat nat

text \<open>
  Program counter of the consumer in \<open>acquireRead\<close>, the use of the holder and \<open>commitRead\<close>.
\<close>

datatype consumer =
    C_Idle
  | C_Loaded nat
  | C_Waiting nat
  | C_Acquired nat
  | C_Done nat
  | C_Released nat

record 'a mpsc =
  ring :: "'a iqueue"
  producers :: "'a producer list"
  consumer :: consumer
  claims :: "'a list"
  reads :: nat
  delivered :: "'a list"

definition mpsc_init :: "nat \<Rightarrow> nat \<Rightarrow> 'a \<Rightarrow> 'a mpsc" where
  "mpsc_init Size threads d =
     \<lparr>ring = InternalQueue Size d, producers = replicate threads P_Idle, consumer = C_Idle,
      claims = [], reads = 0, delivered = []\<rparr>"

definition set_pc :: "nat \<Rightarrow> 'a producer \<Rightarrow> 'a mpsc \<Rightarrow> 'a mpsc" where
  "set_pc p pc s = s\<lparr>producers := (producers s)[p := pc]\<rparr>"

definition producer_step :: "nat \<Rightarrow> 'a \<Rightarrow> nat \<Rightarrow> 'a mpsc \<Rightarrow> 'a mpsc" where
  "producer_step Size v p s =
     (let q = ring s; n = length (claims s) in
      case producers s ! p of
        P_Idle \<Rightarrow> set_pc p (P_Loaded v (iq_input q) n) s
      | P_Loaded w currentInput k \<Rightarrow>
          if iq_output q = advance Size currentInput then set_pc p P_Idle s
          else set_pc p (P_Checked w currentInput k) s
      | P_Checked w currentInput k \<Rightarrow>
          if iq_input q = currentInput
          then set_pc p (P_Claimed w currentInput n)
                 (s\<lparr>ring := q\<lparr>iq_input := advance Size currentInput\<rparr>, claims := claims s @ [w]\<rparr>)
          else set_pc p (P_Loaded w (iq_input q) n) s
      | P_Claimed w position t \<Rightarrow>
          set_pc p (P_Written position t) (s\<lparr>ring := iq_set position (\<lambda>_. w) q\<rparr>)
      | P_Written position t \<Rightarrow> set_pc p P_Idle (s\<lparr>ring := commitWrite position q\<rparr>))"

definition consumer_step :: "nat \<Rightarrow> 'a mpsc \<Rightarrow> 'a mpsc" where
  "consumer_step Size s =
     (let q = ring s in
      case consumer s of
        C_Idle \<Rightarrow> s\<lparr>consumer := C_Loaded (iq_output q)\<rparr>
      | C_Loaded currentOutput \<Rightarrow>
          if currentOutput = iq_input q then s\<lparr>consumer := C_Idle\<rparr>
          else s\<lparr>consumer := C_Waiting currentOutput\<rparr>
      | C_Waiting currentOutput \<Rightarrow>
          if is_committed (iq_buffer q ! currentOutput) \<noteq> COMMITTED then s
          else s\<lparr>consumer := C_Acquired currentOutput\<rparr>
      | C_Acquired currentOutput \<Rightarrow>
          s\<lparr>consumer := C_Done currentOutput, delivered := delivered s @ [iq_get q currentOutput]\<rparr>
      | C_Done position \<Rightarrow>
          s\<lparr>ring := iq_flag position UNCOMMITTED q, consumer := C_Released position\<rparr>
      | C_Released position \<Rightarrow>
          s\<lparr>ring := q\<lparr>iq_output := advance Size position\<rparr>, consumer := C_Idle, reads := Suc (reads s)\<rparr>)"

inductive mpsc_step :: "nat \<Rightarrow> 'a mpsc \<Rightarrow> 'a mpsc \<Rightarrow> bool" for Size where
  produce: "p < length (producers s) \<Longrightarrow> mpsc_step Size s (producer_step Size v p s)"
| consume: "mpsc_step Size s (consumer_step Size s)"

text \<open>
  Reachable states, all of whose states after the first satisfy \<open>ok\<close>. With \<open>ok\<close> always true these are all
  runs. The exchange compares positions, not tickets, so a producer that sleeps between its load and
  its exchange cannot tell \<open>Capacity\<close> claims of the other producers from none; \<open>no_lap\<close> says that
  this has not happened to a producer about to exchange.
\<close>

inductive mpsc_reach :: "('a mpsc \<Rightarrow> bool) \<Rightarrow> nat \<Rightarrow> nat \<Rightarrow> 'a \<Rightarrow> 'a mpsc \<Rightarrow> bool"
  for ok Size threads d where
  start: "mpsc_reach ok Size threads d (mpsc_init Size threads d)"
| step: "mpsc_reach ok Size threads d s \<Longrightarrow> mpsc_step Size s t \<Longrightarrow> ok t \<Longrightarrow>
    mpsc_reach ok Size threads d t"

fun pc_no_lap :: "nat \<Rightarrow> nat \<Rightarrow> 'a producer \<Rightarrow> bool" where
  "pc_no_lap Size n (P_Checked _ _ k) = (n < k + Capacity Size)"
| "pc_no_lap Size n _ = True"

definition no_lap :: "nat \<Rightarrow> 'a mpsc \<Rightarrow> bool" where
  "no_lap Size s = list_all (pc_no_lap Size (length (claims s))) (producers s)"

text \<open>A schedule names, step by step, the thread that moves: \<open>Some (p, v)\<close> or the consumer.\<close>

fun run_schedule :: "nat \<Rightarrow> (nat \<times> 'a) option list \<Rightarrow> 'a mpsc \<Rightarrow> 'a mpsc" where
  "run_schedule Size [] s = s"
| "run_schedule Size (None # ts) s = run_schedule Size ts (consumer_step Size s)"
| "run_schedule Size (Some (p, v) # ts) s = run_schedule Size ts (producer_step Size v p s)"

section \<open>The invariant\<close>

definition flag :: "'a iqueue \<Rightarrow> nat \<Rightarrow> int" where
  "flag q i = is_committed (iq_buffer q ! i)"

fun ticket_of :: "'a producer \<Rightarrow> nat option" where
  "ticket_of (P_Claimed _ _ t) = Some t"
| "ticket_of (P_Written _ t) = Some t"
| "ticket_of _ = None"

definition ring_ok :: "nat \<Rightarrow> 'a iqueue \<Rightarrow> nat \<Rightarrow> nat \<Rightarrow> bool" where
  "ring_ok Size q N R \<longleftrightarrow>
     length (iq_buffer q) = Capacity Size \<and>
     iq_input q = N mod Capacity Size \<and> iq_output q = R mod Capacity Size \<and>
     R \<le> N \<and> N \<le> R + Size"

definition owned :: "nat \<Rightarrow> 'a iqueue \<Rightarrow> 'a list \<Rightarrow> nat \<Rightarrow> nat \<Rightarrow> nat \<Rightarrow> bool" where
  "owned Size q cl R i t \<longleftrightarrow>
     i = t mod Capacity Size \<and> R \<le> t \<and> t < length cl \<and> flag q i = UNCOMMITTED"

fun producer_ok :: "nat \<Rightarrow> 'a iqueue \<Rightarrow> 'a list \<Rightarrow> nat \<Rightarrow> 'a producer \<Rightarrow> bool" where
  "producer_ok Size q cl R P_Idle = True"
| "producer_ok Size q cl R (P_Loaded v i k) = (i = k mod Capacity Size \<and> k \<le> length cl)"
| "producer_ok Size q cl R (P_Checked v i k) =
     (i = k mod Capacity Size \<and> k \<le> length cl \<and> k < R + Size)"
| "producer_ok Size q cl R (P_Claimed v i t) = (owned Size q cl R i t \<and> cl ! t = v)"
| "producer_ok Size q cl R (P_Written i t) = (owned Size q cl R i t \<and> iq_get q i = cl ! t)"

definition held :: "'a producer list \<Rightarrow> nat \<Rightarrow> bool" where
  "held ps t \<longleftrightarrow> (\<exists>p < length ps. ticket_of (ps ! p) = Some t)"

definition unique_tickets :: "'a producer list \<Rightarrow> bool" where
  "unique_tickets ps \<longleftrightarrow>
     (\<forall>p p' t. p < length ps \<longrightarrow> p' < length ps \<longrightarrow>
        ticket_of (ps ! p) = Some t \<longrightarrow> ticket_of (ps ! p') = Some t \<longrightarrow> p = p')"

definition ticket_ok :: "nat \<Rightarrow> 'a iqueue \<Rightarrow> 'a list \<Rightarrow> 'a producer list \<Rightarrow> nat \<Rightarrow> bool" where
  "ticket_ok Size q cl ps t \<longleftrightarrow>
     held ps t \<or>
     flag q (t mod Capacity Size) = COMMITTED \<and> iq_get q (t mod Capacity Size) = cl ! t"

fun consumer_ok :: "nat \<Rightarrow> 'a iqueue \<Rightarrow> 'a list \<Rightarrow> nat \<Rightarrow> 'a list \<Rightarrow> 'a producer list \<Rightarrow> consumer \<Rightarrow> bool" where
  "consumer_ok Size q cl R dl ps C_Idle = (dl = take R cl)"
| "consumer_ok Size q cl R dl ps (C_Loaded i) = (i = R mod Capacity Size \<and> dl = take R cl)"
| "consumer_ok Size q cl R dl ps (C_Waiting i) =
     (i = R mod Capacity Size \<and> R < length cl \<and> dl = take R cl)"
| "consumer_ok Size q cl R dl ps (C_Acquired i) =
     (i = R mod Capacity Size \<and> R < length cl \<and> dl = take R cl \<and> flag q i = COMMITTED)"
| "consumer_ok Size q cl R dl ps (C_Done i) =
     (i = R mod Capacity Size \<and> R < length cl \<and> dl = take (Suc R) cl \<and> flag q i = COMMITTED)"
| "consumer_ok Size q cl R dl ps (C_Released i) =
     (i = R mod Capacity Size \<and> R < length cl \<and> dl = take (Suc R) cl \<and>
      flag q i = UNCOMMITTED \<and> \<not> held ps R)"

definition first_unread :: "'a mpsc \<Rightarrow> nat" where
  "first_unread s = (case consumer s of C_Released _ \<Rightarrow> Suc (reads s) | _ \<Rightarrow> reads s)"

definition mpsc_inv :: "nat \<Rightarrow> 'a mpsc \<Rightarrow> bool" where
  "mpsc_inv Size s \<longleftrightarrow>
     (let q = ring s; cl = claims s; N = length cl; R = reads s; ps = producers s in
      ring_ok Size q N R \<and>
      list_all (producer_ok Size q cl R) ps \<and>
      unique_tickets ps \<and>
      (\<forall>t. first_unread s \<le> t \<longrightarrow> t < N \<longrightarrow> ticket_ok Size q cl ps t) \<and>
      (\<forall>t. N \<le> t \<longrightarrow> t < R + Capacity Size \<longrightarrow> flag q (t mod Capacity Size) = UNCOMMITTED) \<and>
      consumer_ok Size q cl R (delivered s) ps (consumer s))"

lemma mpsc_invI:
  assumes "ring_ok Size (ring s) (length (claims s)) (reads s)"
    and "list_all (producer_ok Size (ring s) (claims s) (reads s)) (producers s)"
    and "unique_tickets (producers s)"
    and "\<And>t. first_unread s \<le> t \<Longrightarrow> t < length (claims s) \<Longrightarrow>
          ticket_ok Size (ring s) (claims s) (producers s) t"
    and "\<And>t. length (claims s) \<le> t \<Longrightarrow> t < reads s + Capacity Size \<Longrightarrow>
          flag (ring s) (t mod Capacity Size) = UNCOMMITTED"
    and "consumer_ok Size (ring s) (claims s) (reads s) (delivered s) (producers s) (consumer s)"
  shows "mpsc_inv Size s"
  using assms by (simp add: mpsc_inv_def Let_def)

lemma mpsc_invD:
  assumes "mpsc_inv Size s"
  shows "ring_ok Size (ring s) (length (claims s)) (reads s)"
    and "p < length (producers s) \<Longrightarrow>
          producer_ok Size (ring s) (claims s) (reads s) (producers s ! p)"
    and "unique_tickets (producers s)"
    and "first_unread s \<le> t \<Longrightarrow> t < length (claims s) \<Longrightarrow>
          ticket_ok Size (ring s) (claims s) (producers s) t"
    and "length (claims s) \<le> t \<Longrightarrow> t < reads s + Capacity Size \<Longrightarrow>
          flag (ring s) (t mod Capacity Size) = UNCOMMITTED"
    and "consumer_ok Size (ring s) (claims s) (reads s) (delivered s) (producers s) (consumer s)"
  using assms by (auto simp: mpsc_inv_def list_all_length Let_def)

lemma flag_iq_flag:
  "i < length (iq_buffer q) \<Longrightarrow> flag (iq_flag i c q) j = (if j = i then c else flag q j)"
  by (auto simp: flag_def iq_flag_def nth_list_update)

lemma flag_iq_set: "flag (iq_set i f q) j = flag q j"
  by (cases "i < length (iq_buffer q)") (auto simp: flag_def iq_set_def nth_list_update list_update_beyond)

lemma iq_get_iq_set:
  "i < length (iq_buffer q) \<Longrightarrow> iq_get (iq_set i f q) j = (if j = i then f (iq_get q i) else iq_get q j)"
  by (auto simp: iq_get_def iq_set_def nth_list_update)

lemma iq_get_iq_flag: "iq_get (iq_flag i c q) j = iq_get q j"
  by (cases "i < length (iq_buffer q)") (auto simp: iq_get_def iq_flag_def nth_list_update list_update_beyond)

lemma ring_fields [simp]:
  "iq_input (iq_flag i c q) = iq_input q" "iq_output (iq_flag i c q) = iq_output q"
  "length (iq_buffer (iq_flag i c q)) = length (iq_buffer q)"
  "iq_input (iq_set i f q) = iq_input q" "iq_output (iq_set i f q) = iq_output q"
  "length (iq_buffer (iq_set i f q)) = length (iq_buffer q)"
  "flag (q\<lparr>iq_input := x\<rparr>) j = flag q j" "flag (q\<lparr>iq_output := x\<rparr>) j = flag q j"
  "iq_get (q\<lparr>iq_input := x\<rparr>) j = iq_get q j" "iq_get (q\<lparr>iq_output := x\<rparr>) j = iq_get q j"
  by (simp_all add: iq_flag_def iq_set_def flag_def iq_get_def)

lemma held_update:
  "p < length ps \<Longrightarrow> held (ps[p := pc]) t \<longleftrightarrow>
     ticket_of pc = Some t \<or> (\<exists>p' < length ps. p' \<noteq> p \<and> ticket_of (ps ! p') = Some t)"
  by (auto simp: held_def nth_list_update_if split: if_splits)

lemma held_update_other:
  assumes "p < length ps" "ticket_of (ps ! p) \<noteq> Some t"
  shows "held (ps[p := pc]) t \<longleftrightarrow> ticket_of pc = Some t \<or> held ps t"
  using assms unfolding held_update [OF assms(1)] by (auto simp: held_def)

lemma unique_update:
  assumes uniq: "unique_tickets ps"
    and new: "\<And>p' t. ticket_of pc = Some t \<Longrightarrow> p' < length ps \<Longrightarrow> p' \<noteq> p \<Longrightarrow> ticket_of (ps ! p') \<noteq> Some t"
  shows "unique_tickets (ps[p := pc])"
  unfolding unique_tickets_def
proof (intro allI impI)
  fix a b t
  assume *: "a < length (ps[p := pc])" "b < length (ps[p := pc])"
    "ticket_of (ps[p := pc] ! a) = Some t" "ticket_of (ps[p := pc] ! b) = Some t"
  show "a = b"
  proof (cases "a = p \<or> b = p")
    case True
    with * new show ?thesis by (auto simp: nth_list_update_if split: if_splits)
  next
    case False
    with * have "ticket_of (ps ! a) = Some t" "ticket_of (ps ! b) = Some t" by auto
    with uniq * show ?thesis by (simp add: unique_tickets_def)
  qed
qed

lemma unique_update_keep:
  assumes "unique_tickets ps" "p < length ps" "ticket_of pc = ticket_of (ps ! p) \<or> ticket_of pc = None"
  shows "unique_tickets (ps[p := pc])"
  by (rule unique_update [OF assms(1)]) (use assms in \<open>metis option.distinct(1) unique_tickets_def\<close>)

lemma list_all_update:
  assumes "\<And>p'. p' < length ps \<Longrightarrow> p' \<noteq> p \<Longrightarrow> P (ps ! p')" "P pc"
  shows "list_all P (ps[p := pc])"
  using assms by (auto simp: list_all_length nth_list_update_if)

text \<open>Tickets in use are at most \<open>Size\<close> apart, so their positions identify them.\<close>

lemma window_pos:
  assumes "ring_ok Size q N R" "R \<le> a" "a < R + Capacity Size" "R \<le> b" "b < R + Capacity Size"
  shows "a mod Capacity Size = b mod Capacity Size \<longleftrightarrow> a = b"
  using mod_window_eq_sym [of R a "Capacity Size" b] assms by auto

lemma ring_ok_window: "ring_ok Size q N R \<Longrightarrow> t < N \<Longrightarrow> t < R + Capacity Size"
  by (auto simp: ring_ok_def Capacity_def)

lemma owned_ticket:
  assumes "producer_ok Size q cl R pc" "ticket_of pc = Some t"
  shows "R \<le> t" "t < length cl" "flag q (t mod Capacity Size) = UNCOMMITTED"
  using assms by (cases pc; auto simp: owned_def)+

lemma held_uncommitted:
  assumes "mpsc_inv Size s" "held (producers s) t"
  shows "reads s \<le> t" "t < length (claims s)" "flag (ring s) (t mod Capacity Size) = UNCOMMITTED"
  using assms mpsc_invD(2) [OF assms(1)] by (auto simp: held_def dest: owned_ticket)

section \<open>Every step keeps the invariant\<close>

lemma first_unread_set_pc [simp]:
  "first_unread (set_pc p pc s) = first_unread s"
  "first_unread (s\<lparr>ring := q\<rparr>) = first_unread s"
  "first_unread (s\<lparr>ring := q, claims := cl\<rparr>) = first_unread s"
  by (cases "consumer s"; simp add: first_unread_def set_pc_def)+

text \<open>A producer that neither gains nor loses a ticket changes nothing but its counter.\<close>

lemma set_pc_inv:
  assumes inv: "mpsc_inv Size s" and p: "p < length (producers s)"
    and none: "ticket_of (producers s ! p) = None" "ticket_of pc = None"
    and ok: "producer_ok Size (ring s) (claims s) (reads s) pc"
  shows "mpsc_inv Size (set_pc p pc s)"
proof (rule mpsc_invI)
  have h: "held ((producers s)[p := pc]) t = held (producers s) t" for t
    using held_update_other [OF p, of t pc] none by simp
  show "consumer_ok Size (ring (set_pc p pc s)) (claims (set_pc p pc s)) (reads (set_pc p pc s))
     (delivered (set_pc p pc s)) (producers (set_pc p pc s)) (consumer (set_pc p pc s))"
    using mpsc_invD(6) [OF inv] by (cases "consumer s") (auto simp: set_pc_def h)
  fix t
  assume t: "first_unread (set_pc p pc s) \<le> t" "t < length (claims (set_pc p pc s))"
  then have "ticket_ok Size (ring s) (claims s) (producers s) t"
    by (intro mpsc_invD(4) [OF inv]) (simp_all, simp add: set_pc_def)
  then show "ticket_ok Size (ring (set_pc p pc s)) (claims (set_pc p pc s))
      (producers (set_pc p pc s)) t"
    by (simp add: set_pc_def ticket_ok_def h)
qed (use mpsc_invD [OF inv] p none ok in
  \<open>auto simp: set_pc_def intro!: list_all_update unique_update_keep\<close>)

lemma producer_ok_grow:
  "producer_ok Size q cl R pc \<Longrightarrow> producer_ok Size (q\<lparr>iq_input := x\<rparr>) (cl @ [w]) R pc"
  by (cases pc) (auto simp: owned_def nth_append)

lemma claim_inv:
  assumes inv: "mpsc_inv Size s" and p: "p < length (producers s)"
    and none: "ticket_of (producers s ! p) = None"
    and room: "length (claims s) < reads s + Size"
  shows "mpsc_inv Size (set_pc p (P_Claimed w (iq_input (ring s)) (length (claims s)))
    (s\<lparr>ring := (ring s)\<lparr>iq_input := advance Size (iq_input (ring s))\<rparr>, claims := claims s @ [w]\<rparr>))"
    (is "mpsc_inv Size ?s")
proof (rule mpsc_invI)
  let ?N = "length (claims s)" and ?R = "reads s"
  note I = mpsc_invD [OF inv]
  have in_eq: "iq_input (ring s) = ?N mod Capacity Size" and le: "?R \<le> ?N"
    using I(1) by (auto simp: ring_ok_def)
  have h: "held ((producers s)[p := P_Claimed w i ?N]) t \<longleftrightarrow> t = ?N \<or> held (producers s) t" for t i
    using held_update_other [OF p, of t "P_Claimed w i ?N"] none by auto
  show "ring_ok Size (ring ?s) (length (claims ?s)) (reads ?s)"
    using I(1) room by (auto simp: ring_ok_def set_pc_def advance_def)
  have free: "flag (ring s) (?N mod Capacity Size) = UNCOMMITTED"
    using room by (intro I(5)) (auto simp: Capacity_def)
  have "list_all (producer_ok Size ((ring s)\<lparr>iq_input := x\<rparr>) (claims s @ [w]) ?R)
      ((producers s)[p := P_Claimed w (iq_input (ring s)) ?N])" for x
    by (rule list_all_update) (auto simp: I(2) producer_ok_grow owned_def in_eq le free)
  then show "list_all (producer_ok Size (ring ?s) (claims ?s) (reads ?s)) (producers ?s)"
    by (simp add: set_pc_def)
  have "unique_tickets ((producers s)[p := P_Claimed w i ?N])" for i
    using owned_ticket(2) [OF I(2)] by (intro unique_update I(3)) fastforce
  then show "unique_tickets (producers ?s)" by (simp add: set_pc_def)
  show "consumer_ok Size (ring ?s) (claims ?s) (reads ?s) (delivered ?s) (producers ?s) (consumer ?s)"
    using I(6) le by (cases "consumer s") (auto simp: set_pc_def h)
  fix t
  show "first_unread ?s \<le> t \<Longrightarrow> t < length (claims ?s) \<Longrightarrow>
      ticket_ok Size (ring ?s) (claims ?s) (producers ?s) t"
    using I(4) [of t] by (simp, auto simp: set_pc_def ticket_ok_def h nth_append less_Suc_eq)
  show "length (claims ?s) \<le> t \<Longrightarrow> t < reads ?s + Capacity Size \<Longrightarrow>
      flag (ring ?s) (t mod Capacity Size) = UNCOMMITTED"
    using I(5) [of t] by (simp add: set_pc_def)
qed

lemma producer_ok_write:
  assumes "producer_ok Size q cl R pc" "ticket_of pc \<noteq> Some t" "R \<le> t" "t < length cl"
    and ring: "ring_ok Size q (length cl) R"
  shows "producer_ok Size (iq_set (t mod Capacity Size) f q) cl R pc"
proof (cases pc)
  case (P_Written i t')
  with assms have "t' mod Capacity Size \<noteq> t mod Capacity Size"
    using window_pos [OF ring, of t' t] by (auto simp: owned_def ring_ok_def Capacity_def)
  with P_Written assms show ?thesis
    by (auto simp: owned_def flag_iq_set iq_get_iq_set ring_ok_def)
qed (use assms in \<open>auto simp: owned_def flag_iq_set\<close>)

lemma write_inv:
  assumes inv: "mpsc_inv Size s" and p: "p < length (producers s)"
    and pc: "producers s ! p = P_Claimed w i t"
  shows "mpsc_inv Size (set_pc p (P_Written i t) (s\<lparr>ring := iq_set i (\<lambda>_. w) (ring s)\<rparr>))"
    (is "mpsc_inv Size ?s")
proof (rule mpsc_invI)
  note I = mpsc_invD [OF inv]
  have own: "i = t mod Capacity Size" "reads s \<le> t" "t < length (claims s)"
      "flag (ring s) i = UNCOMMITTED" "claims s ! t = w"
    using I(2) [OF p] by (auto simp: pc owned_def)
  have i: "i < length (iq_buffer (ring s))" using I(1) own by (simp add: ring_ok_def)
  have h: "held ((producers s)[p := P_Written i t]) t' = held (producers s) t'" for t'
    using held_update [OF p, of "P_Written i t" t'] p pc by (auto simp: held_def)
  have other: "ticket_of (producers s ! p') \<noteq> Some t" if "p' < length (producers s)" "p' \<noteq> p" for p'
    using I(3) p pc that by (auto simp: unique_tickets_def)
  show "ring_ok Size (ring ?s) (length (claims ?s)) (reads ?s)"
    using I(1) by (auto simp: ring_ok_def set_pc_def)
  have "list_all (producer_ok Size (iq_set i (\<lambda>_. w) (ring s)) (claims s) (reads s))
      ((producers s)[p := P_Written i t])"
    by (rule list_all_update)
      (use own i other I(1,2) in \<open>auto simp: producer_ok_write owned_def flag_iq_set iq_get_iq_set\<close>)
  then show "list_all (producer_ok Size (ring ?s) (claims ?s) (reads ?s)) (producers ?s)"
    by (simp add: set_pc_def)
  show "unique_tickets (producers ?s)"
    using unique_update_keep [OF I(3) p, of "P_Written i t"] by (simp add: set_pc_def pc)
  show "consumer_ok Size (ring ?s) (claims ?s) (reads ?s) (delivered ?s) (producers ?s) (consumer ?s)"
    using I(6) by (cases "consumer s") (auto simp: set_pc_def h flag_iq_set)
  fix t'
  show "length (claims ?s) \<le> t' \<Longrightarrow> t' < reads ?s + Capacity Size \<Longrightarrow>
      flag (ring ?s) (t' mod Capacity Size) = UNCOMMITTED"
    using I(5) [of t'] by (simp add: set_pc_def flag_iq_set)
  assume "first_unread ?s \<le> t'" "t' < length (claims ?s)"
  then have t': "ticket_ok Size (ring s) (claims s) (producers s) t'" "t' < length (claims s)"
      "reads s \<le> t'"
    using I(4) [of t'] by (simp_all, auto simp: set_pc_def first_unread_def split: consumer.splits)
  have "held (producers s) t" using p pc by (auto simp: held_def)
  moreover have "t' mod Capacity Size \<noteq> i" if "t' \<noteq> t"
    using window_pos [OF I(1), of t' t] that own t'(2,3) I(1)
    by (auto simp: ring_ok_def Capacity_def)
  ultimately show "ticket_ok Size (ring ?s) (claims ?s) (producers ?s) t'"
    using t' i by (cases "t' = t") (auto simp: set_pc_def ticket_ok_def h flag_iq_set iq_get_iq_set)
qed

lemma producer_ok_commit:
  assumes "producer_ok Size q cl R pc" "ticket_of pc \<noteq> Some t" "R \<le> t" "t < length cl"
    and ring: "ring_ok Size q (length cl) R"
  shows "producer_ok Size (iq_flag (t mod Capacity Size) c q) cl R pc"
proof -
  have "t' mod Capacity Size \<noteq> t mod Capacity Size" if "ticket_of pc = Some t'" for t'
    using that assms owned_ticket [OF assms(1) that] window_pos [OF ring, of t' t]
    by (auto simp: ring_ok_def Capacity_def)
  then show ?thesis
    using assms by (cases pc) (auto simp: owned_def flag_iq_flag iq_get_iq_flag ring_ok_def)
qed

lemma commit_inv:
  assumes inv: "mpsc_inv Size s" and p: "p < length (producers s)"
    and pc: "producers s ! p = P_Written i t"
  shows "mpsc_inv Size (set_pc p P_Idle (s\<lparr>ring := commitWrite i (ring s)\<rparr>))"
    (is "mpsc_inv Size ?s")
proof (rule mpsc_invI)
  note I = mpsc_invD [OF inv]
  have own: "i = t mod Capacity Size" "reads s \<le> t" "t < length (claims s)"
      "flag (ring s) i = UNCOMMITTED" "iq_get (ring s) i = claims s ! t"
    using I(2) [OF p] by (auto simp: pc owned_def)
  have i: "i < length (iq_buffer (ring s))" using I(1) own by (simp add: ring_ok_def)
  have other: "ticket_of (producers s ! p') \<noteq> Some t" if "p' < length (producers s)" "p' \<noteq> p" for p'
    using I(3) p pc that by (auto simp: unique_tickets_def)
  have h: "held ((producers s)[p := P_Idle]) t' \<longleftrightarrow> t' \<noteq> t \<and> held (producers s) t'" for t'
    using held_update [OF p, of P_Idle t'] p pc other by (auto simp: held_def)
  have held: "held (producers s) t" using p pc by (auto simp: held_def)
  show "ring_ok Size (ring ?s) (length (claims ?s)) (reads ?s)"
    using I(1) by (auto simp: ring_ok_def set_pc_def commitWrite_def)
  have "list_all (producer_ok Size (iq_flag i COMMITTED (ring s)) (claims s) (reads s))
      ((producers s)[p := P_Idle])"
    by (rule list_all_update) (use own other I(1,2) in \<open>auto simp: producer_ok_commit\<close>)
  then show "list_all (producer_ok Size (ring ?s) (claims ?s) (reads ?s)) (producers ?s)"
    by (simp add: set_pc_def commitWrite_def)
  show "unique_tickets (producers ?s)"
    using unique_update_keep [OF I(3) p, of P_Idle] by (simp add: set_pc_def)
  have "reads s mod Capacity Size \<noteq> i" if "t \<noteq> reads s" "reads s < length (claims s)"
    using window_pos [OF I(1), of "reads s" t] that own I(1) by (auto simp: ring_ok_def Capacity_def)
  then show "consumer_ok Size (ring ?s) (claims ?s) (reads ?s) (delivered ?s) (producers ?s) (consumer ?s)"
    using I(6) held i
    by (cases "consumer s") (auto simp: set_pc_def h commitWrite_def flag_iq_flag)
  fix t'
  have pos: "t' mod Capacity Size \<noteq> i" if "t' \<noteq> t" "reads s \<le> t'" "t' < reads s + Capacity Size"
    using window_pos [OF I(1), of t' t] that own I(1) by (auto simp: ring_ok_def Capacity_def)
  show "length (claims ?s) \<le> t' \<Longrightarrow> t' < reads ?s + Capacity Size \<Longrightarrow>
      flag (ring ?s) (t' mod Capacity Size) = UNCOMMITTED"
    using I(5) [of t'] pos own i I(1) by (auto simp: set_pc_def commitWrite_def flag_iq_flag ring_ok_def)
  assume "first_unread ?s \<le> t'" "t' < length (claims ?s)"
  then have t': "ticket_ok Size (ring s) (claims s) (producers s) t'" "t' < length (claims s)"
      "reads s \<le> t'"
    using I(4) [of t'] by (simp_all, auto simp: set_pc_def first_unread_def split: consumer.splits)
  with pos own i ring_ok_window [OF I(1) t'(2)]
  show "ticket_ok Size (ring ?s) (claims ?s) (producers ?s) t'"
    by (cases "t' = t") (auto simp: set_pc_def ticket_ok_def h commitWrite_def flag_iq_flag iq_get_iq_flag)
qed

lemma producer_step_inv:
  assumes inv: "mpsc_inv Size s" and lap: "no_lap Size s" and p: "p < length (producers s)"
  shows "mpsc_inv Size (producer_step Size v p s)"
proof (cases "producers s ! p")
  case P_Idle
  with inv p mpsc_invD(1) [OF inv] show ?thesis
    by (simp add: producer_step_def set_pc_inv ring_ok_def)
next
  case (P_Loaded w i k)
  note I = mpsc_invD [OF inv]
  have k: "i = k mod Capacity Size" "k \<le> length (claims s)"
    using I(2) [OF p] P_Loaded by auto
  have "k < reads s + Size" if "iq_output (ring s) \<noteq> advance Size i"
  proof (rule ccontr)
    assume "\<not> k < reads s + Size"
    with k I(1) have "k = reads s + Size" by (simp add: ring_ok_def)
    with k have "advance Size i = reads s mod Capacity Size"
      by (simp add: advance_def Capacity_def)
    with that I(1) show False by (simp add: ring_ok_def)
  qed
  with inv p k P_Loaded show ?thesis
    by (simp add: producer_step_def set_pc_inv)
next
  case (P_Checked w i k)
  note I = mpsc_invD [OF inv]
  have k: "i = k mod Capacity Size" "k \<le> length (claims s)" "k < reads s + Size"
    using I(2) [OF p] P_Checked by auto
  have "length (claims s) < k + Capacity Size"
    using lap p P_Checked by (auto simp: no_lap_def list_all_length dest!: spec [of _ p])
  then have N: "k = length (claims s)" if "iq_input (ring s) = i"
    using that k I(1) mod_window_eq [of k "length (claims s)" "Capacity Size"] by (simp add: ring_ok_def)
  have none: "ticket_of (producers s ! p) = None" by (simp add: P_Checked)
  show ?thesis
  proof (cases "iq_input (ring s) = i")
    case True
    with claim_inv [OF inv p none, of w] N k(3) P_Checked show ?thesis
      by (simp add: producer_step_def Let_def)
  next
    case False
    have "producer_ok Size (ring s) (claims s) (reads s)
        (P_Loaded w (iq_input (ring s)) (length (claims s)))"
      using I(1) by (simp add: ring_ok_def)
    from set_pc_inv [OF inv p none _ this] False P_Checked show ?thesis
      by (simp add: producer_step_def Let_def)
  qed
next
  case (P_Claimed w i t)
  with write_inv [OF inv p this] show ?thesis by (simp add: producer_step_def)
next
  case (P_Written i t)
  with commit_inv [OF inv p this] show ?thesis by (simp add: producer_step_def)
qed

lemma consumer_only_inv:
  assumes inv: "mpsc_inv Size s" and fr: "first_unread (s\<lparr>consumer := c, delivered := d\<rparr>) = first_unread s"
    and ok: "consumer_ok Size (ring s) (claims s) (reads s) d (producers s) c"
  shows "mpsc_inv Size (s\<lparr>consumer := c, delivered := d\<rparr>)"
  by (rule mpsc_invI) (use mpsc_invD [OF inv] fr ok in \<open>auto simp: list_all_length\<close>)

text \<open>A committed cell at the read position belongs to nobody and holds its ticket's value.\<close>

lemma committed_head:
  assumes inv: "mpsc_inv Size s" and c: "flag (ring s) (reads s mod Capacity Size) = COMMITTED"
    and "reads s < length (claims s)" "first_unread s = reads s"
  shows "\<not> held (producers s) (reads s)"
    and "iq_get (ring s) (reads s mod Capacity Size) = claims s ! reads s"
proof -
  show h: "\<not> held (producers s) (reads s)"
    using held_uncommitted(3) [OF inv] c by fastforce
  show "iq_get (ring s) (reads s mod Capacity Size) = claims s ! reads s"
    using mpsc_invD(4) [OF inv, of "reads s"] assms h by (simp add: ticket_ok_def)
qed

lemma release_inv:
  assumes inv: "mpsc_inv Size s" and c: "consumer s = C_Done i"
  shows "mpsc_inv Size (s\<lparr>ring := iq_flag i UNCOMMITTED (ring s), consumer := C_Released i\<rparr>)"
    (is "mpsc_inv Size ?s")
proof (rule mpsc_invI)
  note I = mpsc_invD [OF inv]
  have C: "i = reads s mod Capacity Size" "reads s < length (claims s)"
      "delivered s = take (Suc (reads s)) (claims s)" "flag (ring s) i = COMMITTED"
    using I(6) c by auto
  have nh: "\<not> held (producers s) (reads s)"
    using committed_head(1) [OF inv] C c by (simp add: first_unread_def)
  have i: "i < length (iq_buffer (ring s))" using I(1) C by (simp add: ring_ok_def)
  show "ring_ok Size (ring ?s) (length (claims ?s)) (reads ?s)"
    using I(1) by (simp add: ring_ok_def)
  show "unique_tickets (producers ?s)" using I(3) by simp
  have "producer_ok Size (iq_flag i UNCOMMITTED (ring s)) (claims s) (reads s) (producers s ! p)"
    if "p < length (producers s)" for p
    unfolding C(1) by (rule producer_ok_commit [OF I(2)])
      (use that nh C I(1) in \<open>auto simp: held_def\<close>)
  then show "list_all (producer_ok Size (ring ?s) (claims ?s) (reads ?s)) (producers ?s)"
    by (simp add: list_all_length)
  show "consumer_ok Size (ring ?s) (claims ?s) (reads ?s) (delivered ?s) (producers ?s) (consumer ?s)"
    using C nh i by (simp add: flag_iq_flag)
  fix t
  show "length (claims ?s) \<le> t \<Longrightarrow> t < reads ?s + Capacity Size \<Longrightarrow>
      flag (ring ?s) (t mod Capacity Size) = UNCOMMITTED"
    using I(5) [of t] i by (simp add: flag_iq_flag)
  assume "first_unread ?s \<le> t" "t < length (claims ?s)"
  then have t: "Suc (reads s) \<le> t" "t < length (claims s)" by (simp_all add: first_unread_def)
  then have "ticket_ok Size (ring s) (claims s) (producers s) t"
    using I(4) [of t] c by (simp add: first_unread_def)
  moreover have "t mod Capacity Size \<noteq> i"
    using window_pos [OF I(1), of "reads s" t] t C I(1) by (auto simp: ring_ok_def Capacity_def)
  ultimately show "ticket_ok Size (ring ?s) (claims ?s) (producers ?s) t"
    using i by (simp add: ticket_ok_def flag_iq_flag iq_get_iq_flag)
qed

lemma producer_ok_advance:
  assumes "producer_ok Size q cl R pc" "ticket_of pc \<noteq> Some R"
  shows "producer_ok Size (q\<lparr>iq_output := x\<rparr>) cl (Suc R) pc"
proof (cases pc)
  case (P_Claimed v i t)
  with assms show ?thesis by (auto simp: owned_def Suc_le_eq le_neq_implies_less)
next
  case (P_Written i t)
  with assms show ?thesis by (auto simp: owned_def Suc_le_eq le_neq_implies_less)
qed (use assms in auto)

lemma advance_inv:
  assumes inv: "mpsc_inv Size s" and c: "consumer s = C_Released i"
  shows "mpsc_inv Size (s\<lparr>ring := (ring s)\<lparr>iq_output := advance Size i\<rparr>, consumer := C_Idle,
           reads := Suc (reads s)\<rparr>)" (is "mpsc_inv Size ?s")
proof (rule mpsc_invI)
  note I = mpsc_invD [OF inv]
  have C: "i = reads s mod Capacity Size" "reads s < length (claims s)"
      "delivered s = take (Suc (reads s)) (claims s)" "flag (ring s) i = UNCOMMITTED"
      "\<not> held (producers s) (reads s)"
    using I(6) c by auto
  show "ring_ok Size (ring ?s) (length (claims ?s)) (reads ?s)"
    using I(1) C by (simp add: ring_ok_def advance_def)
  show "unique_tickets (producers ?s)" using I(3) by simp
  have "producer_ok Size ((ring s)\<lparr>iq_output := advance Size i\<rparr>) (claims s) (Suc (reads s)) (producers s ! p)"
    if "p < length (producers s)" for p
    by (rule producer_ok_advance [OF I(2)]) (use that C(5) in \<open>auto simp: held_def\<close>)
  then show "list_all (producer_ok Size (ring ?s) (claims ?s) (reads ?s)) (producers ?s)"
    by (simp add: list_all_length)
  show "consumer_ok Size (ring ?s) (claims ?s) (reads ?s) (delivered ?s) (producers ?s) (consumer ?s)"
    using C by simp
  fix t
  show "first_unread ?s \<le> t \<Longrightarrow> t < length (claims ?s) \<Longrightarrow>
      ticket_ok Size (ring ?s) (claims ?s) (producers ?s) t"
    using I(4) [of t] c by (simp add: first_unread_def ticket_ok_def)
  show "length (claims ?s) \<le> t \<Longrightarrow> t < reads ?s + Capacity Size \<Longrightarrow>
      flag (ring ?s) (t mod Capacity Size) = UNCOMMITTED"
    using I(5) [of t] C by (cases "t = reads s + Capacity Size") auto
qed

lemma consumer_step_inv:
  assumes inv: "mpsc_inv Size s"
  shows "mpsc_inv Size (consumer_step Size s)"
proof -
  note I = mpsc_invD [OF inv]
  have upd: "mpsc_inv Size (s\<lparr>consumer := c\<rparr>)"
    if "first_unread (s\<lparr>consumer := c\<rparr>) = first_unread s"
      "consumer_ok Size (ring s) (claims s) (reads s) (delivered s) (producers s) c" for c
    using consumer_only_inv [OF inv, where c = c and d = "delivered s"] that by simp
  show ?thesis
  proof (cases "consumer s")
    case C_Idle
    with I(1,6) show ?thesis
      by (auto simp: consumer_step_def first_unread_def ring_ok_def intro!: upd)
  next
    case (C_Loaded i)
    have "reads s < length (claims s)" if "i \<noteq> iq_input (ring s)"
      using that I(1,6) C_Loaded by (auto simp: ring_ok_def nat_less_le)
    with I(6) C_Loaded show ?thesis
      by (auto simp: consumer_step_def first_unread_def intro!: upd)
  next
    case (C_Waiting i)
    with I(6) inv show ?thesis
      by (auto simp: consumer_step_def first_unread_def flag_def intro!: upd)
  next
    case (C_Acquired i)
    with I(6) committed_head [OF inv] show ?thesis
      by (auto simp: consumer_step_def first_unread_def take_Suc_nth_append intro!: consumer_only_inv [OF inv])
  next
    case (C_Done i)
    with release_inv [OF inv this] show ?thesis by (simp add: consumer_step_def)
  next
    case (C_Released i)
    with advance_inv [OF inv this] show ?thesis by (simp add: consumer_step_def)
  qed
qed

lemma mpsc_init_inv: "mpsc_inv Size (mpsc_init Size threads d)"
  by (rule mpsc_invI)
    (auto simp: mpsc_init_def InternalQueue_def ring_ok_def unique_tickets_def flag_def
      list_all_length first_unread_def)

lemma reach_inv: "mpsc_reach (no_lap Size) Size threads d s \<Longrightarrow> mpsc_inv Size s \<and> no_lap Size s"
proof (induction rule: mpsc_reach.induct)
  case start
  show ?case using mpsc_init_inv by (auto simp: no_lap_def mpsc_init_def list_all_length)
next
  case (step s t)
  from step.hyps(2) step.IH have "mpsc_inv Size t"
    by (cases rule: mpsc_step.cases) (auto intro: producer_step_inv consumer_step_inv)
  with step.hyps(3) show ?case by simp
qed

lemma run_schedule_reach:
  assumes "mpsc_reach ok Size threads d s"
    and "\<And>ts us. sched = ts @ us \<Longrightarrow> ok (run_schedule Size ts s)"
    and "list_all (\<lambda>x. case x of None \<Rightarrow> True | Some (p, v) \<Rightarrow> p < threads) sched"
    and "length (producers s) = threads"
  shows "mpsc_reach ok Size threads d (run_schedule Size sched s)"
  using assms
proof (induction sched arbitrary: s)
  case Nil
  then show ?case by simp
next
  case (Cons x sched)
  have len: "length (producers (consumer_step Size s)) = threads"
      "length (producers (producer_step Size v p s)) = threads" for p v
    using Cons.prems(4)
    by (auto simp: consumer_step_def producer_step_def set_pc_def Let_def
        split: consumer.splits producer.splits)
  define u where "u = run_schedule Size [x] s"
  have u: "run_schedule Size (x # ts) s = run_schedule Size ts u" for ts
    by (cases x) (auto simp: u_def)
  have "mpsc_step Size s u" and "length (producers u) = threads"
    using Cons.prems(3,4) len by (cases x; auto simp: u_def intro: mpsc_step.intros)+
  moreover have "ok u" using Cons.prems(2) [of "[x]" sched] by (simp add: u_def)
  ultimately have "mpsc_reach ok Size threads d u" and len: "length (producers u) = threads"
    using Cons.prems(1) by (auto intro: mpsc_reach.step)
  then show ?case
    unfolding u using Cons.prems(2) [of "x # _"] Cons.prems(3) by (intro Cons.IH) (auto simp: u)
qed

definition schedule_ok :: "('a mpsc \<Rightarrow> bool) \<Rightarrow> nat \<Rightarrow> (nat \<times> 'a) option list \<Rightarrow> 'a mpsc \<Rightarrow> bool" where
  "schedule_ok ok Size sched s =
     (list_all (\<lambda>k. ok (run_schedule Size (take k sched) s)) [0..<Suc (length sched)] \<and>
      list_all (\<lambda>x. case x of None \<Rightarrow> True | Some (p, v) \<Rightarrow> p < length (producers s)) sched)"

lemma schedule_reach:
  assumes "schedule_ok ok Size sched (mpsc_init Size threads d)"
  shows "mpsc_reach ok Size threads d (run_schedule Size sched (mpsc_init Size threads d))"
proof (rule run_schedule_reach [OF mpsc_reach.start])
  show "length (producers (mpsc_init Size threads d)) = threads"
    by (simp add: mpsc_init_def)
  with assms show "list_all (\<lambda>x. case x of None \<Rightarrow> True | Some (p, v) \<Rightarrow> p < threads) sched"
    unfolding schedule_ok_def by (simp only:)
  fix ts us
  assume "sched = ts @ us"
  then have "ts = take (length ts) sched" "length ts < Suc (length sched)" by auto
  moreover have "\<forall>k < Suc (length sched). ok (run_schedule Size (take k sched) (mpsc_init Size threads d))"
    using assms unfolding schedule_ok_def list_all_iff set_upt by fastforce
  ultimately show "ok (run_schedule Size ts (mpsc_init Size threads d))" by metis
qed

section \<open>What the ring guarantees under concurrency\<close>

fun written_position :: "'a producer \<Rightarrow> nat option" where
  "written_position (P_Claimed _ i _) = Some i"
| "written_position (P_Written i _) = Some i"
| "written_position _ = None"

fun read_position :: "consumer \<Rightarrow> nat option" where
  "read_position (C_Acquired i) = Some i"
| "read_position (C_Done i) = Some i"
| "read_position _ = None"

text \<open>C1: however the producers and the consumer interleave, as long as no producer is lapped between
  its load and its exchange, the consumer is handed the pushed values in claim order, each exactly
  once and completely written, and never more than \<open>Size\<close> of them are outstanding.\<close>

theorem mpsc_fifo_delivery:
  assumes "mpsc_reach (no_lap Size) Size threads d s"
  shows "delivered s = take (length (delivered s)) (claims s) \<and>
    length (delivered s) \<in> {reads s, Suc (reads s)} \<and>
    reads s \<le> length (claims s) \<and> length (claims s) \<le> reads s + Size"
proof -
  from assms have inv: "mpsc_inv Size s" by (rule reach_inv [THEN conjunct1])
  from mpsc_invD(1) [OF this] have le: "reads s \<le> length (claims s)"
    and "length (claims s) \<le> reads s + Size" by (auto simp: ring_ok_def)
  then show ?thesis
    using mpsc_invD(6) [OF inv] by (cases "consumer s") auto
qed

definition demo_schedule :: "(nat \<times> int) option list" where
  "demo_schedule = [Some (0, 7), Some (1, 8), Some (0, 7), Some (1, 8), Some (1, 8), Some (0, 7), Some (0, 7),
     Some (0, 7), Some (0, 7), None, None, None, Some (1, 8), Some (1, 8), None, None, None, None]"

lemma demo_reach: "mpsc_reach (no_lap 2) 2 2 0 (run_schedule 2 demo_schedule (mpsc_init 2 2 0))"
  by (rule schedule_reach) code_simp

theorem mpsc_fifo_delivery_witness:
  "delivered (run_schedule 2 demo_schedule (mpsc_init 2 2 0)) = [8] \<and>
   claims (run_schedule 2 demo_schedule (mpsc_init 2 2 0)) = [8, 7] \<and>
   delivered (run_schedule 2 demo_schedule (mpsc_init 2 2 0)) =
     take (length (delivered (run_schedule 2 demo_schedule (mpsc_init 2 2 0))))
       (claims (run_schedule 2 demo_schedule (mpsc_init 2 2 0)))"
proof (intro conjI)
  show "delivered (run_schedule 2 demo_schedule (mpsc_init 2 2 0)) = [8]" by code_simp
  show "claims (run_schedule 2 demo_schedule (mpsc_init 2 2 0)) = [8, 7]" by code_simp
qed (rule mpsc_fifo_delivery [OF demo_reach, THEN conjunct1])

text \<open>C21: two producers never fill the same cell at the same time, and never the cell the consumer
  is reading.\<close>

theorem mpsc_exclusive_cells:
  assumes reach: "mpsc_reach (no_lap Size) Size threads d s"
    and p: "p < length (producers s)" and i: "written_position (producers s ! p) = Some i"
  shows "(\<forall>p' < length (producers s). p' \<noteq> p \<longrightarrow> written_position (producers s ! p') \<noteq> Some i) \<and>
    read_position (consumer s) \<noteq> Some i"
proof -
  from reach have inv: "mpsc_inv Size s" by (rule reach_inv [THEN conjunct1])
  note I = mpsc_invD [OF inv]
  have own: "\<exists>t. ticket_of (producers s ! r) = Some t \<and> owned Size (ring s) (claims s) (reads s) j t"
    if "r < length (producers s)" "written_position (producers s ! r) = Some j" for r j
    using I(2) [OF that(1)] that(2) by (cases "producers s ! r") auto
  obtain t where t: "ticket_of (producers s ! p) = Some t" "owned Size (ring s) (claims s) (reads s) i t"
    using own [OF p i] by blast
  have "written_position (producers s ! p') \<noteq> Some i"
    if p': "p' < length (producers s)" "p' \<noteq> p" for p'
  proof
    assume "written_position (producers s ! p') = Some i"
    then obtain t' where t': "ticket_of (producers s ! p') = Some t'"
        "owned Size (ring s) (claims s) (reads s) i t'"
      using own [OF p'(1)] by blast
    from t t' I(1) have "t = t'"
      using window_pos [OF I(1), of t t'] ring_ok_window [OF I(1)] by (simp add: owned_def)
    with I(3) p p' t t' show False by (auto simp: unique_tickets_def)
  qed
  moreover have "read_position (consumer s) \<noteq> Some i"
    using I(6) t(2) by (cases "consumer s") (auto simp: owned_def)
  ultimately show ?thesis by blast
qed

definition demo_busy :: "int mpsc" where
  "demo_busy = run_schedule 2 (take 12 demo_schedule) (mpsc_init 2 2 0)"

lemma demo_busy_reach: "mpsc_reach (no_lap 2) 2 2 0 demo_busy"
  unfolding demo_busy_def by (rule schedule_reach) code_simp

theorem mpsc_exclusive_cells_witness:
  "written_position (producers demo_busy ! 1) = Some 0 \<and>
   written_position (producers demo_busy ! 0) \<noteq> Some 0 \<and> read_position (consumer demo_busy) \<noteq> Some 0"
proof -
  have p: "1 < length (producers demo_busy)" "0 < length (producers demo_busy)"
    and i: "written_position (producers demo_busy ! 1) = Some 0"
    by code_simp+
  show ?thesis
    using mpsc_exclusive_cells [OF demo_busy_reach p(1) i] p i by simp
qed

text \<open>without that restriction the fullness check can be stale: for a ring of \<open>Size\<close> one, a
  producer that sleeps between its check and its exchange while the others wrap the ring claims the
  one cell that must stay free; \<open>input\<close> meets \<open>output\<close>, the consumer takes the full ring for an
  empty one, and a claimed value is no longer delivered.\<close>

lemma mpsc_lapped_producer_loses_values:
  "\<exists>s. mpsc_reach (\<lambda>_. True) 1 2 (0::int) s \<and> iq_input (ring s) = iq_output (ring s) \<and>
       consumer s = C_Idle \<and> reads s + 1 < length (claims s) \<and> acquireRead (ring s) = NoRead"
proof -
  define sched :: "(nat \<times> int) option list" where
    "sched = [Some (0, 7), Some (0, 7)] @ replicate 5 (Some (1, 8)) @ replicate 6 None
       @ replicate 5 (Some (1, 9)) @ [Some (0, 7)]"
  let ?s = "run_schedule 1 sched (mpsc_init 1 2 0)"
  have "mpsc_reach (\<lambda>_. True) 1 2 0 ?s"
    by (rule schedule_reach) (unfold sched_def, code_simp)
  moreover have "iq_input (ring ?s) = iq_output (ring ?s)" "consumer ?s = C_Idle"
    "reads ?s + 1 < length (claims ?s)" "acquireRead (ring ?s) = NoRead"
    by (unfold sched_def, code_simp+)
  ultimately show ?thesis by blast
qed

end
