(* ===== verification/Metric_Types.thy ===== *)
theory Metric_Types
  imports Prelude
begin

text \<open>
  The data the components exchange: the metric types of \<^verbatim>\<open>src/lib/metric_types.h\<close>, the queue's
  metric records of \<^verbatim>\<open>src/lib/circular_queue.h\<close>, the stack-trace structs of
  \<^verbatim>\<open>src/lib/linkable_profiler.h\<close>, the notification categories of \<^verbatim>\<open>src/lib/data.proto\<close>, and the
  small functions of \<^verbatim>\<open>src/lib/metrics.cpp\<close> and \<^verbatim>\<open>src/lib/cpudata_reader.cpp\<close> on them.
\<close>

section \<open>Data\<close>

datatype MetricDataType = DataType_INVALID | DataType_LONG | DataType_STRING

datatype MetricVariability =
  Variability_INVALID | Variability_CONSTANT | Variability_MONOTONIC | Variability_VARIABLE

datatype MetricUnit =
    Unit_INVALID | Unit_NONE | Unit_BYTES | Unit_TICKS | Unit_EVENTS | Unit_STRING | Unit_HERTZ
  | Unit_MILLISECONDS | Unit_NANOSECONDS

record MetricData =
  md_type :: MetricDataType
  valueString :: string
  valueLong :: i64

record MetricListenerEntry =
  me_name :: string
  me_variability :: MetricVariability
  me_unit :: MetricUnit
  me_data :: MetricData

record MetricSample =
  ms_id :: u32
  ms_data :: MetricData

record MetricInformation =
  mi_name :: string
  mi_id :: u32
  mi_variability :: MetricVariability
  mi_dataType :: MetricDataType
  mi_unit :: MetricUnit

datatype NotificationCategory = USER_WARNING | USER_ERROR | INFO_LOGGING

text \<open>The methods of the abstract class \<open>MetricDataListener\<close>; a reader is modelled by the calls it makes.\<close>

datatype metric_call =
    RecordEntries "MetricListenerEntry list" int
  | MetricNotification NotificationCategory string

record timespec =
  tv_sec :: int
  tv_nsec :: int

record CallFrame =
  isForeign :: bool
  frame :: u64

record CallTrace =
  num_frames :: int
  ct_threadId :: u64
  frames :: "CallFrame list"

definition MAX_FRAMES :: int where "MAX_FRAMES = 256"

text \<open>The zeroed \<open>CallFrame\<close> that value initialisation and \<open>memset\<close> leave behind.\<close>

definition zeroFrame :: CallFrame where
  "zeroFrame = \<lparr>isForeign = False, frame = 0\<rparr>"

section \<open>Functions on them\<close>

text \<open>
  \<open>entryName.compare(0, n, p) == 0\<close> compares the first \<open>n\<close> characters, fewer if the string is shorter.
\<close>

fun isPrefixDisabled :: "string \<Rightarrow> string list \<Rightarrow> bool" where
  "isPrefixDisabled entryName [] = False"
| "isPrefixDisabled entryName (p # ps) =
     (if take (length p) entryName = p then True else isPrefixDisabled entryName ps)"

text \<open>C division truncates toward zero (\<open>sdiv\<close>).\<close>

definition toMillis :: "timespec \<Rightarrow> int" where
  "toMillis ts = tv_sec ts * 1000 + tv_nsec ts sdiv 1000000"

definition deltaInNs :: "timespec \<Rightarrow> timespec \<Rightarrow> int" where
  "deltaInNs start finish =
     (let durationSec = tv_sec finish - tv_sec start; durationNSec = tv_nsec finish - tv_nsec start
      in durationNSec + durationSec * 1000000000)"

lemma isPrefixDisabled_iff:
  "isPrefixDisabled n ps \<longleftrightarrow> (\<exists>p \<in> set ps. \<exists>r. n = p @ r)"
  by (induction ps) (auto, metis append_take_drop_id)

end
