(* ===== verification/Circular_Queue.thy ===== *)
theory Circular_Queue
  imports Internal_Queue Metric_Types
begin

text \<open>
  \<^verbatim>\<open>src/lib/circular_queue.h\<close> and \<^verbatim>\<open>src/lib/circular_queue.cpp\<close>: the three rings between the
  producers and the processor thread, the frame buffers beside the stack ring, the push operations
  and \<open>pop\<close>, which hands what it reads to a \<open>QueueListener\<close>.
\<close>

section \<open>Holders and events\<close>

datatype ElementType = NOTIFICATION | METRIC_INFORMATION | METRIC_SAMPLES | CONSTANT_METRICS_COMPLETE

record Holder =
  elementType :: ElementType
  category :: NotificationCategory
  payload :: string
  holder_value :: int
  metricInformation :: MetricInformation
  time_epoch_millis :: int
  metricSamples :: "MetricSample list"

definition newHolder :: Holder where
  "newHolder = \<lparr>elementType = NOTIFICATION, category = USER_WARNING, payload = [], holder_value = 0,
     metricInformation = \<lparr>mi_name = [], mi_id = 0, mi_variability = Variability_INVALID,
        mi_dataType = DataType_INVALID, mi_unit = Unit_INVALID\<rparr>,
     time_epoch_millis = 0, metricSamples = []\<rparr>"

text \<open>
  A \<open>VMSymbol*\<close> is \<open>None\<close> when null. The constructor leaves \<open>symbol\<close> uninitialised; it is always
  written before it is read.
\<close>

record AllocationHolder =
  ah_symbol :: "u64 option"
  allocationSize :: u64
  outsideTlab :: bool

definition newAllocationHolder :: AllocationHolder where
  "newAllocationHolder = \<lparr>ah_symbol = None, allocationSize = 0, outsideTlab = False\<rparr>"

datatype StackElementType = STACK_TRACE | THREAD

text \<open>
  The \<open>trace\<close> of a stack holder points into the frame buffer of its slot; \<open>sh_frames\<close> is the index
  of that buffer.
\<close>

record StackHolder =
  sh_elementType :: StackElementType
  tspec :: timespec
  sh_num_frames :: int
  sh_trace_threadId :: u64
  sh_frames :: "nat option"
  signum :: int
  threadState :: int
  time_tsc :: u64
  sh_threadId :: int
  sh_name :: string

definition newStackHolder :: StackHolder where
  "newStackHolder = \<lparr>sh_elementType = STACK_TRACE, tspec = \<lparr>tv_sec = 0, tv_nsec = 0\<rparr>, sh_num_frames = 0,
     sh_trace_threadId = 0, sh_frames = None, signum = 0, threadState = 0, time_tsc = 0,
     sh_threadId = 0, sh_name = []\<rparr>"

text \<open>The methods of the abstract class \<open>QueueListener\<close>, one constructor per method.\<close>

datatype QueueEvent =
    RecordStackTrace timespec CallTrace int int u64
  | RecordThread int string
  | RecordAllocation u64 bool "u64 option"
  | RecordNotification NotificationCategory string int
  | RecordMetricInformation MetricInformation
  | RecordMetricSamples int "MetricSample list"
  | RecordConstantMetricsComplete

section \<open>The queue\<close>

definition MainQueueSize :: nat where "MainQueueSize = 2048"
definition AllocationQueueSize :: nat where "AllocationQueueSize = 32768"
definition StackQueueSize :: nat where "StackQueueSize = 2048"

text \<open>
  The sizes are template arguments; the model takes them from a record so that small instances can
  be evaluated. \<open>queueSizes\<close> holds the values of the source.
\<close>

record QueueSizes =
  mainSize :: nat
  allocSize :: nat
  stackSize :: nat

definition queueSizes :: QueueSizes where
  "queueSizes = \<lparr>mainSize = MainQueueSize, allocSize = AllocationQueueSize, stackSize = StackQueueSize\<rparr>"

record CircularQueue =
  mainQueue :: "Holder iqueue"
  allocationQueue :: "AllocationHolder iqueue"
  stackQueue :: "StackHolder iqueue"
  frame_buffer :: "CallFrame list list"
  allocationFailures :: u32
  allocationStackTraceFailures :: u32
  cputimeFailures :: u32
  wallclockFailures :: u32
  metricFailures :: u32

text \<open>
  What can go wrong besides a full ring: an access outside a frame buffer (undefined behaviour in
  C++), a read that waits for a commit nobody will make, an array of negative length.
\<close>

datatype queue_fault = BufferOverflow | NeverCommitted | BadArrayLength

definition newCircularQueue :: "QueueSizes \<Rightarrow> int \<Rightarrow> queue_fault + CircularQueue" where
  "newCircularQueue sz maxFrameSize =
     (if maxFrameSize < 0 then Inl BadArrayLength
      else Inr \<lparr>mainQueue = InternalQueue (mainSize sz) newHolder,
        allocationQueue = InternalQueue (allocSize sz) newAllocationHolder,
        stackQueue = InternalQueue (stackSize sz) newStackHolder,
        frame_buffer = replicate (Capacity (stackSize sz)) (replicate (nat maxFrameSize) zeroFrame),
        allocationFailures = 0, allocationStackTraceFailures = 0, cputimeFailures = 0,
        wallclockFailures = 0, metricFailures = 0\<rparr>)"

text \<open>The copy loop of \<open>write\<close>, with every access checked against both arrays.\<close>

function copy_frames ::
  "nat \<Rightarrow> nat \<Rightarrow> CallFrame list \<Rightarrow> CallFrame list \<Rightarrow> queue_fault + CallFrame list" where
  "copy_frames frame_num n fb src =
     (if frame_num < n then
        if frame_num < length fb \<and> frame_num < length src
        then copy_frames (Suc frame_num) n (fb[frame_num := src ! frame_num]) src
        else Inl BufferOverflow
      else Inr fb)"
  by pat_completeness auto
termination by (relation "measure (\<lambda>(i, n, _). n - i)") auto

declare copy_frames.simps [simp del]

definition cq_write :: "CallTrace \<Rightarrow> nat \<Rightarrow> CircularQueue \<Rightarrow> queue_fault + CircularQueue" where
  "cq_write item slot q =
     (case copy_frames 0 (nat (num_frames item)) (frame_buffer q ! slot) (frames item) of
        Inl e \<Rightarrow> Inl e
      | Inr fb \<Rightarrow> Inr (q\<lparr>frame_buffer := (frame_buffer q)[slot := fb],
          stackQueue := iq_set slot (\<lambda>h. h\<lparr>sh_frames := Some slot,
             sh_trace_threadId := ct_threadId item, sh_num_frames := num_frames item\<rparr>) (stackQueue q)\<rparr>))"

definition pushStackTrace ::
  "QueueSizes \<Rightarrow> timespec \<Rightarrow> CallTrace \<Rightarrow> int \<Rightarrow> int \<Rightarrow> u64 \<Rightarrow> CircularQueue
     \<Rightarrow> queue_fault + bool \<times> CircularQueue" where
  "pushStackTrace sz now item sig state tsc q =
     (case acquireWrite (stackSize sz) (stackQueue q) of
        (None, sq) \<Rightarrow> Inr (False, q\<lparr>stackQueue := sq\<rparr>)
      | (Some currentInput, sq) \<Rightarrow>
          (case cq_write item currentInput (q\<lparr>stackQueue := sq\<rparr>) of
             Inl e \<Rightarrow> Inl e
           | Inr q \<Rightarrow> Inr (True, q\<lparr>stackQueue := commitWrite currentInput
               (iq_set currentInput (\<lambda>h. h\<lparr>sh_elementType := STACK_TRACE, tspec := now,
                  signum := sig, threadState := state, time_tsc := tsc\<rparr>) (stackQueue q))\<rparr>)))"

definition pushThread :: "QueueSizes \<Rightarrow> string \<Rightarrow> int \<Rightarrow> CircularQueue \<Rightarrow> bool \<times> CircularQueue" where
  "pushThread sz name tid q =
     (case acquireWrite (stackSize sz) (stackQueue q) of
        (None, sq) \<Rightarrow> (False, q\<lparr>stackQueue := sq\<rparr>)
      | (Some currentInput, sq) \<Rightarrow> (True, q\<lparr>stackQueue := commitWrite currentInput
          (iq_set currentInput (\<lambda>h. h\<lparr>sh_elementType := THREAD, sh_name := name, sh_threadId := tid\<rparr>) sq)\<rparr>))"

definition pushAllocation ::
  "QueueSizes \<Rightarrow> u64 \<Rightarrow> bool \<Rightarrow> u64 option \<Rightarrow> CircularQueue \<Rightarrow> bool \<times> CircularQueue" where
  "pushAllocation sz bytes outside symbol q =
     (case acquireWrite (allocSize sz) (allocationQueue q) of
        (None, aq) \<Rightarrow> (False, q\<lparr>allocationQueue := aq, allocationFailures := allocationFailures q + 1\<rparr>)
      | (Some currentInput, aq) \<Rightarrow> (True, q\<lparr>allocationQueue := commitWrite currentInput
          (iq_set currentInput (\<lambda>h. h\<lparr>allocationSize := bytes, outsideTlab := outside, ah_symbol := symbol\<rparr>) aq)\<rparr>))"

definition pushNotification ::
  "QueueSizes \<Rightarrow> NotificationCategory \<Rightarrow> string \<Rightarrow> int \<Rightarrow> CircularQueue \<Rightarrow> bool \<times> CircularQueue" where
  "pushNotification sz cat text v q =
     (case acquireWrite (mainSize sz) (mainQueue q) of
        (None, mq) \<Rightarrow> (False, q\<lparr>mainQueue := mq\<rparr>)
      | (Some currentInput, mq) \<Rightarrow> (True, q\<lparr>mainQueue := commitWrite currentInput
          (iq_set currentInput (\<lambda>h. h\<lparr>elementType := NOTIFICATION, category := cat, payload := text,
             holder_value := v\<rparr>) mq)\<rparr>))"

definition pushNotification2 ::
  "QueueSizes \<Rightarrow> NotificationCategory \<Rightarrow> string \<Rightarrow> CircularQueue \<Rightarrow> bool \<times> CircularQueue" where
  "pushNotification2 sz cat text q = pushNotification sz cat text 0 q"

definition pushMetricInformation ::
  "QueueSizes \<Rightarrow> MetricInformation \<Rightarrow> CircularQueue \<Rightarrow> bool \<times> CircularQueue" where
  "pushMetricInformation sz info q =
     (case acquireWrite (mainSize sz) (mainQueue q) of
        (None, mq) \<Rightarrow> (False, q\<lparr>mainQueue := mq, metricFailures := metricFailures q + 1\<rparr>)
      | (Some currentInput, mq) \<Rightarrow> (True, q\<lparr>mainQueue := commitWrite currentInput
          (iq_set currentInput (\<lambda>h. h\<lparr>elementType := METRIC_INFORMATION, metricInformation := info\<rparr>) mq)\<rparr>))"

definition pushMetricSamples ::
  "QueueSizes \<Rightarrow> MetricSample list \<Rightarrow> int \<Rightarrow> CircularQueue \<Rightarrow> bool \<times> CircularQueue" where
  "pushMetricSamples sz samples millis q =
     (case acquireWrite (mainSize sz) (mainQueue q) of
        (None, mq) \<Rightarrow> (False, q\<lparr>mainQueue := mq, metricFailures := metricFailures q + 1\<rparr>)
      | (Some currentInput, mq) \<Rightarrow> (True, q\<lparr>mainQueue := commitWrite currentInput
          (iq_set currentInput (\<lambda>h. h\<lparr>elementType := METRIC_SAMPLES, metricSamples := samples,
             time_epoch_millis := millis\<rparr>) mq)\<rparr>))"

definition pushConstantMetricsComplete :: "QueueSizes \<Rightarrow> CircularQueue \<Rightarrow> bool \<times> CircularQueue" where
  "pushConstantMetricsComplete sz q =
     (case acquireWrite (mainSize sz) (mainQueue q) of
        (None, mq) \<Rightarrow> (False, q\<lparr>mainQueue := mq, metricFailures := metricFailures q + 1\<rparr>)
      | (Some currentInput, mq) \<Rightarrow> (True, q\<lparr>mainQueue := commitWrite currentInput
          (iq_set currentInput (\<lambda>h. h\<lparr>elementType := CONSTANT_METRICS_COMPLETE\<rparr>) mq)\<rparr>))"

section \<open>Pop\<close>

text \<open>
  A listener runs on the processor thread while the slot it was given is still acquired; it changes
  its own state \<open>'w\<close> and may itself push onto the queue.
\<close>

type_synonym 'w listener = "QueueEvent \<Rightarrow> 'w \<times> CircularQueue \<Rightarrow> 'w \<times> CircularQueue"

fun holder_event :: "Holder \<Rightarrow> QueueEvent" where
  "holder_event h =
     (case elementType h of
        NOTIFICATION \<Rightarrow> RecordNotification (category h) (payload h) (holder_value h)
      | METRIC_INFORMATION \<Rightarrow> RecordMetricInformation (metricInformation h)
      | METRIC_SAMPLES \<Rightarrow> RecordMetricSamples (time_epoch_millis h) (metricSamples h)
      | CONSTANT_METRICS_COMPLETE \<Rightarrow> RecordConstantMetricsComplete)"

definition pop_main :: "QueueSizes \<Rightarrow> 'w listener \<Rightarrow> 'w \<times> CircularQueue
    \<Rightarrow> queue_fault + bool \<times> 'w \<times> CircularQueue" where
  "pop_main sz lst wq =
     (case acquireRead (mainQueue (snd wq)) of
        NoRead \<Rightarrow> Inr (False, wq)
      | Spins \<Rightarrow> Inl NeverCommitted
      | ReadAt currentOutput \<Rightarrow>
          (let (w, q) = lst (holder_event (iq_get (mainQueue (snd wq)) currentOutput)) wq
           in Inr (True, w, q\<lparr>mainQueue := commitRead (mainSize sz) currentOutput (mainQueue q)\<rparr>)))"

definition pop_allocation :: "QueueSizes \<Rightarrow> 'w listener \<Rightarrow> 'w \<times> CircularQueue
    \<Rightarrow> queue_fault + bool \<times> 'w \<times> CircularQueue" where
  "pop_allocation sz lst wq =
     (case acquireRead (allocationQueue (snd wq)) of
        NoRead \<Rightarrow> Inr (False, wq)
      | Spins \<Rightarrow> Inl NeverCommitted
      | ReadAt currentOutput \<Rightarrow>
          (let h = iq_get (allocationQueue (snd wq)) currentOutput;
               (w, q) = lst (RecordAllocation (allocationSize h) (outsideTlab h) (ah_symbol h)) wq
           in Inr (True, w, q\<lparr>allocationQueue := commitRead (allocSize sz) currentOutput
                (iq_set currentOutput (\<lambda>h. h\<lparr>ah_symbol := None\<rparr>) (allocationQueue q))\<rparr>)))"

text \<open>The loop that clears the frames of a popped trace.\<close>

function clear_frames :: "nat \<Rightarrow> nat \<Rightarrow> CallFrame list \<Rightarrow> queue_fault + CallFrame list" where
  "clear_frames frame_num n fb =
     (if frame_num < n then
        if frame_num < length fb then clear_frames (Suc frame_num) n (fb[frame_num := zeroFrame])
        else Inl BufferOverflow
      else Inr fb)"
  by pat_completeness auto
termination by (relation "measure (\<lambda>(i, n, _). n - i)") auto

declare clear_frames.simps [simp del]

definition stack_trace_of :: "CircularQueue \<Rightarrow> StackHolder \<Rightarrow> CallTrace" where
  "stack_trace_of q h = \<lparr>num_frames = sh_num_frames h, ct_threadId = sh_trace_threadId h,
     frames = (case sh_frames h of None \<Rightarrow> [] | Some b \<Rightarrow> frame_buffer q ! b)\<rparr>"

definition stack_event :: "CircularQueue \<Rightarrow> StackHolder \<Rightarrow> QueueEvent" where
  "stack_event q h =
     (case sh_elementType h of
        STACK_TRACE \<Rightarrow> RecordStackTrace (tspec h) (stack_trace_of q h) (signum h) (threadState h) (time_tsc h)
      | THREAD \<Rightarrow> RecordThread (sh_threadId h) (sh_name h))"

definition pop_stack :: "QueueSizes \<Rightarrow> 'w listener \<Rightarrow> 'w \<times> CircularQueue
    \<Rightarrow> queue_fault + bool \<times> 'w \<times> CircularQueue" where
  "pop_stack sz lst wq =
     (case acquireRead (stackQueue (snd wq)) of
        NoRead \<Rightarrow> Inr (False, wq)
      | Spins \<Rightarrow> Inl NeverCommitted
      | ReadAt currentOutput \<Rightarrow>
          (let h = iq_get (stackQueue (snd wq)) currentOutput;
               (w, q) = lst (stack_event (snd wq) h) wq;
               fbs = (case sh_elementType h of
                  STACK_TRACE \<Rightarrow>
                    (case clear_frames 0 (nat (sh_num_frames h)) (frame_buffer q ! currentOutput) of
                       Inl e \<Rightarrow> Inl e
                     | Inr fb \<Rightarrow> Inr ((frame_buffer q)[currentOutput := fb]))
                | THREAD \<Rightarrow> Inr (frame_buffer q))
           in case fbs of
                Inl e \<Rightarrow> Inl e
              | Inr bs \<Rightarrow> Inr (True, w, q\<lparr>frame_buffer := bs,
                  stackQueue := commitRead (stackSize sz) currentOutput (stackQueue q)\<rparr>)))"

definition pop :: "QueueSizes \<Rightarrow> 'w listener \<Rightarrow> 'w \<times> CircularQueue
    \<Rightarrow> queue_fault + bool \<times> 'w \<times> CircularQueue" where
  "pop sz lst wq =
     (case pop_main sz lst wq of
        Inl e \<Rightarrow> Inl e
      | Inr (r1, wq1) \<Rightarrow>
          (case pop_allocation sz lst wq1 of
             Inl e \<Rightarrow> Inl e
           | Inr (r2, wq2) \<Rightarrow>
               (case pop_stack sz lst wq2 of
                  Inl e \<Rightarrow> Inl e
                | Inr (r3, wq3) \<Rightarrow> Inr (r1 \<or> r2 \<or> r3, wq3))))"

section \<open>The frame loops\<close>

lemma copy_frames_ok:
  "i \<le> n \<Longrightarrow> n \<le> length fb \<Longrightarrow> n \<le> length src \<Longrightarrow>
     copy_frames i n fb src = Inr (take i fb @ take (n - i) (drop i src) @ drop n fb)"
proof (induction i n fb src rule: copy_frames.induct)
  case (1 i n fb src)
  show ?case
  proof (cases "i < n")
    case True
    with 1 have "copy_frames i n fb src =
        Inr (take (Suc i) (fb[i := src ! i]) @ take (n - Suc i) (drop (Suc i) src)
          @ drop n (fb[i := src ! i]))"
      by (subst copy_frames.simps) simp
    also have "take (Suc i) (fb[i := src ! i]) = take i fb @ [src ! i]"
      using True 1 by (simp add: take_Suc_conv_app_nth)
    finally have "copy_frames i n fb src =
        Inr (take i fb @ (src ! i # take (n - Suc i) (drop (Suc i) src)) @ drop n fb)"
      using True by simp
    moreover have "src ! i # take (n - Suc i) (drop (Suc i) src) = take (n - i) (drop i src)"
      using True 1 by (simp add: Cons_nth_drop_Suc [symmetric] take_Cons' Suc_diff_Suc)
    ultimately show ?thesis by simp
  next
    case False
    with 1 show ?thesis by (subst copy_frames.simps) simp
  qed
qed

lemma copy_frames_overflow:
  "length fb < n \<or> length src < n \<Longrightarrow> copy_frames i n fb src = Inl BufferOverflow \<or> n \<le> i"
proof (induction i n fb src rule: copy_frames.induct)
  case (1 i n fb src)
  show ?case
  proof (cases "i < n \<and> i < length fb \<and> i < length src")
    case True
    then have "copy_frames (Suc i) n (fb[i := src ! i]) src = Inl BufferOverflow"
      using 1 by auto
    with True show ?thesis by (subst copy_frames.simps) simp
  next
    case False
    then show ?thesis by (subst copy_frames.simps) auto
  qed
qed

lemma copy_frames_eq:
  "copy_frames 0 n fb src =
     (if n \<le> length fb \<and> n \<le> length src then Inr (take n src @ drop n fb) else Inl BufferOverflow)"
  using copy_frames_ok [of 0 n fb src] copy_frames_overflow [of fb n src 0] by auto

lemma clear_frames_ok:
  "i \<le> n \<Longrightarrow> n \<le> length fb \<Longrightarrow>
     clear_frames i n fb = Inr (take i fb @ replicate (n - i) zeroFrame @ drop n fb)"
proof (induction i n fb rule: clear_frames.induct)
  case (1 i n fb)
  show ?case
  proof (cases "i < n")
    case True
    with 1 have "clear_frames i n fb = Inr (take (Suc i) (fb[i := zeroFrame])
        @ replicate (n - Suc i) zeroFrame @ drop n (fb[i := zeroFrame]))"
      by (subst clear_frames.simps) simp
    also have "take (Suc i) (fb[i := zeroFrame]) = take i fb @ [zeroFrame]"
      using True 1 by (simp add: take_Suc_conv_app_nth)
    finally show ?thesis using True
      by (simp add: Suc_diff_Suc [symmetric] replicate_app_Cons_same)
  next
    case False
    with 1 show ?thesis by (subst clear_frames.simps) simp
  qed
qed

section \<open>Pushes are enqueues\<close>

lemma push_as_enqueue:
  "pushNotification sz cat text v q =
     (let (ok, mq) = enqueue (mainSize sz) (\<lambda>h. h\<lparr>elementType := NOTIFICATION, category := cat,
        payload := text, holder_value := v\<rparr>) (mainQueue q) in (ok, q\<lparr>mainQueue := mq\<rparr>))"
  "pushMetricInformation sz info q =
     (let (ok, mq) = enqueue (mainSize sz) (\<lambda>h. h\<lparr>elementType := METRIC_INFORMATION,
        metricInformation := info\<rparr>) (mainQueue q)
      in (ok, if ok then q\<lparr>mainQueue := mq\<rparr> else q\<lparr>mainQueue := mq, metricFailures := metricFailures q + 1\<rparr>))"
  "pushMetricSamples sz samples millis q =
     (let (ok, mq) = enqueue (mainSize sz) (\<lambda>h. h\<lparr>elementType := METRIC_SAMPLES,
        metricSamples := samples, time_epoch_millis := millis\<rparr>) (mainQueue q)
      in (ok, if ok then q\<lparr>mainQueue := mq\<rparr> else q\<lparr>mainQueue := mq, metricFailures := metricFailures q + 1\<rparr>))"
  "pushConstantMetricsComplete sz q =
     (let (ok, mq) = enqueue (mainSize sz) (\<lambda>h. h\<lparr>elementType := CONSTANT_METRICS_COMPLETE\<rparr>) (mainQueue q)
      in (ok, if ok then q\<lparr>mainQueue := mq\<rparr> else q\<lparr>mainQueue := mq, metricFailures := metricFailures q + 1\<rparr>))"
  "pushAllocation sz bytes outside symbol q =
     (let (ok, aq) = enqueue (allocSize sz) (\<lambda>h. h\<lparr>allocationSize := bytes, outsideTlab := outside,
        ah_symbol := symbol\<rparr>) (allocationQueue q)
      in (ok, if ok then q\<lparr>allocationQueue := aq\<rparr>
              else q\<lparr>allocationQueue := aq, allocationFailures := allocationFailures q + 1\<rparr>))"
  "pushThread sz name tid q =
     (let (ok, sq) = enqueue (stackSize sz) (\<lambda>h. h\<lparr>sh_elementType := THREAD, sh_name := name,
        sh_threadId := tid\<rparr>) (stackQueue q) in (ok, q\<lparr>stackQueue := sq\<rparr>))"
  by (simp_all add: pushNotification_def pushMetricInformation_def pushMetricSamples_def
      pushConstantMetricsComplete_def pushAllocation_def pushThread_def enqueue_def
      split: prod.splits option.splits)

text \<open>Reading a ring twice in a row gives the same cell; releasing it is what \<open>dequeue\<close> does.\<close>

lemma acquireRead_cases:
  assumes inv: "iq_inv Size q"
  shows "acquireRead q = (if iq_used Size q = 0 then NoRead else ReadAt (iq_output q))"
proof (cases "iq_used Size q = 0")
  case True
  with iq_empty_iff [OF inv] show ?thesis by (simp add: acquireRead_def)
next
  case False
  then have "dequeue Size id q \<noteq> None" using dequeue_fields [OF inv, of id] by simp
  then have "acquireRead q = ReadAt (iq_output q)"
    by (auto simp: dequeue_def acquireRead_def Let_def split: if_splits)
  with False show ?thesis by simp
qed

lemma release_as_dequeue:
  assumes "iq_inv Size q" "0 < iq_used Size q"
  shows "dequeue Size g q = Some (iq_get q (iq_output q), commitRead Size (iq_output q) (iq_set (iq_output q) g q))"
  using assms acquireRead_cases [OF assms(1)] by (simp add: dequeue_def)

lemma iq_set_id: "i < length (iq_buffer q) \<Longrightarrow> iq_set i (\<lambda>x. x) q = q"
  by (simp add: iq_set_def iq_get_def)

lemma release_as_dequeue_id:
  assumes "iq_inv Size q" "0 < iq_used Size q"
  shows "dequeue Size (\<lambda>x. x) q = Some (iq_get q (iq_output q), commitRead Size (iq_output q) q)"
proof -
  have "iq_output q < length (iq_buffer q)" using assms(1) by (simp add: iq_inv_def)
  then show ?thesis using release_as_dequeue [OF assms] iq_set_id by metis
qed

section \<open>The main ring as an abstract queue of events\<close>

definition main_events :: "QueueSizes \<Rightarrow> CircularQueue \<Rightarrow> QueueEvent list" where
  "main_events sz q = map holder_event (iq_abs (mainSize sz) (mainQueue q))"

fun is_main_event :: "QueueEvent \<Rightarrow> bool" where
  "is_main_event (RecordNotification _ _ _) = True"
| "is_main_event (RecordMetricInformation _) = True"
| "is_main_event (RecordMetricSamples _ _) = True"
| "is_main_event RecordConstantMetricsComplete = True"
| "is_main_event _ = False"

fun push_main :: "QueueSizes \<Rightarrow> QueueEvent \<Rightarrow> CircularQueue \<Rightarrow> bool \<times> CircularQueue" where
  "push_main sz (RecordNotification c t v) q = pushNotification sz c t v q"
| "push_main sz (RecordMetricInformation i) q = pushMetricInformation sz i q"
| "push_main sz (RecordMetricSamples ms xs) q = pushMetricSamples sz xs ms q"
| "push_main sz RecordConstantMetricsComplete q = pushConstantMetricsComplete sz q"
| "push_main sz _ q = (False, q)"

text \<open>A listener that only writes down what it is told.\<close>

definition recorder :: "QueueEvent list listener" where
  "recorder e wq = (fst wq @ [e], snd wq)"

definition take_main :: "QueueSizes \<Rightarrow> CircularQueue \<Rightarrow> (QueueEvent \<times> CircularQueue) option" where
  "take_main sz q =
     (case pop_main sz recorder ([], q) of Inr (_, [e], q') \<Rightarrow> Some (e, q') | _ \<Rightarrow> None)"

lemma push_main_enqueue:
  assumes "is_main_event e"
  obtains f where "\<And>h. holder_event (f h) = e"
    and "fst (push_main sz e q) = fst (enqueue (mainSize sz) f (mainQueue q))"
    and "mainQueue (snd (push_main sz e q)) = snd (enqueue (mainSize sz) f (mainQueue q))"
proof (cases e)
  case (RecordNotification c t v)
  then show thesis
    by (intro that [of "\<lambda>h. h\<lparr>elementType := NOTIFICATION, category := c, payload := t, holder_value := v\<rparr>"])
      (simp_all add: push_as_enqueue split: prod.split)
next
  case (RecordMetricInformation i)
  then show thesis
    by (intro that [of "\<lambda>h. h\<lparr>elementType := METRIC_INFORMATION, metricInformation := i\<rparr>"])
      (simp_all add: push_as_enqueue split: prod.split)
next
  case (RecordMetricSamples ms xs)
  then show thesis
    by (intro that [of "\<lambda>h. h\<lparr>elementType := METRIC_SAMPLES, metricSamples := xs, time_epoch_millis := ms\<rparr>"])
      (simp_all add: push_as_enqueue split: prod.split)
next
  case RecordConstantMetricsComplete
  then show thesis
    by (intro that [of "\<lambda>h. h\<lparr>elementType := CONSTANT_METRICS_COMPLETE\<rparr>"])
      (simp_all add: push_as_enqueue split: prod.split)
qed (use assms in simp_all)

lemma take_main_dequeue:
  assumes "iq_inv (mainSize sz) (mainQueue q)"
  shows "take_main sz q = (case dequeue (mainSize sz) (\<lambda>x. x) (mainQueue q) of
     None \<Rightarrow> None | Some (h, mq) \<Rightarrow> Some (holder_event h, q\<lparr>mainQueue := mq\<rparr>))"
  using acquireRead_cases [OF assms] release_as_dequeue_id [OF assms] dequeue_empty [OF assms, of "\<lambda>x. x"]
  by (simp add: take_main_def pop_main_def recorder_def del: holder_event.simps)

interpretation mainq: bounded_fifo "mainSize sz" "\<lambda>q. iq_inv (mainSize sz) (mainQueue q)"
  "main_events sz" is_main_event "push_main sz" "take_main sz" for sz
proof
  fix q :: CircularQueue and e es
  assume inv: "iq_inv (mainSize sz) (mainQueue q)"
  show "length (main_events sz q) \<le> mainSize sz"
    using ring.abs_bound [OF inv] by (simp add: main_events_def)
  show "main_events sz q = [] \<Longrightarrow> take_main sz q = None"
    using ring.deq_empty [OF inv] take_main_dequeue [OF inv] by (simp add: main_events_def)
  show "\<exists>q'. take_main sz q = Some (e, q') \<and> iq_inv (mainSize sz) (mainQueue q') \<and> main_events sz q' = es"
    if "main_events sz q = e # es"
  proof -
    from that obtain h hs where abs: "iq_abs (mainSize sz) (mainQueue q) = h # hs"
        and h: "holder_event h = e" "map holder_event hs = es"
      by (auto simp: main_events_def simp del: holder_event.simps)
    obtain mq where "dequeue (mainSize sz) (\<lambda>x. x) (mainQueue q) = Some (h, mq)"
        "iq_inv (mainSize sz) mq" "iq_abs (mainSize sz) mq = hs"
      using iq_abs_Cons [OF inv abs] .
    with h take_main_dequeue [OF inv] show ?thesis
      by (auto simp: main_events_def simp del: holder_event.simps)
  qed
  assume e: "is_main_event e"
  obtain f where f: "\<And>h. holder_event (f h) = e"
      "fst (push_main sz e q) = fst (enqueue (mainSize sz) f (mainQueue q))"
      "mainQueue (snd (push_main sz e q)) = snd (enqueue (mainSize sz) f (mainQueue q))"
    using push_main_enqueue [OF e, of sz q] by blast
  show "iq_inv (mainSize sz) (mainQueue (snd (push_main sz e q)))"
    unfolding f(3) by (rule enqueue_inv [OF inv])
  show "length (main_events sz q) < mainSize sz \<Longrightarrow>
      fst (push_main sz e q) \<and> main_events sz (snd (push_main sz e q)) = main_events sz q @ [e]"
    unfolding main_events_def f(2,3) using enqueue_room(1,4) [OF inv, of f] f(1) by simp
  show "length (main_events sz q) = mainSize sz \<Longrightarrow>
      \<not> fst (push_main sz e q) \<and> main_events sz (snd (push_main sz e q)) = main_events sz q"
    unfolding main_events_def f(2,3) using enqueue_full [OF inv, of f] by simp
qed

section \<open>The whole queue: invariant and abstract view\<close>

definition alloc_event :: "AllocationHolder \<Rightarrow> QueueEvent" where
  "alloc_event h = RecordAllocation (allocationSize h) (outsideTlab h) (ah_symbol h)"

definition alloc_events :: "QueueSizes \<Rightarrow> CircularQueue \<Rightarrow> QueueEvent list" where
  "alloc_events sz q = map alloc_event (iq_abs (allocSize sz) (allocationQueue q))"

definition stack_events :: "QueueSizes \<Rightarrow> CircularQueue \<Rightarrow> QueueEvent list" where
  "stack_events sz q = map (stack_event q) (iq_abs (stackSize sz) (stackQueue q))"

text \<open>
  The number of frames a position of the stack ring carries: those of the trace waiting there, none
  where nothing or a thread record waits. Beyond them a frame buffer is all zero.
\<close>

definition slot :: "QueueSizes \<Rightarrow> CircularQueue \<Rightarrow> nat \<Rightarrow> nat" where
  "slot sz q k = iq_pos (stackSize sz) (stackQueue q) k"

definition carries_trace :: "QueueSizes \<Rightarrow> CircularQueue \<Rightarrow> nat \<Rightarrow> bool" where
  "carries_trace sz q k \<longleftrightarrow> k < iq_used (stackSize sz) (stackQueue q) \<and>
     sh_elementType (iq_get (stackQueue q) (slot sz q k)) = STACK_TRACE"

definition live :: "QueueSizes \<Rightarrow> CircularQueue \<Rightarrow> nat \<Rightarrow> nat" where
  "live sz q k =
     (if carries_trace sz q k then nat (sh_num_frames (iq_get (stackQueue q) (slot sz q k))) else 0)"

definition frames_ok :: "QueueSizes \<Rightarrow> nat \<Rightarrow> CircularQueue \<Rightarrow> bool" where
  "frames_ok sz mf q \<longleftrightarrow>
     length (frame_buffer q) = Capacity (stackSize sz) \<and>
     (\<forall>k < Capacity (stackSize sz).
        length (frame_buffer q ! slot sz q k) = mf \<and> live sz q k \<le> mf \<and>
        drop (live sz q k) (frame_buffer q ! slot sz q k) = replicate (mf - live sz q k) zeroFrame \<and>
        (carries_trace sz q k \<longrightarrow> sh_frames (iq_get (stackQueue q) (slot sz q k)) = Some (slot sz q k)))"

definition cq_inv :: "QueueSizes \<Rightarrow> nat \<Rightarrow> CircularQueue \<Rightarrow> bool" where
  "cq_inv sz mf q \<longleftrightarrow>
     iq_inv (mainSize sz) (mainQueue q) \<and> iq_inv (allocSize sz) (allocationQueue q) \<and>
     iq_inv (stackSize sz) (stackQueue q) \<and> frames_ok sz mf q"

lemma cq_invD:
  assumes "cq_inv sz mf q"
  shows "iq_inv (mainSize sz) (mainQueue q)" "iq_inv (allocSize sz) (allocationQueue q)"
    "iq_inv (stackSize sz) (stackQueue q)" "frames_ok sz mf q"
  using assms by (auto simp: cq_inv_def)

lemma frames_okD:
  assumes "frames_ok sz mf q" "k < Capacity (stackSize sz)"
  shows "length (frame_buffer q) = Capacity (stackSize sz)"
    "length (frame_buffer q ! slot sz q k) = mf" "live sz q k \<le> mf"
    "drop (live sz q k) (frame_buffer q ! slot sz q k) = replicate (mf - live sz q k) zeroFrame"
    "carries_trace sz q k \<Longrightarrow> sh_frames (iq_get (stackQueue q) (slot sz q k)) = Some (slot sz q k)"
  using assms by (auto simp: frames_ok_def)

lemma slot_less [simp]: "slot sz q k < Capacity (stackSize sz)"
  by (simp add: slot_def)

lemma slot_inj:
  "j < Capacity (stackSize sz) \<Longrightarrow> k < Capacity (stackSize sz) \<Longrightarrow> slot sz q j = slot sz q k \<longleftrightarrow> j = k"
  by (simp add: slot_def iq_pos_inj)

lemma used_less_Capacity [simp]: "iq_used n q < Capacity n"
  by (simp add: iq_used_def)

lemma newCircularQueue_inv:
  assumes "newCircularQueue sz m = Inr q"
  shows "cq_inv sz (nat m) q" "main_events sz q = []" "alloc_events sz q = []" "stack_events sz q = []"
proof -
  have u: "iq_used (stackSize sz) (InternalQueue (stackSize sz) newStackHolder) = 0"
    by (simp add: iq_used_def InternalQueue_def)
  show "cq_inv sz (nat m) q"
    using assms u
    by (auto simp: newCircularQueue_def cq_inv_def frames_ok_def live_def carries_trace_def slot_def
        iq_inv_InternalQueue split: if_splits)
qed (use assms in \<open>auto simp: newCircularQueue_def main_events_def alloc_events_def stack_events_def
      iq_abs_InternalQueue split: if_splits\<close>)

text \<open>What the listener is told about a trace: its live frames, zeros after them.\<close>

definition sent_trace :: "nat \<Rightarrow> CallTrace \<Rightarrow> CallTrace" where
  "sent_trace mf item =
     item\<lparr>frames := take (nat (num_frames item)) (frames item)
            @ replicate (mf - nat (num_frames item)) zeroFrame\<rparr>"

lemma iq_set_iq_set: "i < length (iq_buffer q) \<Longrightarrow> iq_set i g (iq_set i f q) = iq_set i (\<lambda>x. g (f x)) q"
  by (simp add: iq_set_def iq_get_def)

definition trace_holder :: "nat \<Rightarrow> timespec \<Rightarrow> CallTrace \<Rightarrow> int \<Rightarrow> int \<Rightarrow> u64 \<Rightarrow> StackHolder \<Rightarrow> StackHolder" where
  "trace_holder i now item sig st tsc h =
     h\<lparr>sh_frames := Some i, sh_trace_threadId := ct_threadId item, sh_num_frames := num_frames item,
       sh_elementType := STACK_TRACE, tspec := now, signum := sig, threadState := st, time_tsc := tsc\<rparr>"

lemma pushStackTrace_room:
  assumes inv: "cq_inv sz mf q" and room: "iq_used (stackSize sz) (stackQueue q) < stackSize sz"
    and n: "nat (num_frames item) \<le> mf" "nat (num_frames item) \<le> length (frames item)"
  shows "pushStackTrace sz now item sig st tsc q = Inr (True, q\<lparr>
    stackQueue := snd (enqueue (stackSize sz)
      (trace_holder (iq_input (stackQueue q)) now item sig st tsc) (stackQueue q)),
    frame_buffer := (frame_buffer q)[iq_input (stackQueue q) := frames (sent_trace mf item)]\<rparr>)"
proof -
  let ?sq = "stackQueue q" and ?i = "iq_input (stackQueue q)" and ?u = "iq_used (stackSize sz) (stackQueue q)"
  note I = cq_invD [OF inv]
  have i: "?i = slot sz q ?u" using iq_input_pos [OF I(3)] by (simp add: slot_def)
  note F = frames_okD [OF I(4) used_less_Capacity [of "stackSize sz" ?sq], folded i]
  have "live sz q ?u = 0" by (simp add: live_def carries_trace_def)
  with F have fb: "frame_buffer q ! ?i = replicate mf zeroFrame" by simp
  have acq: "acquireWrite (stackSize sz) ?sq = (Some ?i, ?sq\<lparr>iq_input := advance (stackSize sz) ?i\<rparr>)"
    using iq_full_iff [OF I(3)] room by (simp add: acquireWrite_def Let_def)
  have len: "?i < length (iq_buffer ?sq)" using I(3) by (simp add: iq_inv_def)
  have "copy_frames 0 (nat (num_frames item)) (frame_buffer q ! ?i) (frames item) =
      Inr (frames (sent_trace mf item))"
    using n fb by (simp add: copy_frames_eq sent_trace_def)
  then show ?thesis
    using acq len by (simp add: pushStackTrace_def cq_write_def enqueue_def iq_set_iq_set trace_holder_def [abs_def])
qed

lemma pushStackTrace_full:
  assumes inv: "cq_inv sz mf q" and "iq_used (stackSize sz) (stackQueue q) = stackSize sz"
  shows "pushStackTrace sz now item sig st tsc q = Inr (False, q)"
  using iq_full_iff [OF cq_invD(3) [OF inv]] assms(2) by (simp add: pushStackTrace_def acquireWrite_def Let_def)

text \<open>Cells of a ring after an enqueue or a release, in terms of the distance from \<open>output\<close>.\<close>

lemma enqueue_cells:
  assumes inv: "iq_inv Size q" and room: "iq_used Size q < Size"
  shows "iq_pos Size (snd (enqueue Size f q)) k = iq_pos Size q k"
    and "k < Capacity Size \<Longrightarrow> iq_get (snd (enqueue Size f q)) (iq_pos Size q k) =
          (if k = iq_used Size q then f (iq_get q (iq_input q)) else iq_get q (iq_pos Size q k))"
proof -
  note e = enqueue_room_fields [OF inv room, of f]
  show "iq_pos Size (snd (enqueue Size f q)) k = iq_pos Size q k"
    by (simp add: e iq_pos_def)
  assume k: "k < Capacity Size"
  have "length (iq_buffer q) = Capacity Size" using inv by (simp add: iq_inv_def)
  then show "iq_get (snd (enqueue Size f q)) (iq_pos Size q k) =
      (if k = iq_used Size q then f (iq_get q (iq_input q)) else iq_get q (iq_pos Size q k))"
    using iq_pos_inj [OF used_less_Capacity k, of q q] iq_input_pos [OF inv]
    by (simp add: e iq_get_def nth_list_update_if)
qed

lemma release_cells:
  assumes inv: "iq_inv Size q" and some: "0 < iq_used Size q"
    and d: "dequeue Size g q = Some (x, r)"
  shows "iq_pos Size r k = iq_pos Size q (Suc k)"
    and "0 < k \<Longrightarrow> k < Capacity Size \<Longrightarrow> iq_get r (iq_pos Size q k) = iq_get q (iq_pos Size q k)"
proof -
  have r: "r = q\<lparr>iq_output := advance Size (iq_output q),
       iq_buffer := (iq_buffer q)[iq_output q :=
         \<lparr>is_committed = UNCOMMITTED, contents = g (iq_get q (iq_output q))\<rparr>]\<rparr>"
    using trans [OF d [symmetric] dequeue_fields [OF inv some, of g]] by auto
  show "iq_pos Size r k = iq_pos Size q (Suc k)"
    by (simp add: r iq_pos_def advance_def mod_add_left_eq)
  assume k: "0 < k" "k < Capacity Size"
  have "iq_pos Size q 0 = iq_output q" using inv by (simp add: iq_pos_def iq_inv_def)
  with k show "iq_get r (iq_pos Size q k) = iq_get q (iq_pos Size q k)"
    using iq_pos_inj [of 0 Size k q] by (simp add: r iq_get_def)
qed

lemma stack_event_frames:
  assumes "sh_elementType h = STACK_TRACE \<Longrightarrow> \<exists>b. sh_frames h = Some b \<and> frame_buffer q' ! b = frame_buffer q ! b"
  shows "stack_event q' h = stack_event q h"
  using assms by (auto simp: stack_event_def stack_trace_of_def split: StackElementType.splits)

lemma frames_ok_enqueue:
  assumes inv: "cq_inv sz mf q" and room: "iq_used (stackSize sz) (stackQueue q) < stackSize sz"
    and fb: "length fb = mf" "live_new \<le> mf" "drop live_new fb = replicate (mf - live_new) zeroFrame"
    and f: "\<And>h. live_new = (if sh_elementType (f h) = STACK_TRACE then nat (sh_num_frames (f h)) else 0)"
      "\<And>h. sh_elementType (f h) = STACK_TRACE \<Longrightarrow> sh_frames (f h) = Some (iq_input (stackQueue q))"
  defines "q' \<equiv> q\<lparr>stackQueue := snd (enqueue (stackSize sz) f (stackQueue q)),
    frame_buffer := (frame_buffer q)[iq_input (stackQueue q) := fb]\<rparr>"
  shows "frames_ok sz mf q'"
    and "stack_events sz q' = stack_events sz q @ [stack_event q' (f (iq_get (stackQueue q) (iq_input (stackQueue q))))]"
proof -
  let ?S = "stackSize sz" and ?sq = "stackQueue q"
  let ?u = "iq_used ?S ?sq"
  note I = cq_invD [OF inv]
  have i: "iq_input ?sq = slot sz q ?u" using iq_input_pos [OF I(3)] by (simp add: slot_def)
  have len: "length (frame_buffer q) = Capacity ?S" using I(4) by (simp add: frames_ok_def)
  have s: "slot sz q' k = slot sz q k" for k
    by (simp add: slot_def q'_def enqueue_cells [OF I(3) room])
  have g: "iq_get (stackQueue q') (slot sz q k) =
      (if k = ?u then f (iq_get ?sq (iq_input ?sq)) else iq_get ?sq (slot sz q k))" if "k < Capacity ?S" for k
    using that by (simp add: slot_def q'_def enqueue_cells [OF I(3) room])
  have b: "frame_buffer q' ! slot sz q k = (if k = ?u then fb else frame_buffer q ! slot sz q k)"
    if "k < Capacity ?S" for k
    using that slot_inj [of ?u sz k q] by (simp add: q'_def i nth_list_update_if len)
  have u: "iq_used ?S (stackQueue q') = Suc ?u"
    by (simp add: q'_def enqueue_room(3) [OF I(3) room])
  have c: "carries_trace sz q' k = (if k = ?u then sh_elementType (f (iq_get ?sq (iq_input ?sq))) = STACK_TRACE
      else carries_trace sz q k)" if "k < Capacity ?S" for k
    using that by (auto simp: carries_trace_def u s g)
  have l: "live sz q' k = (if k = ?u then live_new else live sz q k)" if "k < Capacity ?S" for k
    using that f(1) [of "iq_get ?sq (iq_input ?sq)"] by (simp add: live_def c s g)
  show "frames_ok sz mf q'"
    unfolding frames_ok_def using fb f(2) frames_okD [OF I(4)] len
    by (auto simp: s g b c l i) (simp add: q'_def)
  have old: "stack_event q' (iq_get ?sq (slot sz q k)) = stack_event q (iq_get ?sq (slot sz q k))" if "k < ?u" for k
  proof (rule stack_event_frames)
    assume "sh_elementType (iq_get ?sq (slot sz q k)) = STACK_TRACE"
    with that have "carries_trace sz q k" by (simp add: carries_trace_def)
    moreover have k: "k < Capacity ?S" using that used_less_Capacity less_trans by blast
    ultimately show "\<exists>b. sh_frames (iq_get ?sq (slot sz q k)) = Some b \<and> frame_buffer q' ! b = frame_buffer q ! b"
      using frames_okD(5) [OF I(4) k] b [OF k] that by simp
  qed
  have "stack_events sz q' = map (stack_event q') (iq_abs ?S ?sq @ [f (iq_get ?sq (iq_input ?sq))])"
    unfolding stack_events_def by (simp add: q'_def enqueue_room(4) [OF I(3) room])
  moreover have "map (stack_event q') (iq_abs ?S ?sq) = stack_events sz q"
    unfolding stack_events_def iq_abs_def using old by (simp add: slot_def)
  ultimately show "stack_events sz q' = stack_events sz q @ [stack_event q' (f (iq_get ?sq (iq_input ?sq)))]"
    by simp
qed


section \<open>Every operation keeps the invariant\<close>

lemma cq_other_rings [simp]:
  "frames_ok sz mf (q\<lparr>mainQueue := mq\<rparr>) = frames_ok sz mf q"
  "frames_ok sz mf (q\<lparr>allocationQueue := aq\<rparr>) = frames_ok sz mf q"
  "frames_ok sz mf (q\<lparr>metricFailures := n\<rparr>) = frames_ok sz mf q"
  "frames_ok sz mf (q\<lparr>allocationFailures := n\<rparr>) = frames_ok sz mf q"
  by (simp_all add: frames_ok_def slot_def live_def carries_trace_def)

lemma stack_events_cong:
  "stackQueue q' = stackQueue q \<Longrightarrow> frame_buffer q' = frame_buffer q \<Longrightarrow> stack_events sz q' = stack_events sz q"
  by (auto simp: stack_events_def stack_event_def stack_trace_of_def
      split: StackElementType.splits option.splits)

lemma enqueue_abs:
  assumes "iq_inv Size q"
  shows "iq_abs Size (snd (enqueue Size f q)) = take Size (iq_abs Size q @ [f (iq_get q (iq_input q))])"
  using iq_used_le [of Size q] enqueue_room(4) [OF assms, of f] enqueue_full [OF assms, of f]
  by (cases "iq_used Size q < Size") auto

lemma push_main_keeps:
  assumes "cq_inv sz mf q" "is_main_event e"
  shows "cq_inv sz mf (snd (push_main sz e q))"
    and "alloc_events sz (snd (push_main sz e q)) = alloc_events sz q"
    and "stack_events sz (snd (push_main sz e q)) = stack_events sz q"
    and "main_events sz (snd (push_main sz e q)) = take (mainSize sz) (main_events sz q @ [e])"
proof -
  note I = cq_invD [OF assms(1)]
  have m: "iq_inv (mainSize sz) (mainQueue (snd (push_main sz e q)))"
    by (rule mainq.enq_inv [OF I(1) assms(2)])
  then show "cq_inv sz mf (snd (push_main sz e q))"
    using I assms(2) by (cases e) (auto simp: cq_inv_def push_as_enqueue split: prod.splits)
  show "alloc_events sz (snd (push_main sz e q)) = alloc_events sz q"
    using assms(2) by (cases e) (auto simp: alloc_events_def push_as_enqueue split: prod.splits)
  show "stack_events sz (snd (push_main sz e q)) = stack_events sz q"
    using assms(2) by (intro stack_events_cong; cases e) (auto simp: push_as_enqueue split: prod.splits)
  show "main_events sz (snd (push_main sz e q)) = take (mainSize sz) (main_events sz q @ [e])"
    by (rule mainq.enq_abs [OF I(1) assms(2)])
qed

lemma pushAllocation_keeps:
  assumes "cq_inv sz mf q"
  shows "cq_inv sz mf (snd (pushAllocation sz b out s q))"
    and "main_events sz (snd (pushAllocation sz b out s q)) = main_events sz q"
    and "stack_events sz (snd (pushAllocation sz b out s q)) = stack_events sz q"
    and "alloc_events sz (snd (pushAllocation sz b out s q)) =
       take (allocSize sz) (alloc_events sz q @ [RecordAllocation b out s])"
proof -
  note I = cq_invD [OF assms]
  let ?f = "\<lambda>h. h\<lparr>allocationSize := b, outsideTlab := out, ah_symbol := s\<rparr>"
  show "cq_inv sz mf (snd (pushAllocation sz b out s q))"
    using I enqueue_inv [OF I(2), of ?f] by (auto simp: cq_inv_def push_as_enqueue split: prod.splits)
  show "main_events sz (snd (pushAllocation sz b out s q)) = main_events sz q"
    by (auto simp: main_events_def push_as_enqueue split: prod.splits)
  show "stack_events sz (snd (pushAllocation sz b out s q)) = stack_events sz q"
    by (rule stack_events_cong) (auto simp: push_as_enqueue split: prod.splits)
  show "alloc_events sz (snd (pushAllocation sz b out s q)) =
       take (allocSize sz) (alloc_events sz q @ [RecordAllocation b out s])"
    using enqueue_abs [OF I(2), of ?f]
    by (auto simp: alloc_events_def alloc_event_def push_as_enqueue take_map [symmetric] split: prod.splits)
qed

lemma length_events [simp]:
  "length (main_events sz q) = iq_used (mainSize sz) (mainQueue q)"
  "length (alloc_events sz q) = iq_used (allocSize sz) (allocationQueue q)"
  "length (stack_events sz q) = iq_used (stackSize sz) (stackQueue q)"
  by (simp_all add: main_events_def alloc_events_def stack_events_def)

lemma events_pos:
  "main_events sz q = e # es \<Longrightarrow> 0 < iq_used (mainSize sz) (mainQueue q)"
  "alloc_events sz q = e # es \<Longrightarrow> 0 < iq_used (allocSize sz) (allocationQueue q)"
  "stack_events sz q = e # es \<Longrightarrow> 0 < iq_used (stackSize sz) (stackQueue q)"
  by (metis length_events length_Cons zero_less_Suc)+

lemma stack_update_keeps:
  "cq_inv sz mf q \<Longrightarrow> iq_inv (stackSize sz) (stackQueue q') \<Longrightarrow> frames_ok sz mf q' \<Longrightarrow>
     mainQueue q' = mainQueue q \<Longrightarrow> allocationQueue q' = allocationQueue q \<Longrightarrow>
     cq_inv sz mf q' \<and> main_events sz q' = main_events sz q \<and> alloc_events sz q' = alloc_events sz q"
  by (simp add: cq_inv_def main_events_def alloc_events_def)

lemma pushThread_keeps:
  fixes name :: string and tid :: int
  assumes inv: "cq_inv sz mf q"
  defines "q' \<equiv> snd (pushThread sz name tid q)"
  shows "cq_inv sz mf q' \<and> main_events sz q' = main_events sz q \<and> alloc_events sz q' = alloc_events sz q"
    and "stack_events sz q' = take (stackSize sz) (stack_events sz q @ [RecordThread tid name])"
proof -
  let ?S = "stackSize sz" and ?sq = "stackQueue q"
  let ?f = "\<lambda>h. h\<lparr>sh_elementType := THREAD, sh_name := name, sh_threadId := tid\<rparr>"
  note I = cq_invD [OF inv]
  have "(cq_inv sz mf q' \<and> main_events sz q' = main_events sz q \<and> alloc_events sz q' = alloc_events sz q) \<and>
    stack_events sz q' = take ?S (stack_events sz q @ [RecordThread tid name])"
  proof (cases "iq_used ?S ?sq < ?S")
    case True
    let ?i = "iq_input ?sq"
    have len: "length (frame_buffer q) = Capacity ?S" using I(4) by (simp add: frames_ok_def)
    have i: "?i = slot sz q (iq_used ?S ?sq)" using iq_input_pos [OF I(3)] by (simp add: slot_def)
    have l0: "live sz q (iq_used ?S ?sq) = 0" by (simp add: live_def carries_trace_def)
    note F = frames_okD [OF I(4) used_less_Capacity [of ?S ?sq], folded i, unfolded l0]
    have q': "q' = q\<lparr>stackQueue := snd (enqueue ?S ?f ?sq), frame_buffer := (frame_buffer q)[?i := frame_buffer q ! ?i]\<rparr>"
      by (simp add: q'_def push_as_enqueue split: prod.split)
    have "frames_ok sz mf q' \<and> stack_events sz q' = stack_events sz q @ [stack_event q' (?f (iq_get ?sq ?i))]"
      unfolding q' using F frames_ok_enqueue [OF inv True, of "frame_buffer q ! ?i" 0 ?f] by simp
    moreover have "iq_inv ?S (stackQueue q')" using enqueue_inv [OF I(3)] by (simp add: q')
    ultimately show ?thesis
      using stack_update_keeps [OF inv, of q'] True by (simp add: q' stack_event_def)
  next
    case False
    with iq_used_le [of ?S ?sq] have full: "iq_used ?S ?sq = ?S" by simp
    then have "q' = q" using enqueue_full [OF I(3)] by (simp add: q'_def push_as_enqueue)
    with inv full show ?thesis by simp
  qed
  then show "cq_inv sz mf q' \<and> main_events sz q' = main_events sz q \<and> alloc_events sz q' = alloc_events sz q"
    "stack_events sz q' = take ?S (stack_events sz q @ [RecordThread tid name])" by auto
qed

definition trace_fits :: "nat \<Rightarrow> CallTrace \<Rightarrow> bool" where
  "trace_fits mf item \<longleftrightarrow> nat (num_frames item) \<le> mf \<and> nat (num_frames item) \<le> length (frames item)"

lemma pushStackTrace_keeps:
  assumes inv: "cq_inv sz mf q" and fits: "trace_fits mf item"
  obtains r q' where "pushStackTrace sz now item sig st tsc q = Inr (r, q')"
    and "r \<longleftrightarrow> length (stack_events sz q) < stackSize sz"
    and "cq_inv sz mf q' \<and> main_events sz q' = main_events sz q \<and> alloc_events sz q' = alloc_events sz q"
    and "stack_events sz q' = take (stackSize sz)
      (stack_events sz q @ [RecordStackTrace now (sent_trace mf item) sig st tsc])"
proof (cases "iq_used (stackSize sz) (stackQueue q) < stackSize sz")
  case True
  let ?S = "stackSize sz" and ?sq = "stackQueue q" and ?n = "nat (num_frames item)"
  let ?i = "iq_input ?sq"
  let ?f = "trace_holder ?i now item sig st tsc"
  let ?fb = "frames (sent_trace mf item)"
  let ?q' = "q\<lparr>stackQueue := snd (enqueue ?S ?f ?sq), frame_buffer := (frame_buffer q)[?i := ?fb]\<rparr>"
  note I = cq_invD [OF inv]
  have n: "?n \<le> mf" "?n \<le> length (frames item)" using fits by (auto simp: trace_fits_def)
  have p: "pushStackTrace sz now item sig st tsc q = Inr (True, ?q')"
    by (rule pushStackTrace_room [OF inv True n])
  have "?i < length (frame_buffer q)" using I(3,4) by (simp add: frames_ok_def iq_inv_def)
  then have e: "stack_event ?q' (?f (iq_get ?sq ?i)) = RecordStackTrace now (sent_trace mf item) sig st tsc"
    by (simp add: stack_event_def stack_trace_of_def trace_holder_def sent_trace_def)
  have "frames_ok sz mf ?q' \<and> stack_events sz ?q' = stack_events sz q @ [stack_event ?q' (?f (iq_get ?sq ?i))]"
    using n frames_ok_enqueue [OF inv True, of ?fb ?n ?f] by (simp add: sent_trace_def trace_holder_def)
  moreover have "iq_inv ?S (stackQueue ?q')" using enqueue_inv [OF I(3)] by simp
  ultimately show thesis
    using that [OF p] stack_update_keeps [OF inv, of ?q'] True e by simp
next
  case False
  with iq_used_le have full: "iq_used (stackSize sz) (stackQueue q) = stackSize sz" by (metis nat_less_le)
  show thesis using that [OF pushStackTrace_full [OF inv full]] inv full by simp
qed

lemma pushStackTrace_overflows:
  assumes inv: "cq_inv sz mf q" and room: "length (stack_events sz q) < stackSize sz"
    and fits: "\<not> trace_fits mf item"
  shows "pushStackTrace sz now item sig st tsc q = Inl BufferOverflow"
proof -
  note I = cq_invD [OF inv]
  let ?i = "iq_input (stackQueue q)"
  have i: "?i = slot sz q (iq_used (stackSize sz) (stackQueue q))" using iq_input_pos [OF I(3)] by (simp add: slot_def)
  have l: "length (frame_buffer q ! ?i) = mf" unfolding i by (rule frames_okD(2) [OF I(4)]) simp
  have acq: "acquireWrite (stackSize sz) (stackQueue q) =
      (Some ?i, (stackQueue q)\<lparr>iq_input := advance (stackSize sz) ?i\<rparr>)"
    using iq_full_iff [OF I(3)] room by (simp add: acquireWrite_def Let_def)
  have "copy_frames 0 (nat (num_frames item)) (frame_buffer q ! ?i) (frames item) = Inl BufferOverflow"
    using fits l by (simp add: copy_frames_eq trace_fits_def)
  with acq show ?thesis by (simp add: pushStackTrace_def cq_write_def)
qed

section \<open>What a listener may do to the queue\<close>

text \<open>
  The listeners of this program touch the queue only by pushing notifications (\<open>DebugLogger\<close> and
  \<open>LogWriter\<close> report errors that way). That is the contract \<open>pop\<close> relies on.
\<close>

definition push_notes ::
  "QueueSizes \<Rightarrow> (NotificationCategory \<times> string \<times> int) list \<Rightarrow> CircularQueue \<Rightarrow> CircularQueue" where
  "push_notes sz ns q = fold (\<lambda>(c, t, v) q. snd (pushNotification sz c t v q)) ns q"

lemma push_notes_simps [simp]:
  "push_notes sz [] q = q"
  "push_notes sz (n # ns) q = push_notes sz ns (snd (pushNotification sz (fst n) (fst (snd n)) (snd (snd n)) q))"
  by (simp_all add: push_notes_def split: prod.split)

lemma push_notes_keeps:
  "cq_inv sz mf q \<Longrightarrow> cq_inv sz mf (push_notes sz ns q) \<and>
     (\<exists>es. main_events sz (push_notes sz ns q) = main_events sz q @ es)"
proof (induction ns arbitrary: q)
  case Nil
  then show ?case by simp
next
  case (Cons n ns)
  let ?q = "snd (pushNotification sz (fst n) (fst (snd n)) (snd (snd n)) q)"
  have "cq_inv sz mf ?q" "\<exists>es. main_events sz ?q = main_events sz q @ es"
    using push_main_keeps(1,4) [OF Cons.prems, of "RecordNotification (fst n) (fst (snd n)) (snd (snd n))"]
      mainq.abs_bound [OF cq_invD(1) [OF Cons.prems]] by auto
  then show ?case using Cons.IH [of ?q] by auto
qed

lemma pushNotification_other [simp]:
  "stackQueue (snd (pushNotification sz c t v q)) = stackQueue q"
  "allocationQueue (snd (pushNotification sz c t v q)) = allocationQueue q"
  "frame_buffer (snd (pushNotification sz c t v q)) = frame_buffer q"
  by (auto simp: pushNotification_def split: prod.splits option.splits)

lemma push_notes_other [simp]:
  "stackQueue (push_notes sz ns q) = stackQueue q" "allocationQueue (push_notes sz ns q) = allocationQueue q"
  "frame_buffer (push_notes sz ns q) = frame_buffer q"
  by (induction ns arbitrary: q) simp_all

lemma push_notes_same:
  "alloc_events sz (push_notes sz ns q) = alloc_events sz q"
  "stack_events sz (push_notes sz ns q) = stack_events sz q"
  by (simp add: alloc_events_def) (rule stack_events_cong; simp)

lemma enqueue_output: "iq_output (snd (enqueue Size f q)) = iq_output q"
  by (simp add: enqueue_def acquireWrite_def Let_def commitWrite_def iq_set_def iq_flag_def)

lemma push_notes_output:
  "iq_output (mainQueue (push_notes sz ns q)) = iq_output (mainQueue q)"
proof (induction ns arbitrary: q)
  case (Cons n ns)
  have "iq_output (mainQueue (snd (pushNotification sz c t v q))) = iq_output (mainQueue q)" for c t v
    using enqueue_output [of "mainSize sz" "\<lambda>h. h\<lparr>elementType := NOTIFICATION, category := c,
        payload := t, holder_value := v\<rparr>" "mainQueue q"]
    by (auto simp: push_as_enqueue split: prod.splits)
  with Cons show ?case by simp
qed simp

lemma stack_release:
  assumes inv: "cq_inv sz mf q" and used: "0 < iq_used (stackSize sz) (stackQueue q)"
  defines "out \<equiv> iq_output (stackQueue q)"
  defines "h \<equiv> iq_get (stackQueue q) out"
  defines "fb \<equiv> (if sh_elementType h = STACK_TRACE then replicate mf zeroFrame else frame_buffer q ! out)"
  defines "q' \<equiv> q\<lparr>frame_buffer := (frame_buffer q)[out := fb],
    stackQueue := commitRead (stackSize sz) out (stackQueue q)\<rparr>"
  shows "sh_elementType h = STACK_TRACE \<Longrightarrow>
      clear_frames 0 (nat (sh_num_frames h)) (frame_buffer q ! out) = Inr (replicate mf zeroFrame)"
    and "cq_inv sz mf q' \<and> main_events sz q' = main_events sz q \<and> alloc_events sz q' = alloc_events sz q"
    and "stack_events sz q = stack_event q h # stack_events sz q'"
proof -
  let ?S = "stackSize sz" and ?sq = "stackQueue q"
  let ?u = "iq_used ?S ?sq"
  note I = cq_invD [OF inv]
  have out: "out = slot sz q 0" using I(3) by (simp add: out_def slot_def iq_pos_def iq_inv_def)
  have lb: "length (frame_buffer q) = Capacity ?S" using I(4) by (simp add: frames_ok_def)
  have C0: "0 < Capacity ?S" by simp
  note F = frames_okD [OF I(4) C0, folded out]
  have lv: "live sz q 0 = (if sh_elementType h = STACK_TRACE then nat (sh_num_frames h) else 0)"
    using used by (simp add: live_def carries_trace_def h_def out)
  show clear: "clear_frames 0 (nat (sh_num_frames h)) (frame_buffer q ! out) = Inr (replicate mf zeroFrame)"
    if "sh_elementType h = STACK_TRACE"
    using F lv that by (simp add: clear_frames_ok replicate_add [symmetric])
  have fb: "length fb = mf" "fb = replicate mf zeroFrame"
    using F lv by (auto simp: fb_def)
  obtain r where d: "dequeue ?S (\<lambda>x. x) ?sq = Some (h, r)" and r: "iq_inv ?S r" "iq_used ?S r = ?u - 1"
      "iq_abs ?S ?sq = h # iq_abs ?S r"
    using dequeue_some [OF I(3) used, of "\<lambda>x. x"] by (metis h_def out_def)
  have req: "stackQueue q' = r" using d release_as_dequeue_id [OF I(3) used] by (simp add: q'_def out_def)
  note rc = release_cells [OF I(3) used d]
  have s: "slot sz q' k = slot sz q (Suc k)" for k
    by (simp add: slot_def req rc)
  have wrap: "slot sz q (Suc k) = out" if "k = ?S" for k
    using that by (simp add: out slot_def iq_pos_def Capacity_def)
  have g: "iq_get (stackQueue q') (slot sz q (Suc k)) = iq_get ?sq (slot sz q (Suc k))" if "k < ?S" for k
    using that rc(2) [of "Suc k"] by (simp add: slot_def req Capacity_def)
  have b: "frame_buffer q' ! slot sz q (Suc k) = frame_buffer q ! slot sz q (Suc k)" if "k < ?S" for k
    using that slot_inj [of 0 sz "Suc k" q] by (simp add: q'_def out Capacity_def)
  have u1: "?u \<le> ?S" by (rule iq_used_le)
  have c: "carries_trace sz q' k = carries_trace sz q (Suc k)" if "k < ?S" for k
    using that r(2) used g [OF that] by (auto simp: carries_trace_def s req)
  have cS: "\<not> carries_trace sz q' ?S" using r(2) used u1 by (auto simp: carries_trace_def req)
  have ok: "length (frame_buffer q' ! slot sz q' k) = mf \<and> live sz q' k \<le> mf \<and>
        drop (live sz q' k) (frame_buffer q' ! slot sz q' k) = replicate (mf - live sz q' k) zeroFrame \<and>
        (carries_trace sz q' k \<longrightarrow> sh_frames (iq_get (stackQueue q') (slot sz q' k)) = Some (slot sz q' k))"
    if "k < Capacity ?S" for k
  proof (cases "k < ?S")
    case True
    then have k: "Suc k < Capacity ?S" by (simp add: Capacity_def)
    have "live sz q' k = live sz q (Suc k)" using True by (simp add: live_def c s g)
    then show ?thesis using True frames_okD [OF I(4) k] by (simp add: c s g b)
  next
    case False
    with that have k: "k = ?S" by (simp add: Capacity_def)
    have "frame_buffer q' ! slot sz q' ?S = fb"
      unfolding s wrap [OF refl] using lb by (simp add: q'_def out)
    then show ?thesis using cS fb by (simp add: k live_def)
  qed
  then have "frames_ok sz mf q'" using lb by (simp add: frames_ok_def q'_def)
  then show "cq_inv sz mf q' \<and> main_events sz q' = main_events sz q \<and> alloc_events sz q' = alloc_events sz q"
    using r(1) by (intro stack_update_keeps [OF inv]) (simp_all add: req, simp_all add: q'_def)
  have "stack_event q (iq_get ?sq (slot sz q (Suc k))) = stack_event q' (iq_get ?sq (slot sz q (Suc k)))"
    if "k < ?u - 1" for k
  proof (rule stack_event_frames)
    assume "sh_elementType (iq_get ?sq (slot sz q (Suc k))) = STACK_TRACE"
    with that have ct: "carries_trace sz q (Suc k)" by (simp add: carries_trace_def)
    have k: "k < ?S" "Suc k < Capacity ?S" using that u1 by (auto simp: Capacity_def)
    show "\<exists>b. sh_frames (iq_get ?sq (slot sz q (Suc k))) = Some b \<and> frame_buffer q ! b = frame_buffer q' ! b"
      using frames_okD(5) [OF I(4) k(2) ct] b [OF k(1)] by simp
  qed
  then have "map (stack_event q) (iq_abs ?S r) = stack_events sz q'"
    unfolding stack_events_def req iq_abs_def r(2)
    using g u1 by (auto simp: slot_def [symmetric] s [unfolded slot_def req, folded slot_def] req)
  then show "stack_events sz q = stack_event q h # stack_events sz q'"
    by (simp add: stack_events_def r(3))
qed

section \<open>Popping with a listener that keeps the contract\<close>

locale queue_listener =
  fixes sz :: QueueSizes and lst :: "'w listener"
  assumes only_notifies: "\<exists>ns. snd (lst e (w, q)) = push_notes sz ns q"
begin

lemma after_listener:
  assumes "cq_inv sz mf q"
  obtains w' ns where "lst e (w, q) = (w', push_notes sz ns q)"
    and "cq_inv sz mf (push_notes sz ns q)"
  using only_notifies [of e w q] push_notes_keeps [OF assms] by (metis prod.collapse)

lemma notes_append:
  assumes "cq_inv sz mf q" "lst e (w, q) = (w', push_notes sz ns q)"
  shows "\<exists>new. main_events sz (push_notes sz ns q) = main_events sz q @ new \<and>
    (snd (lst e (w, q)) = q \<longrightarrow> new = [])"
  using push_notes_keeps [OF assms(1), of ns] assms(2) by (metis append_self_conv snd_conv)

lemma pop_main_step:
  assumes inv: "cq_inv sz mf q"
  shows "main_events sz q = [] \<Longrightarrow> pop_main sz lst (w, q) = Inr (False, w, q)"
    and "main_events sz q = e # es \<Longrightarrow> \<exists>q' new. pop_main sz lst (w, q) = Inr (True, fst (lst e (w, q)), q') \<and>
       cq_inv sz mf q' \<and> main_events sz q' = es @ new \<and> (snd (lst e (w, q)) = q \<longrightarrow> new = []) \<and> alloc_events sz q' = alloc_events sz q \<and>
       stack_events sz q' = stack_events sz q"
proof -
  note I = cq_invD [OF inv]
  let ?M = "mainSize sz"
  show "main_events sz q = [] \<Longrightarrow> pop_main sz lst (w, q) = Inr (False, w, q)"
    using acquireRead_cases [OF I(1)] length_iq_abs [of ?M "mainQueue q"]
    by (simp add: pop_main_def main_events_def)
  assume me: "main_events sz q = e # es"
  then have u: "0 < iq_used ?M (mainQueue q)"
    by (rule events_pos)
  obtain w' ns where l: "lst e (w, q) = (w', push_notes sz ns q)"
      and inv1: "cq_inv sz mf (push_notes sz ns q)"
    using after_listener [OF inv] .
  let ?q1 = "push_notes sz ns q" and ?out = "iq_output (mainQueue q)"
  note I1 = cq_invD [OF inv1]
  obtain new where m1: "main_events sz ?q1 = e # es @ new" using push_notes_keeps [OF inv] me by fastforce
  have out: "iq_output (mainQueue ?q1) = ?out" by (rule push_notes_output)
  have he: "holder_event (iq_get (mainQueue q) ?out) = e"
  proof -
    obtain mq where "iq_abs ?M (mainQueue q) = iq_get (mainQueue q) ?out # iq_abs ?M mq"
      using dequeue_some [OF I(1) u] by metis
    with me show ?thesis by (simp add: main_events_def del: holder_event.simps)
  qed
  obtain q' where t: "take_main sz ?q1 = Some (e, q')" "iq_inv ?M (mainQueue q')" "main_events sz q' = es @ new"
    using mainq.deq_head [OF I1(1) m1] by blast
  have u1: "0 < iq_used ?M (mainQueue ?q1)"
    using m1 by (rule events_pos)
  have q': "q' = ?q1\<lparr>mainQueue := commitRead ?M ?out (mainQueue ?q1)\<rparr>"
    using t(1) take_main_dequeue [OF I1(1)] release_as_dequeue_id [OF I1(1) u1] out by simp
  have "pop_main sz lst (w, q) = Inr (True, fst (lst e (w, q)), q')"
    using acquireRead_cases [OF I(1)] u l by (simp add: pop_main_def he q' del: holder_event.simps)
  moreover have "cq_inv sz mf q'" using I1 t(2) by (simp add: cq_inv_def q')
  moreover have "alloc_events sz q' = alloc_events sz q" "stack_events sz q' = stack_events sz q"
    by (simp_all add: q' alloc_events_def) (rule stack_events_cong; simp)
  ultimately show "\<exists>q' new. pop_main sz lst (w, q) = Inr (True, fst (lst e (w, q)), q') \<and>
       cq_inv sz mf q' \<and> main_events sz q' = es @ new \<and> (snd (lst e (w, q)) = q \<longrightarrow> new = []) \<and> alloc_events sz q' = alloc_events sz q \<and>
       stack_events sz q' = stack_events sz q" using t(3) m1 me l by auto
qed

lemma pop_allocation_step:
  assumes inv: "cq_inv sz mf q"
  shows "alloc_events sz q = [] \<Longrightarrow> pop_allocation sz lst (w, q) = Inr (False, w, q)"
    and "alloc_events sz q = e # es \<Longrightarrow> \<exists>q' new. pop_allocation sz lst (w, q) = Inr (True, fst (lst e (w, q)), q') \<and>
       cq_inv sz mf q' \<and> main_events sz q' = main_events sz q @ new \<and> (snd (lst e (w, q)) = q \<longrightarrow> new = []) \<and> alloc_events sz q' = es \<and>
       stack_events sz q' = stack_events sz q"
proof -
  note I = cq_invD [OF inv]
  let ?A = "allocSize sz" and ?aq = "allocationQueue q"
  show "alloc_events sz q = [] \<Longrightarrow> pop_allocation sz lst (w, q) = Inr (False, w, q)"
    using acquireRead_cases [OF I(2)] length_iq_abs [of ?A ?aq]
    by (simp add: pop_allocation_def alloc_events_def)
  assume ae: "alloc_events sz q = e # es"
  then have u: "0 < iq_used ?A ?aq"
    by (rule events_pos)
  obtain w' ns where l: "lst e (w, q) = (w', push_notes sz ns q)"
      and inv1: "cq_inv sz mf (push_notes sz ns q)"
    using after_listener [OF inv] .
  let ?q1 = "push_notes sz ns q" and ?out = "iq_output ?aq" and ?g = "\<lambda>h. h\<lparr>ah_symbol := None\<rparr>"
  obtain aq where d: "dequeue ?A ?g ?aq = Some (iq_get ?aq ?out, aq)" "iq_inv ?A aq"
      "iq_abs ?A ?aq = iq_get ?aq ?out # iq_abs ?A aq"
    using dequeue_some [OF I(2) u] by metis
  have e: "alloc_event (iq_get ?aq ?out) = e" "map alloc_event (iq_abs ?A aq) = es"
    using ae d(3) by (simp_all add: alloc_events_def)
  let ?q' = "?q1\<lparr>allocationQueue := aq\<rparr>"
  have aq: "commitRead ?A ?out (iq_set ?out ?g ?aq) = aq" using d(1) release_as_dequeue [OF I(2) u, of ?g] by simp
  have "pop_allocation sz lst (w, q) = Inr (True, fst (lst e (w, q)), ?q')"
    using acquireRead_cases [OF I(2)] u l e(1) aq by (simp add: pop_allocation_def alloc_event_def)
  moreover have "cq_inv sz mf ?q'" using cq_invD [OF inv1] d(2) by (simp add: cq_inv_def)
  moreover obtain new where "main_events sz ?q' = main_events sz q @ new \<and> (snd (lst e (w, q)) = q \<longrightarrow> new = [])"
    using notes_append [OF inv l] by (auto simp: main_events_def)
  moreover have "alloc_events sz ?q' = es" "stack_events sz ?q' = stack_events sz q"
    by (simp_all add: alloc_events_def e) (rule stack_events_cong; simp)
  ultimately show "\<exists>q' new. pop_allocation sz lst (w, q) = Inr (True, fst (lst e (w, q)), q') \<and>
       cq_inv sz mf q' \<and> main_events sz q' = main_events sz q @ new \<and> (snd (lst e (w, q)) = q \<longrightarrow> new = []) \<and> alloc_events sz q' = es \<and>
       stack_events sz q' = stack_events sz q" by blast
qed

lemma pop_stack_step:
  assumes inv: "cq_inv sz mf q"
  shows "stack_events sz q = [] \<Longrightarrow> pop_stack sz lst (w, q) = Inr (False, w, q)"
    and "stack_events sz q = e # es \<Longrightarrow> \<exists>q' new. pop_stack sz lst (w, q) = Inr (True, fst (lst e (w, q)), q') \<and>
       cq_inv sz mf q' \<and> main_events sz q' = main_events sz q @ new \<and> (snd (lst e (w, q)) = q \<longrightarrow> new = []) \<and> alloc_events sz q' = alloc_events sz q \<and>
       stack_events sz q' = es"
proof -
  note I = cq_invD [OF inv]
  let ?S = "stackSize sz" and ?sq = "stackQueue q"
  show "stack_events sz q = [] \<Longrightarrow> pop_stack sz lst (w, q) = Inr (False, w, q)"
    using acquireRead_cases [OF I(3)] length_iq_abs [of ?S ?sq]
    by (simp add: pop_stack_def stack_events_def)
  assume se: "stack_events sz q = e # es"
  then have u: "0 < iq_used ?S ?sq"
    by (rule events_pos)
  obtain w' ns where l: "lst e (w, q) = (w', push_notes sz ns q)"
      and inv1: "cq_inv sz mf (push_notes sz ns q)"
    using after_listener [OF inv] .
  let ?q1 = "push_notes sz ns q" and ?out = "iq_output ?sq"
  let ?h = "iq_get ?sq ?out"
  let ?fb = "if sh_elementType ?h = STACK_TRACE then replicate mf zeroFrame else frame_buffer q ! ?out"
  let ?q' = "?q1\<lparr>frame_buffer := (frame_buffer q)[?out := ?fb], stackQueue := commitRead ?S ?out ?sq\<rparr>"
  have u1: "0 < iq_used ?S (stackQueue ?q1)" using u by simp
  note R0 = stack_release [OF inv u]
  note R = stack_release [OF inv1 u1, unfolded push_notes_other push_notes_same]
  have h: "stack_event q ?h = e" using R0(3) se by simp
  have s1: "stack_event ?q1 ?h = stack_event q ?h"
    by (simp add: stack_event_def stack_trace_of_def cong: option.case_cong StackElementType.case_cong)
  have es: "stack_events sz ?q' = es" using R(3) se h s1 by simp
  have "pop_stack sz lst (w, q) = Inr (True, fst (lst e (w, q)), ?q')"
    using acquireRead_cases [OF I(3)] u l h R0(1)
    by (cases "sh_elementType ?h") (simp_all add: pop_stack_def)
  moreover obtain new where "main_events sz ?q' = main_events sz q @ new \<and> (snd (lst e (w, q)) = q \<longrightarrow> new = [])"
    using notes_append [OF inv l] by (auto simp: main_events_def)
  moreover have "cq_inv sz mf ?q' \<and> alloc_events sz ?q' = alloc_events sz q" using R(2) by simp
  ultimately show "\<exists>q' new. pop_stack sz lst (w, q) = Inr (True, fst (lst e (w, q)), q') \<and>
       cq_inv sz mf q' \<and> main_events sz q' = main_events sz q @ new \<and> (snd (lst e (w, q)) = q \<longrightarrow> new = []) \<and> alloc_events sz q' = alloc_events sz q \<and>
       stack_events sz q' = es" using es by blast
qed

text \<open>
  A whole \<open>pop\<close>: never a fault, the listener is told the head of each ring in turn, what it pushes
  meanwhile is only ever added behind.
\<close>

lemma pop_keeps:
  assumes inv: "cq_inv sz mf q"
  obtains r w' q' where "pop sz lst (w, q) = Inr (r, w', q')" "cq_inv sz mf q'"
    and "alloc_events sz q' = tl (alloc_events sz q)" "stack_events sz q' = tl (stack_events sz q)"
    and "\<exists>new. main_events sz q' = tl (main_events sz q) @ new"
    and "r \<longleftrightarrow> main_events sz q \<noteq> [] \<or> alloc_events sz q \<noteq> [] \<or> stack_events sz q \<noteq> []"
proof -
  obtain r1 w1 q1 where 1: "pop_main sz lst (w, q) = Inr (r1, w1, q1)" "cq_inv sz mf q1"
      "\<exists>new. main_events sz q1 = tl (main_events sz q) @ new" "alloc_events sz q1 = alloc_events sz q"
      "stack_events sz q1 = stack_events sz q" "r1 \<longleftrightarrow> main_events sz q \<noteq> []"
    using pop_main_step [OF inv] inv by (cases "main_events sz q") (fastforce | force)+
  obtain r2 w2 q2 where 2: "pop_allocation sz lst (w1, q1) = Inr (r2, w2, q2)" "cq_inv sz mf q2"
      "\<exists>new. main_events sz q2 = main_events sz q1 @ new" "alloc_events sz q2 = tl (alloc_events sz q1)"
      "stack_events sz q2 = stack_events sz q1" "r2 \<longleftrightarrow> alloc_events sz q1 \<noteq> []"
    using pop_allocation_step [OF 1(2)] 1(2) by (cases "alloc_events sz q1") (fastforce | force)+
  obtain r3 w3 q3 where 3: "pop_stack sz lst (w2, q2) = Inr (r3, w3, q3)" "cq_inv sz mf q3"
      "\<exists>new. main_events sz q3 = main_events sz q2 @ new" "alloc_events sz q3 = alloc_events sz q2"
      "stack_events sz q3 = tl (stack_events sz q2)" "r3 \<longleftrightarrow> stack_events sz q2 \<noteq> []"
    using pop_stack_step [OF 2(2)] 2(2) by (cases "stack_events sz q2") (fastforce | force)+
  show thesis
    using that [of "r1 \<or> r2 \<or> r3" w3 q3] 1 2 3 by (auto simp: pop_def)
qed

end

interpretation recorder: queue_listener sz recorder for sz
proof
  show "\<exists>ns. snd (recorder e (w, q)) = push_notes sz ns q" for e w q
    by (rule exI [of _ "[]"]) (simp add: recorder_def)
qed

section \<open>Refinement of three bounded queues\<close>

text \<open>What the queue promises, without rings, commit flags or frame buffers.\<close>

record QueueSpec =
  spec_main :: "QueueEvent list"
  spec_alloc :: "QueueEvent list"
  spec_stack :: "QueueEvent list"
  spec_delivered :: "QueueEvent list"

datatype queue_op =
    OpStackTrace timespec CallTrace int int u64
  | OpThread string int
  | OpAllocation u64 bool "u64 option"
  | OpNotification NotificationCategory string int
  | OpMetricInformation MetricInformation
  | OpMetricSamples "MetricSample list" int
  | OpConstantMetricsComplete
  | OpPop

fun queue_op_fits :: "nat \<Rightarrow> queue_op \<Rightarrow> bool" where
  "queue_op_fits mf (OpStackTrace _ item _ _ _) = trace_fits mf item"
| "queue_op_fits mf _ = True"

fun spec_op :: "QueueSizes \<Rightarrow> nat \<Rightarrow> queue_op \<Rightarrow> QueueSpec \<Rightarrow> QueueSpec" where
  "spec_op sz mf (OpStackTrace now item sig st tsc) s =
     s\<lparr>spec_stack := take (stackSize sz) (spec_stack s @ [RecordStackTrace now (sent_trace mf item) sig st tsc])\<rparr>"
| "spec_op sz mf (OpThread name tid) s =
     s\<lparr>spec_stack := take (stackSize sz) (spec_stack s @ [RecordThread tid name])\<rparr>"
| "spec_op sz mf (OpAllocation b out symb) s =
     s\<lparr>spec_alloc := take (allocSize sz) (spec_alloc s @ [RecordAllocation b out symb])\<rparr>"
| "spec_op sz mf (OpNotification c t v) s =
     s\<lparr>spec_main := take (mainSize sz) (spec_main s @ [RecordNotification c t v])\<rparr>"
| "spec_op sz mf (OpMetricInformation i) s =
     s\<lparr>spec_main := take (mainSize sz) (spec_main s @ [RecordMetricInformation i])\<rparr>"
| "spec_op sz mf (OpMetricSamples xs ms) s =
     s\<lparr>spec_main := take (mainSize sz) (spec_main s @ [RecordMetricSamples ms xs])\<rparr>"
| "spec_op sz mf OpConstantMetricsComplete s =
     s\<lparr>spec_main := take (mainSize sz) (spec_main s @ [RecordConstantMetricsComplete])\<rparr>"
| "spec_op sz mf OpPop s =
     s\<lparr>spec_delivered := spec_delivered s @ take 1 (spec_main s) @ take 1 (spec_alloc s) @ take 1 (spec_stack s),
       spec_main := tl (spec_main s), spec_alloc := tl (spec_alloc s), spec_stack := tl (spec_stack s)\<rparr>"

fun queue_op_step :: "QueueSizes \<Rightarrow> queue_op \<Rightarrow> QueueEvent list \<times> CircularQueue
    \<Rightarrow> queue_fault + QueueEvent list \<times> CircularQueue" where
  "queue_op_step sz (OpStackTrace now item sig st tsc) (w, q) =
     map_sum id (\<lambda>(_, q). (w, q)) (pushStackTrace sz now item sig st tsc q)"
| "queue_op_step sz (OpThread name tid) (w, q) = Inr (w, snd (pushThread sz name tid q))"
| "queue_op_step sz (OpAllocation b out symb) (w, q) = Inr (w, snd (pushAllocation sz b out symb q))"
| "queue_op_step sz (OpNotification c t v) (w, q) = Inr (w, snd (pushNotification sz c t v q))"
| "queue_op_step sz (OpMetricInformation i) (w, q) = Inr (w, snd (pushMetricInformation sz i q))"
| "queue_op_step sz (OpMetricSamples xs ms) (w, q) = Inr (w, snd (pushMetricSamples sz xs ms q))"
| "queue_op_step sz OpConstantMetricsComplete (w, q) = Inr (w, snd (pushConstantMetricsComplete sz q))"
| "queue_op_step sz OpPop (w, q) = map_sum id snd (pop sz recorder (w, q))"

fun queue_run :: "QueueSizes \<Rightarrow> queue_op list \<Rightarrow> QueueEvent list \<times> CircularQueue
    \<Rightarrow> queue_fault + QueueEvent list \<times> CircularQueue" where
  "queue_run sz [] wq = Inr wq"
| "queue_run sz (c # cs) wq = (case queue_op_step sz c wq of Inl e \<Rightarrow> Inl e | Inr wq' \<Rightarrow> queue_run sz cs wq')"

definition queue_spec :: "QueueSizes \<Rightarrow> QueueEvent list \<times> CircularQueue \<Rightarrow> QueueSpec" where
  "queue_spec sz wq = \<lparr>spec_main = main_events sz (snd wq), spec_alloc = alloc_events sz (snd wq),
     spec_stack = stack_events sz (snd wq), spec_delivered = fst wq\<rparr>"

lemma pop_recorder:
  assumes inv: "cq_inv sz mf q"
  obtains r q' where "pop sz recorder (w, q) =
      Inr (r, w @ take 1 (main_events sz q) @ take 1 (alloc_events sz q) @ take 1 (stack_events sz q), q')"
    and "cq_inv sz mf q'" "alloc_events sz q' = tl (alloc_events sz q)"
    and "stack_events sz q' = tl (stack_events sz q)" "main_events sz q' = tl (main_events sz q)"
proof -
  have rec [simp]: "fst (recorder e (w, q)) = w @ [e]" "snd (recorder e (w, q)) = q" for e w q
    by (simp_all add: recorder_def)
  obtain r1 q1 where 1: "pop_main sz recorder (w, q) = Inr (r1, w @ take 1 (main_events sz q), q1)"
      "cq_inv sz mf q1" "main_events sz q1 = tl (main_events sz q)" "alloc_events sz q1 = alloc_events sz q"
      "stack_events sz q1 = stack_events sz q"
    using recorder.pop_main_step [OF inv, where w = w] inv by (cases "main_events sz q") (fastforce | force)+
  let ?w1 = "w @ take 1 (main_events sz q)"
  obtain r2 q2 where 2: "pop_allocation sz recorder (?w1, q1) = Inr (r2, ?w1 @ take 1 (alloc_events sz q1), q2)"
      "cq_inv sz mf q2" "main_events sz q2 = main_events sz q1" "alloc_events sz q2 = tl (alloc_events sz q1)"
      "stack_events sz q2 = stack_events sz q1"
    using recorder.pop_allocation_step [OF 1(2), where w = ?w1] 1(2) by (cases "alloc_events sz q1") (fastforce | force)+
  let ?w2 = "?w1 @ take 1 (alloc_events sz q1)"
  obtain r3 q3 where 3: "pop_stack sz recorder (?w2, q2) = Inr (r3, ?w2 @ take 1 (stack_events sz q2), q3)"
      "cq_inv sz mf q3" "main_events sz q3 = main_events sz q2" "alloc_events sz q3 = alloc_events sz q2"
      "stack_events sz q3 = tl (stack_events sz q2)"
    using recorder.pop_stack_step [OF 2(2), where w = ?w2] 2(2) by (cases "stack_events sz q2") (fastforce | force)+
  show thesis
    using that [of "r1 \<or> r2 \<or> r3" q3] 1 2 3 by (auto simp: pop_def)
qed

lemma queue_op_refines:
  assumes inv: "cq_inv sz mf (snd wq)" and fits: "queue_op_fits mf c"
  obtains wq' where "queue_op_step sz c wq = Inr wq'" "cq_inv sz mf (snd wq')"
    "queue_spec sz wq' = spec_op sz mf c (queue_spec sz wq)"
proof -
  obtain w q where wq: "wq = (w, q)" by (cases wq)
  with inv have inv: "cq_inv sz mf q" by simp
  note m = push_main_keeps [OF inv]
  show thesis
  proof (cases c)
    case (OpStackTrace now item sig st tsc)
    with fits have f: "trace_fits mf item" by simp
    show thesis
    proof (rule pushStackTrace_keeps [OF inv f, of now sig st tsc])
      fix r q' assume "pushStackTrace sz now item sig st tsc q = Inr (r, q')"
        "cq_inv sz mf q' \<and> main_events sz q' = main_events sz q \<and> alloc_events sz q' = alloc_events sz q"
        "stack_events sz q' = take (stackSize sz)
           (stack_events sz q @ [RecordStackTrace now (sent_trace mf item) sig st tsc])"
      then show thesis using that [of "(w, q')"] by (simp add: OpStackTrace wq queue_spec_def)
    qed
  next
    case (OpThread name tid)
    show thesis
      by (rule that) (use pushThread_keeps [OF inv, of name tid] in \<open>auto simp: OpThread wq queue_spec_def\<close>)
  next
    case (OpAllocation b out symb)
    show thesis
      by (rule that) (use pushAllocation_keeps [OF inv, of b out symb] in \<open>auto simp: OpAllocation wq queue_spec_def\<close>)
  next
    case (OpNotification c t v)
    show thesis
      by (rule that) (use m [of "RecordNotification c t v"] in \<open>auto simp: OpNotification wq queue_spec_def\<close>)
  next
    case (OpMetricInformation i)
    show thesis
      by (rule that) (use m [of "RecordMetricInformation i"] in \<open>auto simp: OpMetricInformation wq queue_spec_def\<close>)
  next
    case (OpMetricSamples xs ms)
    show thesis
      by (rule that) (use m [of "RecordMetricSamples ms xs"] in \<open>auto simp: OpMetricSamples wq queue_spec_def\<close>)
  next
    case OpConstantMetricsComplete
    show thesis
      by (rule that) (use m [of RecordConstantMetricsComplete] in \<open>auto simp: OpConstantMetricsComplete wq queue_spec_def\<close>)
  next
    case OpPop
    let ?out = "w @ take 1 (main_events sz q) @ take 1 (alloc_events sz q) @ take 1 (stack_events sz q)"
    show thesis
    proof (rule pop_recorder [OF inv, of w])
      fix r q' assume "pop sz recorder (w, q) = Inr (r, ?out, q')" "cq_inv sz mf q'"
        "alloc_events sz q' = tl (alloc_events sz q)" "stack_events sz q' = tl (stack_events sz q)"
        "main_events sz q' = tl (main_events sz q)"
      then show thesis using that [of "(?out, q')"] by (simp add: OpPop wq queue_spec_def)
    qed
  qed
qed

lemma queue_run_refines:
  assumes "cq_inv sz mf (snd wq)" "list_all (queue_op_fits mf) cs"
  shows "\<exists>wq'. queue_run sz cs wq = Inr wq' \<and> cq_inv sz mf (snd wq') \<and>
     queue_spec sz wq' = fold (spec_op sz mf) cs (queue_spec sz wq)"
  using assms
proof (induction cs arbitrary: wq)
  case (Cons c cs)
  obtain wq' where "queue_op_step sz c wq = Inr wq'" "cq_inv sz mf (snd wq')"
      "queue_spec sz wq' = spec_op sz mf c (queue_spec sz wq)"
    using queue_op_refines [OF Cons.prems(1), of c] Cons.prems(2) by auto
  with Cons.IH [of wq'] Cons.prems(2) show ?case by auto
qed simp

text \<open>C5: Whatever sequence of pushes and pops a freshly built queue goes through, as long as every
  stack trace fits the frame buffers, no operation faults and the three rings, their commit flags and
  the shared frame buffers behave as three bounded queues: a push appends or, when the ring is full, is
  dropped; a pop delivers the head of the main, the allocation and the stack ring in that order, a
  trace with exactly the frames that were pushed and zeros after them.\<close>

theorem circular_queue_refines_bounded_queues:
  assumes "newCircularQueue sz maxFrameSize = Inr q" "list_all (queue_op_fits (nat maxFrameSize)) ops"
  shows "\<exists>es q'. queue_run sz ops ([], q) = Inr (es, q') \<and>
     queue_spec sz (es, q') = fold (spec_op sz (nat maxFrameSize)) ops
       \<lparr>spec_main = [], spec_alloc = [], spec_stack = [], spec_delivered = []\<rparr>"
  using queue_run_refines [of sz "nat maxFrameSize" "([], q)" ops] newCircularQueue_inv [OF assms(1)] assms(2)
  by (auto simp: queue_spec_def)

definition demo_sizes :: QueueSizes where "demo_sizes = \<lparr>mainSize = 2, allocSize = 1, stackSize = 1\<rparr>"

definition demo_trace :: CallTrace where
  "demo_trace = \<lparr>num_frames = 1, ct_threadId = 7, frames = [\<lparr>isForeign = True, frame = 42\<rparr>, zeroFrame]\<rparr>"

definition demo_time :: timespec where "demo_time = \<lparr>tv_sec = 5, tv_nsec = 6\<rparr>"

definition demo_ops :: "queue_op list" where
  "demo_ops = [OpThread ''t'' 3, OpPop, OpStackTrace demo_time demo_trace 27 0 99, OpThread ''u'' 4,
     OpConstantMetricsComplete, OpPop]"

lemma circular_queue_refines_bounded_queues_witness:
  "\<exists>q es q'. newCircularQueue demo_sizes 2 = Inr q \<and> queue_run demo_sizes demo_ops ([], q) = Inr (es, q') \<and>
     es = [RecordThread 3 ''t'', RecordConstantMetricsComplete,
       RecordStackTrace demo_time (sent_trace 2 demo_trace) 27 0 99]"
proof -
  obtain q where q: "newCircularQueue demo_sizes 2 = Inr q" by (simp add: newCircularQueue_def)
  have "list_all (queue_op_fits (nat 2)) demo_ops"
    by (simp add: demo_ops_def trace_fits_def demo_trace_def)
  from circular_queue_refines_bounded_queues [OF q this] q show ?thesis
    by (auto simp: queue_spec_def demo_ops_def demo_sizes_def)
qed

text \<open>C34: The copy into a slot's frame buffer is not bounded by its length: with room in the stack ring,
  a trace of more frames than the queue was built for is written outside the buffer, while one that fits is
  always accepted.\<close>

theorem pushStackTrace_overflow_iff:
  assumes "cq_inv sz maxFrames q" "length (stack_events sz q) < stackSize sz"
    and "nat (num_frames item) \<le> length (frames item)"
  shows "(pushStackTrace sz now item sig st tsc q = Inl BufferOverflow \<longleftrightarrow> nat (num_frames item) > maxFrames) \<and>
     (nat (num_frames item) \<le> maxFrames \<longrightarrow> (\<exists>q'. pushStackTrace sz now item sig st tsc q = Inr (True, q') \<and>
        stack_events sz q' = stack_events sz q @ [RecordStackTrace now (sent_trace maxFrames item) sig st tsc]))"
proof (cases "trace_fits maxFrames item")
  case True
  obtain r q' where "pushStackTrace sz now item sig st tsc q = Inr (r, q')"
      "r \<longleftrightarrow> length (stack_events sz q) < stackSize sz"
      "stack_events sz q' = take (stackSize sz)
        (stack_events sz q @ [RecordStackTrace now (sent_trace maxFrames item) sig st tsc])"
    using pushStackTrace_keeps [OF assms(1) True, of now sig st tsc] by metis
  with True assms(2) show ?thesis by (simp add: trace_fits_def)
next
  case False
  with pushStackTrace_overflows [OF assms(1,2) False] assms(3) show ?thesis by (simp add: trace_fits_def)
qed

lemma pushStackTrace_overflow_iff_witness:
  "\<exists>q. newCircularQueue queueSizes 1 = Inr q \<and>
     pushStackTrace queueSizes demo_time (demo_trace\<lparr>num_frames := 2\<rparr>) 27 0 99 q = Inl BufferOverflow"
proof -
  obtain q where q: "newCircularQueue queueSizes 1 = Inr q" by (simp add: newCircularQueue_def)
  note I = newCircularQueue_inv [OF q]
  have "length (stack_events queueSizes q) < stackSize queueSizes"
    unfolding I(4) by (simp add: queueSizes_def StackQueueSize_def)
  from pushStackTrace_overflow_iff [OF I(1) this, of "demo_trace\<lparr>num_frames := 2\<rparr>"] q show ?thesis
    by (simp add: demo_trace_def)
qed

end
