(* ===== verification/Concurrent_Map.thy ===== *)
theory Concurrent_Map
  imports Prelude
begin

text \<open>
  \<^verbatim>\<open>src/lib/concurrent_map.h\<close>: the MurmurHash3 finalisers and their inverses, and the linear-probing
  table with \<open>assign\<close>, \<open>get\<close> and a compacting \<open>erase\<close>. One thread is modelled, so the second probe of
  \<open>get\<close> and the compare-exchange of \<open>assign\<close> always succeed. The key traits are the argument \<open>hash\<close>;
  keys and values are 64-bit words, null is 0.
\<close>

section \<open>Hash functions\<close>

definition avalanche32 :: "u32 \<Rightarrow> u32" where
  "avalanche32 h =
     (let h = h XOR drop_bit 16 h; h = h * 0x85ebca6b; h = h XOR drop_bit 13 h; h = h * 0xc2b2ae35
      in h XOR drop_bit 16 h)"

definition deavalanche32 :: "u32 \<Rightarrow> u32" where
  "deavalanche32 h =
     (let h = h XOR drop_bit 16 h; h = h * 0x7ed1b41d; h = h XOR drop_bit 13 (h XOR drop_bit 13 h);
          h = h * 0xa5cb9243
      in h XOR drop_bit 16 h)"

definition avalanche :: "u64 \<Rightarrow> u64" where
  "avalanche h =
     (let h = h XOR drop_bit 33 h; h = h * 0xff51afd7ed558ccd; h = h XOR drop_bit 33 h;
          h = h * 0xc4ceb9fe1a85ec53
      in h XOR drop_bit 33 h)"

definition deavalanche :: "u64 \<Rightarrow> u64" where
  "deavalanche h =
     (let h = h XOR drop_bit 33 h; h = h * 0x9cb4b2f8129337db; h = h XOR drop_bit 33 h;
          h = h * 0x4f74430c22a54005
      in h XOR drop_bit 33 h)"

definition isPowerOf2 :: "u64 \<Rightarrow> bool" where
  "isPowerOf2 v \<longleftrightarrow> v AND (v - 1) = 0"

lemma xorshift_twice64: "(h XOR drop_bit 33 h) XOR drop_bit 33 (h XOR drop_bit 33 h) = (h :: u64)"
  by (rule bit_word_eqI) (auto simp: bit_xor_iff bit_drop_bit_eq dest: bit_imp_le_length)

lemma xorshift_twice32: "(h XOR drop_bit 16 h) XOR drop_bit 16 (h XOR drop_bit 16 h) = (h :: u32)"
  by (rule bit_word_eqI) (auto simp: bit_xor_iff bit_drop_bit_eq dest: bit_imp_le_length)

lemma xorshift13:
  fixes h :: u32 defines "g \<equiv> h XOR drop_bit 13 h"
  shows "g XOR drop_bit 13 (g XOR drop_bit 13 g) = h"
    and "(let g = h XOR drop_bit 13 (h XOR drop_bit 13 h) in g XOR drop_bit 13 g) = h"
  unfolding g_def Let_def
  by (rule bit_word_eqI, auto simp: bit_xor_iff bit_drop_bit_eq dest: bit_imp_le_length)+

lemma multiplier_inverses:
  "(0xff51afd7ed558ccd :: u64) * 0x4f74430c22a54005 = 1" "(0xc4ceb9fe1a85ec53 :: u64) * 0x9cb4b2f8129337db = 1"
  "(0x85ebca6b :: u32) * 0xa5cb9243 = 1" "(0xc2b2ae35 :: u32) * 0x7ed1b41d = 1"
  by (simp_all add: word_uint_eq_iff)

lemma finaliser_inverses:
  "(h :: u64) * 0xff51afd7ed558ccd * 0x4f74430c22a54005 = h" "(h :: u64) * 0x4f74430c22a54005 * 0xff51afd7ed558ccd = h"
  "h * 0xc4ceb9fe1a85ec53 * 0x9cb4b2f8129337db = h" "h * 0x9cb4b2f8129337db * 0xc4ceb9fe1a85ec53 = h"
  "(k :: u32) * 0x85ebca6b * 0xa5cb9243 = k" "(k :: u32) * 0xa5cb9243 * 0x85ebca6b = k"
  "k * 0xc2b2ae35 * 0x7ed1b41d = k" "k * 0x7ed1b41d * 0xc2b2ae35 = k"
  by (simp_all only: mult.assoc multiplier_inverses multiplier_inverses [THEN trans [OF mult.commute]] mult_1_right)

lemmas hash_inverses = finaliser_inverses xorshift_twice64 xorshift_twice32 xorshift13 [unfolded Let_def]

text \<open>\<open>deavalanche\<close> undoes \<open>avalanche\<close> and the other way round, at both widths: the hash is a bijection,
  so distinct keys have distinct full hashes and \<open>dehash\<close> recovers the key.\<close>

lemma avalanche_bijective:
  "deavalanche (avalanche h) = h \<and> avalanche (deavalanche h) = h \<and>
   deavalanche32 (avalanche32 k) = k \<and> avalanche32 (deavalanche32 k) = k"
  unfolding avalanche_def deavalanche_def avalanche32_def deavalanche32_def Let_def
  by (simp only: hash_inverses simp_thms)

section \<open>The table\<close>

record Cell =
  cell_key :: u64
  cell_value :: u64

record ConcurrentMap =
  cm_size :: u64
  maxLoad :: u64
  m_cells :: "Cell list"
  m_sizeMask :: u64

definition nullCell :: Cell where "nullCell = \<lparr>cell_key = 0, cell_value = 0\<rparr>"

text \<open>A pointer \<open>m_cells + idx\<close> and the stores through it.\<close>

definition cm_cell :: "ConcurrentMap \<Rightarrow> u64 \<Rightarrow> Cell" where
  "cm_cell m idx = m_cells m ! unat idx"

definition cm_store :: "u64 \<Rightarrow> Cell \<Rightarrow> ConcurrentMap \<Rightarrow> ConcurrentMap" where
  "cm_store idx c m = m\<lparr>m_cells := (m_cells m)[unat idx := c]\<rparr>"

definition nullOutCell :: "u64 \<Rightarrow> ConcurrentMap \<Rightarrow> ConcurrentMap" where
  "nullOutCell idx m = cm_store idx nullCell m"

fun clear_from :: "nat \<Rightarrow> nat \<Rightarrow> ConcurrentMap \<Rightarrow> ConcurrentMap" where
  "clear_from idx 0 m = m"
| "clear_from idx (Suc n) m = clear_from (Suc idx) n (cm_store (of_nat idx) nullCell m)"

definition cm_clear :: "ConcurrentMap \<Rightarrow> ConcurrentMap" where
  "cm_clear m = (clear_from 0 (unat (m_sizeMask m) + 1) m)\<lparr>cm_size := 0\<rparr>"

text \<open>
  The cells of \<open>new Cell[capacity]\<close> are uninitialised until \<open>clear\<close> has run; \<open>fresh\<close> is what they
  hold. The two assertions only log.
\<close>

definition newConcurrentMap :: "Cell list \<Rightarrow> u64 \<Rightarrow> u64 \<Rightarrow> ConcurrentMap" where
  "newConcurrentMap fresh capacity load =
     cm_clear \<lparr>cm_size = 0, maxLoad = load, m_cells = fresh, m_sizeMask = capacity - 1\<rparr>"

partial_function (option) assign_loop ::
  "u64 \<Rightarrow> u64 \<Rightarrow> u64 \<Rightarrow> u64 \<Rightarrow> ConcurrentMap \<Rightarrow> (bool \<times> ConcurrentMap) option" where
  "assign_loop key v predecessorIndex idx m =
     (let idx = (idx + 1) AND m_sizeMask m; cell = cm_cell m idx in
      if predecessorIndex = idx then Some (False, m)
      else if cell_key cell = key
        then Some (True, cm_store idx (cell\<lparr>cell_value := v\<rparr>) (m\<lparr>cm_size := cm_size m - 1\<rparr>))
      else if cell_key cell \<noteq> 0 then assign_loop key v predecessorIndex idx m
      else Some (True, cm_store idx (cell\<lparr>cell_key := key, cell_value := v\<rparr>) m))"

definition assign :: "(u64 \<Rightarrow> u64) \<Rightarrow> u64 \<Rightarrow> u64 \<Rightarrow> ConcurrentMap \<Rightarrow> (bool \<times> ConcurrentMap) option" where
  "assign hash key v m =
     (if key = 0 \<or> v = 0 then Some (False, m)
      else let previousSize = cm_size m; m = m\<lparr>cm_size := cm_size m + 1\<rparr> in
        if previousSize \<ge> maxLoad m then Some (False, m\<lparr>cm_size := cm_size m - 1\<rparr>)
        else let predecessorIndex = (hash key - 1) AND m_sizeMask m
          in assign_loop key v predecessorIndex predecessorIndex m)"

partial_function (option) get_loop :: "u64 \<Rightarrow> u64 \<Rightarrow> u64 \<Rightarrow> ConcurrentMap \<Rightarrow> u64 option" where
  "get_loop key predecessorIndex idx m =
     (let idx = (idx + 1) AND m_sizeMask m; cell = cm_cell m idx in
      if predecessorIndex = idx then Some 0
      else if cell_key cell = key then Some (cell_value cell)
      else if cell_key cell = 0 then Some 0
      else get_loop key predecessorIndex idx m)"

definition cm_get :: "(u64 \<Rightarrow> u64) \<Rightarrow> u64 \<Rightarrow> ConcurrentMap \<Rightarrow> u64 option" where
  "cm_get hash key m =
     (if key = 0 then Some 0
      else let predecessorIndex = (hash key - 1) AND m_sizeMask m
        in get_loop key predecessorIndex predecessorIndex m)"

partial_function (option) compact_loop ::
  "(u64 \<Rightarrow> u64) \<Rightarrow> u64 \<Rightarrow> u64 \<Rightarrow> u64 \<Rightarrow> ConcurrentMap \<Rightarrow> (bool \<times> ConcurrentMap) option" where
  "compact_loop hash initialDeleteIndex deleteIndex index m =
     (let index = (index + 1) AND m_sizeMask m; cell = cm_cell m index in
      if index = initialDeleteIndex then Some (False, m)
      else if cell_key cell = 0 then Some (True, m\<lparr>cm_size := cm_size m - 1\<rparr>)
      else let h = hash (cell_key cell) AND m_sizeMask m in
        if index < h \<and> (h \<le> deleteIndex \<or> deleteIndex \<le> index) \<or> h \<le> deleteIndex \<and> deleteIndex \<le> index
        then compact_loop hash initialDeleteIndex index index (nullOutCell index (cm_store deleteIndex cell m))
        else compact_loop hash initialDeleteIndex deleteIndex index m)"

definition compactChain :: "(u64 \<Rightarrow> u64) \<Rightarrow> u64 \<Rightarrow> ConcurrentMap \<Rightarrow> (bool \<times> ConcurrentMap) option" where
  "compactChain hash initialDeleteIndex m = compact_loop hash initialDeleteIndex initialDeleteIndex initialDeleteIndex m"

partial_function (option) erase_loop ::
  "(u64 \<Rightarrow> u64) \<Rightarrow> u64 \<Rightarrow> u64 \<Rightarrow> u64 \<Rightarrow> ConcurrentMap \<Rightarrow> (bool \<times> ConcurrentMap) option" where
  "erase_loop hash key predecessorIndex idx m =
     (let idx = (idx + 1) AND m_sizeMask m; cell = cm_cell m idx in
      if predecessorIndex = idx then Some (False, m)
      else if cell_key cell = key then compactChain hash idx (nullOutCell idx m)
      else if cell_key cell = 0 then Some (False, m)
      else erase_loop hash key predecessorIndex idx m)"

definition erase :: "(u64 \<Rightarrow> u64) \<Rightarrow> u64 \<Rightarrow> ConcurrentMap \<Rightarrow> (bool \<times> ConcurrentMap) option" where
  "erase hash key m =
     (if key = 0 then Some (False, m)
      else let predecessorIndex = (hash key - 1) AND m_sizeMask m
        in erase_loop hash key predecessorIndex predecessorIndex m)"

fun isClear_from :: "nat \<Rightarrow> nat \<Rightarrow> ConcurrentMap \<Rightarrow> bool" where
  "isClear_from idx 0 m = True"
| "isClear_from idx (Suc n) m =
     (if cell_key (cm_cell m (of_nat idx)) \<noteq> 0 then False
      else if cell_value (cm_cell m (of_nat idx)) \<noteq> 0 then False
      else isClear_from (Suc idx) n m)"

definition isClear :: "ConcurrentMap \<Rightarrow> bool" where
  "isClear m = isClear_from 0 (unat (m_sizeMask m) + 1) m"

section \<open>Cyclic positions\<close>

definition csucc :: "nat \<Rightarrow> nat \<Rightarrow> nat" where
  "csucc c a = (if a + 1 = c then 0 else a + 1)"

definition cdist :: "nat \<Rightarrow> nat \<Rightarrow> nat \<Rightarrow> nat" where
  "cdist c a b = (if a \<le> b then b - a else b + c - a)"

lemma csucc_less: "a < c \<Longrightarrow> csucc c a < c"
  by (simp add: csucc_def)

lemma cdist_self [simp]: "cdist c a a = 0"
  by (simp add: cdist_def)

lemma cdist_less: "a < c \<Longrightarrow> b < c \<Longrightarrow> cdist c a b < c"
  by (auto simp: cdist_def)

lemma cdist_csucc: "a < c \<Longrightarrow> b < c \<Longrightarrow> csucc c b \<noteq> a \<Longrightarrow> cdist c a (csucc c b) = Suc (cdist c a b)"
  by (auto simp: cdist_def csucc_def)

lemma cdist_add:
  "h < c \<Longrightarrow> d < c \<Longrightarrow> i < c \<Longrightarrow> cdist c h d \<le> cdist c h i \<Longrightarrow> cdist c h i = cdist c h d + cdist c d i"
  by (auto simp: cdist_def split: if_splits)

lemma cdist_inj: "h < c \<Longrightarrow> i < c \<Longrightarrow> j < c \<Longrightarrow> cdist c h i = cdist c h j \<longleftrightarrow> i = j"
  by (auto simp: cdist_def split: if_splits)

lemma cdist_pred: "p < c \<Longrightarrow> cdist c (csucc c p) p = c - 1"
  by (auto simp: cdist_def csucc_def)

text \<open>The test of \<open>compactChain\<close>: the hole lies between the key's home and its cell.\<close>

lemma between_test:
  "h < c \<Longrightarrow> d < c \<Longrightarrow> i < c \<Longrightarrow> d \<noteq> i \<Longrightarrow>
     (i < h \<and> (h \<le> d \<or> d \<le> i) \<or> h \<le> d \<and> d \<le> i) \<longleftrightarrow> cdist c h d < cdist c h i"
  by (auto simp: cdist_def)

lemma cdist_through:
  "h < c \<Longrightarrow> d < c \<Longrightarrow> i < c \<Longrightarrow> cdist c h d + cdist c d i < c \<Longrightarrow> cdist c h i = cdist c h d + cdist c d i"
  by (auto simp: cdist_def split: if_splits)

section \<open>Well-formed tables\<close>

definition home :: "(u64 \<Rightarrow> u64) \<Rightarrow> nat \<Rightarrow> u64 \<Rightarrow> nat" where
  "home hash c k = unat (hash k) mod c"

definition key_at :: "Cell list \<Rightarrow> nat \<Rightarrow> u64" where "key_at cs i = cell_key (cs ! i)"

text \<open>Keys are stored once, null keys go with null values.\<close>

definition keys_ok :: "Cell list \<Rightarrow> bool" where
  "keys_ok cs \<longleftrightarrow>
     (\<forall>i < length cs. \<forall>j < length cs. key_at cs i \<noteq> 0 \<and> key_at cs i = key_at cs j \<longrightarrow> i = j) \<and>
     (\<forall>i < length cs. key_at cs i = 0 \<longleftrightarrow> cell_value (cs ! i) = 0)"

text \<open>Every cell between a key's home and its own cell is taken, the hole \<open>d\<close> excepted.\<close>

definition chains_ok :: "(u64 \<Rightarrow> u64) \<Rightarrow> Cell list \<Rightarrow> nat option \<Rightarrow> bool" where
  "chains_ok hash cs d \<longleftrightarrow> (let c = length cs in
     \<forall>i < c. key_at cs i \<noteq> 0 \<longrightarrow>
       (\<forall>j < c. cdist c (home hash c (key_at cs i)) j < cdist c (home hash c (key_at cs i)) i \<longrightarrow>
          d = Some j \<or> key_at cs j \<noteq> 0))"

definition entries :: "Cell list \<Rightarrow> (u64 \<times> u64) list" where
  "entries cs = map (\<lambda>c. (cell_key c, cell_value c)) (filter (\<lambda>c. cell_key c \<noteq> 0) cs)"

definition cm_abs :: "ConcurrentMap \<Rightarrow> u64 \<Rightarrow> u64 option" where
  "cm_abs m = map_of (entries (m_cells m))"

definition cm_count :: "ConcurrentMap \<Rightarrow> nat" where "cm_count m = length (entries (m_cells m))"

definition cm_inv :: "(u64 \<Rightarrow> u64) \<Rightarrow> ConcurrentMap \<Rightarrow> bool" where
  "cm_inv hash m \<longleftrightarrow>
     (\<exists>b < 64. length (m_cells m) = 2 ^ b \<and> m_sizeMask m = mask b) \<and>
     keys_ok (m_cells m) \<and> chains_ok hash (m_cells m) None \<and>
     unat (cm_size m) = cm_count m \<and> cm_count m \<le> unat (maxLoad m) \<and> unat (maxLoad m) < length (m_cells m)"

lemma key_at_update: "i < length cs \<Longrightarrow> key_at (cs[i := c]) j = (if j = i then cell_key c else key_at cs j)"
  by (auto simp: key_at_def)

lemma chains_okI:
  "(\<And>i j. i < length cs \<Longrightarrow> j < length cs \<Longrightarrow> key_at cs i \<noteq> 0 \<Longrightarrow>
      cdist (length cs) (home hash (length cs) (key_at cs i)) j < cdist (length cs) (home hash (length cs) (key_at cs i)) i
      \<Longrightarrow> d = Some j \<or> key_at cs j \<noteq> 0) \<Longrightarrow> chains_ok hash cs d"
  by (simp add: chains_ok_def Let_def)

lemma chains_okD:
  "chains_ok hash cs d \<Longrightarrow> i < length cs \<Longrightarrow> j < length cs \<Longrightarrow> key_at cs i \<noteq> 0 \<Longrightarrow>
      cdist (length cs) (home hash (length cs) (key_at cs i)) j < cdist (length cs) (home hash (length cs) (key_at cs i)) i
      \<Longrightarrow> d = Some j \<or> key_at cs j \<noteq> 0"
  by (simp add: chains_ok_def Let_def)

lemma set_entries: "set (entries cs) = {(key_at cs i, cell_value (cs ! i)) | i. i < length cs \<and> key_at cs i \<noteq> 0}"
  by (auto simp: entries_def key_at_def in_set_conv_nth)

lemma length_entries: "length (entries cs) = card {i. i < length cs \<and> key_at cs i \<noteq> 0}"
  by (simp add: entries_def key_at_def length_filter_conv_card)

lemma cells_map_iff:
  assumes "keys_ok cs"
  shows "map_of (entries cs) k = Some v \<longleftrightarrow> k \<noteq> 0 \<and> (\<exists>i < length cs. key_at cs i = k \<and> cell_value (cs ! i) = v)"
proof
  assume "map_of (entries cs) k = Some v"
  then have "(k, v) \<in> set (entries cs)" by (rule map_of_SomeD)
  then show "k \<noteq> 0 \<and> (\<exists>i < length cs. key_at cs i = k \<and> cell_value (cs ! i) = v)" by (auto simp: set_entries)
next
  assume r: "k \<noteq> 0 \<and> (\<exists>i < length cs. key_at cs i = k \<and> cell_value (cs ! i) = v)"
  then have "(k, v) \<in> set (entries cs)" by (auto simp: set_entries)
  then obtain w where w: "map_of (entries cs) k = Some w" by (metis map_of_eq_None_iff option.exhaust image_eqI fst_conv)
  then have "(k, w) \<in> set (entries cs)" by (rule map_of_SomeD)
  with r assms have "w = v" unfolding set_entries keys_ok_def by (smt (verit) Pair_inject mem_Collect_eq)
  with w show "map_of (entries cs) k = Some v" by simp
qed

lemma cells_map_None: "map_of (entries cs) k = None \<longleftrightarrow> (\<forall>i < length cs. key_at cs i = k \<longrightarrow> k = 0)"
  by (auto simp: map_of_eq_None_iff set_entries image_iff)

lemma cells_map_eqI:
  assumes "keys_ok cs" "keys_ok cs'"
    and "\<And>k v. k \<noteq> 0 \<Longrightarrow> (\<exists>i < length cs'. key_at cs' i = k \<and> cell_value (cs' ! i) = v) \<longleftrightarrow>
      (\<exists>i < length cs. key_at cs i = k \<and> cell_value (cs ! i) = v)"
  shows "map_of (entries cs') = map_of (entries cs)"
proof (rule ext)
  fix k show "map_of (entries cs') k = map_of (entries cs) k"
    using cells_map_iff [OF assms(1), of k] cells_map_iff [OF assms(2), of k] assms(3) [of k]
    by (metis not_None_eq)
qed

section \<open>Probing\<close>

lemma unat_and_mask: "b < 64 \<Longrightarrow> unat ((w :: u64) AND mask b) = unat w mod 2 ^ b"
  by (simp flip: take_bit_eq_mask take_bit_eq_mod add: unsigned_take_bit_eq)

lemma unat_next_index:
  assumes "b < 64" "unat (idx :: u64) < 2 ^ b"
  shows "unat ((idx + 1) AND mask b) = csucc (2 ^ b) (unat idx)"
proof -
  have "(2::nat) ^ b \<le> 2 ^ 63" using assms(1) by (intro power_increasing) auto
  with assms(2) have "unat idx + 1 < 2 ^ 64" by simp
  then have "unat (idx + 1) = unat idx + 1" by (simp add: unat_word_ariths)
  then show ?thesis using assms by (auto simp: unat_and_mask csucc_def)
qed

lemma home_after_pred:
  assumes b: "b < 64"
  shows "csucc (2 ^ b) (unat ((hash k - 1) AND mask b)) = home hash (2 ^ b) k"
proof -
  let ?x = "hash k - 1" and ?c = "2 ^ b :: nat"
  have "unat (hash k) = (unat ?x + 1) mod 2 ^ 64" using unat_word_ariths(1) [of ?x 1] by simp
  moreover have "?c dvd 2 ^ 64" using b by (intro le_imp_power_dvd) simp
  ultimately have "unat (hash k) mod ?c = (unat ?x + 1) mod ?c" by (simp add: mod_mod_cancel)
  also have "\<dots> = csucc ?c (unat ?x mod ?c)" by (simp add: csucc_def mod_Suc)
  finally show ?thesis using b by (simp add: unat_and_mask home_def)
qed

text \<open>
  The common shape of the three probing loops: from just before the home cell \<open>h\<close> they walk forward until
  \<open>stop\<close> holds or they are back at the start.
\<close>

lemma probe_unroll:
  fixes F :: "u64 \<Rightarrow> 'r"
  assumes step: "\<And>idx. F idx = (let i = (idx + 1) AND mask b in if pidx = i then A else if stop i then B i else F i)"
    and b: "b < 64" and pidx: "unat pidx < 2 ^ b" and h: "h = csucc (2 ^ b) (unat pidx)"
    and before: "\<And>i. unat i < 2 ^ b \<Longrightarrow> cdist (2 ^ b) h (unat i) < cdist (2 ^ b) h t \<Longrightarrow> \<not> stop i"
    and t: "t < 2 ^ b" "t \<noteq> unat pidx \<Longrightarrow> stop (of_nat t)"
  shows "F pidx = (if t = unat pidx then A else B (of_nat t))"
proof -
  let ?c = "2 ^ b :: nat"
  have c64: "?c \<le> 2 ^ 63" using b by (intro power_increasing) auto
  have hc: "h < ?c" using h csucc_less [OF pidx] by simp
  have dp: "cdist ?c h (unat pidx) = ?c - 1" using cdist_pred [OF pidx] h by simp
  have "F idx = (if t = unat pidx then A else B (of_nat t))"
    if "unat idx < ?c" "csucc ?c (unat idx) = p" "cdist ?c h p \<le> cdist ?c h t" for idx p
    using that
  proof (induction "cdist ?c h t - cdist ?c h p" arbitrary: idx p)
    case 0
    then have p: "p < ?c" using csucc_less by blast
    from 0 have "cdist ?c h p = cdist ?c h t" by simp
    with cdist_inj [OF hc p t(1)] have pt: "p = t" by simp
    have i: "unat ((idx + 1) AND mask b) = t" using unat_next_index [OF b 0(2)] 0(3) pt by simp
    then have "(idx + 1) AND mask b = of_nat t" by (simp flip: i)
    moreover have "pidx = of_nat t \<longleftrightarrow> t = unat pidx" using i calculation by auto
    ultimately show ?case using t(2) by (subst step) (auto simp: Let_def)
  next
    case (Suc n)
    then have p: "p < ?c" using csucc_less by blast
    let ?i = "(idx + 1) AND mask b"
    have i: "unat ?i = p" using unat_next_index [OF b Suc(3)] Suc(4) by simp
    have lt: "cdist ?c h p < cdist ?c h t" using Suc(2) by simp
    have lc: "cdist ?c h t < ?c" by (rule cdist_less [OF hc t(1)])
    have ns: "\<not> stop ?i" using before [of ?i] i p lt by simp
    have np: "pidx \<noteq> ?i" using i lt lc dp by auto
    have "csucc ?c p \<noteq> h"
    proof
      assume "csucc ?c p = h"
      then have "p = unat pidx" using h p pidx by (auto simp: csucc_def split: if_splits)
      with lt lc dp show False by simp
    qed
    then have d: "cdist ?c h (csucc ?c p) = Suc (cdist ?c h p)" using cdist_csucc [OF hc p] by simp
    have "F ?i = (if t = unat pidx then A else B (of_nat t))"
      by (rule Suc(1) [of "csucc ?c p"]) (use Suc(2) d lt i p in auto)
    then show ?case using ns np by (subst step) (simp add: Let_def)
  qed
  from this [OF pidx h [symmetric]] show ?thesis by simp
qed

section \<open>Where a key is found\<close>

text \<open>The cells that end a search for \<open>k\<close>, and the result of a search in a well-formed table.\<close>

definition ends_search :: "Cell list \<Rightarrow> u64 \<Rightarrow> nat \<Rightarrow> bool" where
  "ends_search cs k i \<longleftrightarrow> key_at cs i = k \<or> key_at cs i = 0"

lemma present_stop:
  assumes ok: "keys_ok cs" "chains_ok hash cs None" and c: "c = length cs" and k: "k \<noteq> 0"
    and i: "i < c" "key_at cs i = k" and null: "n < c" "key_at cs n = 0"
  shows "cdist c (home hash c k) i < c - 1"
    and "j < c \<Longrightarrow> cdist c (home hash c k) j < cdist c (home hash c k) i \<Longrightarrow> \<not> ends_search cs k j"
proof -
  let ?h = "home hash c k"
  have hc: "?h < c" using i(1) by (simp add: home_def)
  have chain: "key_at cs j \<noteq> 0" if "j < c" "cdist c ?h j < cdist c ?h i" for j
    using ok(2) that i k by (auto simp: chains_ok_def Let_def c)
  show "\<not> ends_search cs k j" if "j < c" "cdist c ?h j < cdist c ?h i"
    using chain [OF that] ok(1) that i k by (auto simp: ends_search_def keys_ok_def c)
  have "i \<noteq> n" using i(2) null(2) k by auto
  then have "cdist c ?h n \<noteq> cdist c ?h i" using cdist_inj [OF hc null(1) i(1)] by auto
  with chain [OF null(1)] null(2) have "cdist c ?h i < cdist c ?h n" by force
  with cdist_less [OF hc null(1)] show "cdist c ?h i < c - 1" by simp
qed

lemma absent_stop:
  assumes c: "c = length cs" "0 < c" and absent: "\<And>i. i < c \<Longrightarrow> key_at cs i \<noteq> k" and p: "p < c" and h: "h = csucc c p"
  obtains (null) t where "t < c" "t \<noteq> p" "key_at cs t = 0" "\<And>j. j < c \<Longrightarrow> cdist c h j < cdist c h t \<Longrightarrow> \<not> ends_search cs k j"
  | (none) "\<And>j. j < c \<Longrightarrow> j \<noteq> p \<Longrightarrow> key_at cs j \<noteq> 0"
proof (cases "\<exists>t < c. t \<noteq> p \<and> key_at cs t = 0")
  case True
  define P where "P = (\<lambda>t. t < c \<and> t \<noteq> p \<and> key_at cs t = 0)"
  from True have "\<exists>t. P t" by (simp add: P_def)
  then obtain t where t: "P t" and least: "\<And>j. P j \<Longrightarrow> cdist c h t \<le> cdist c h j"
    using ex_has_least_nat [of P _ "cdist c h"] by blast
  have hc: "h < c" using h csucc_less [OF p] by simp
  have dp: "cdist c h p = c - 1" using cdist_pred [OF p] h by simp
  have "\<not> ends_search cs k j" if j: "j < c" "cdist c h j < cdist c h t" for j
  proof -
    have "cdist c h t < c" using t cdist_less [OF hc] by (simp add: P_def)
    with j dp have "j \<noteq> p" by auto
    with least [of j] j have "key_at cs j \<noteq> 0" by (auto simp: P_def)
    with absent [OF j(1)] show ?thesis by (simp add: ends_search_def)
  qed
  with t null show thesis by (auto simp: P_def)
next
  case False
  with none show thesis by blast
qed

lemma cm_invE:
  assumes "cm_inv hash m"
  obtains b where "b < 64" "length (m_cells m) = 2 ^ b" "m_sizeMask m = mask b" "keys_ok (m_cells m)"
    "chains_ok hash (m_cells m) None" "unat (cm_size m) = cm_count m" "cm_count m \<le> unat (maxLoad m)"
    "unat (maxLoad m) < 2 ^ b"
  using assms by (auto simp: cm_inv_def)

lemma two_nulls:
  assumes "cm_count m + card A < length (m_cells m)" "finite A"
  obtains n where "n < length (m_cells m)" "n \<notin> A" "key_at (m_cells m) n = 0"
proof -
  let ?cs = "m_cells m" and ?K = "{i. i < length (m_cells m) \<and> key_at (m_cells m) i \<noteq> 0}"
  have "\<not> {..< length ?cs} \<subseteq> A \<union> ?K"
  proof
    assume "{..< length ?cs} \<subseteq> A \<union> ?K"
    from card_mono [OF _ this] have "length ?cs \<le> card (A \<union> ?K)" using assms(2) by simp
    also have "\<dots> \<le> card A + card ?K" by (rule card_Un_le)
    finally show False using assms by (simp add: cm_count_def length_entries)
  qed
  then show thesis using that by auto
qed

lemma null_exists:
  assumes "cm_count m < length (m_cells m)"
  obtains n where "n < length (m_cells m)" "key_at (m_cells m) n = 0"
  using two_nulls [of m "{}"] assms by auto

lemma search_result:
  fixes F :: "u64 \<Rightarrow> 'r" and k :: u64 and hash :: "u64 \<Rightarrow> u64" and m :: ConcurrentMap
  defines "p \<equiv> (hash k - 1) AND m_sizeMask m"
  assumes inv: "cm_inv hash m" and k: "k \<noteq> 0"
    and step: "\<And>idx. F idx = (let i = (idx + 1) AND m_sizeMask m in
      if p = i then A else if ends_search (m_cells m) k (unat i) then B i else F i)"
  shows "i < length (m_cells m) \<Longrightarrow> key_at (m_cells m) i = k \<Longrightarrow>
      F p = B (of_nat i) \<and> unat (of_nat i :: u64) = i"
    and "cm_abs m k = None \<Longrightarrow> F p = A \<and> cm_count m + 1 \<ge> length (m_cells m) \<or>
      (\<exists>t < length (m_cells m). F p = B (of_nat t) \<and> unat (of_nat t :: u64) = t \<and> key_at (m_cells m) t = 0 \<and>
        (\<forall>j < length (m_cells m). cdist (length (m_cells m)) (home hash (length (m_cells m)) k) j <
            cdist (length (m_cells m)) (home hash (length (m_cells m)) k) t \<longrightarrow> key_at (m_cells m) j \<noteq> 0))"
proof -
  let ?cs = "m_cells m"
  from inv obtain b where b: "b < 64" "length ?cs = 2 ^ b" "m_sizeMask m = mask b" "keys_ok ?cs"
      "chains_ok hash ?cs None" "cm_count m \<le> unat (maxLoad m)" "unat (maxLoad m) < 2 ^ b" by (elim cm_invE)
  let ?c = "2 ^ b :: nat" and ?stop = "\<lambda>i :: u64. ends_search ?cs k (unat i)"
  let ?h = "home hash ?c k"
  have p: "p = (hash k - 1) AND mask b" by (simp add: p_def b(3))
  have pc: "unat p < ?c" using b(1) by (simp add: p unat_and_mask)
  have hp: "?h = csucc ?c (unat p)" using home_after_pred [OF b(1)] by (simp add: p)
  have hc: "?h < ?c" by (simp add: home_def)
  note unroll = probe_unroll [where F = F and stop = ?stop and A = A and B = B, OF step [unfolded b(3)] b(1) pc hp]
  have un: "unat (of_nat t :: u64) = t" if "t < ?c" for t
  proof -
    have "?c \<le> 2 ^ 63" using b(1) by (intro power_increasing) auto
    with that have "t < 2 ^ 64" by simp
    then show ?thesis by (simp add: unat_of_nat)
  qed
  show "F p = B (of_nat i) \<and> unat (of_nat i :: u64) = i" if "i < length ?cs" "key_at ?cs i = k"
  proof -
    from that b(2) have i: "i < ?c" "key_at ?cs i = k" by simp_all
    from b obtain n where n: "n < ?c" "key_at ?cs n = 0" using null_exists [of m] by auto
    note P = present_stop [OF b(4,5) b(2) [symmetric] k i n]
    have "i \<noteq> unat p" using P(1) cdist_pred [OF pc] hp by auto
    then show ?thesis
      using unroll [of i] P(2) i un [OF i(1)] by (simp add: ends_search_def)
  qed
  assume "cm_abs m k = None"
  then have absent: "\<And>i. i < ?c \<Longrightarrow> key_at ?cs i \<noteq> k" using k b(2) by (auto simp: cm_abs_def cells_map_None)
  show "F p = A \<and> cm_count m + 1 \<ge> length ?cs \<or>
      (\<exists>t < length ?cs. F p = B (of_nat t) \<and> unat (of_nat t :: u64) = t \<and> key_at ?cs t = 0 \<and>
        (\<forall>j < length ?cs. cdist (length ?cs) (home hash (length ?cs) k) j <
            cdist (length ?cs) (home hash (length ?cs) k) t \<longrightarrow> key_at ?cs j \<noteq> 0))"
    unfolding b(2)
  proof (rule absent_stop [OF b(2) [symmetric] _ absent pc hp])
    fix t assume t: "t < ?c" "t \<noteq> unat p" "key_at ?cs t = 0"
      "\<And>j. j < ?c \<Longrightarrow> cdist ?c ?h j < cdist ?c ?h t \<Longrightarrow> \<not> ends_search ?cs k j"
    then have "F p = B (of_nat t)" using unroll [of t] un [OF t(1)] by (simp add: ends_search_def)
    with t un [OF t(1)] show "F p = A \<and> cm_count m + 1 \<ge> ?c \<or> (\<exists>t < ?c. F p = B (of_nat t) \<and>
      unat (of_nat t :: u64) = t \<and> key_at ?cs t = 0 \<and> (\<forall>j < ?c. cdist ?c ?h j < cdist ?c ?h t \<longrightarrow> key_at ?cs j \<noteq> 0))"
      by (auto simp: ends_search_def)
  next
    assume all: "\<And>j. j < ?c \<Longrightarrow> j \<noteq> unat p \<Longrightarrow> key_at ?cs j \<noteq> 0"
    have "\<not> ?stop i" if "unat i < ?c" "cdist ?c ?h (unat i) < cdist ?c ?h (unat p)" for i
    proof -
      have "unat i \<noteq> unat p" using that(2) by auto
      with all absent that(1) show ?thesis by (simp add: ends_search_def)
    qed
    then have "F p = A" using unroll [of "unat p"] pc by simp
    moreover have "\<not> cm_count m + 1 < ?c"
      using two_nulls [of m "{unat p}"] all b(2) by auto
    ultimately show "F p = A \<and> cm_count m + 1 \<ge> ?c \<or> (\<exists>t < ?c. F p = B (of_nat t) \<and>
      unat (of_nat t :: u64) = t \<and> key_at ?cs t = 0 \<and> (\<forall>j < ?c. cdist ?c ?h j < cdist ?c ?h t \<longrightarrow> key_at ?cs j \<noteq> 0))"
      by simp
  qed simp
qed

lemma cm_abs_Some:
  assumes "cm_inv hash m" "cm_abs m k = Some v"
  obtains i where "i < length (m_cells m)" "key_at (m_cells m) i = k" "cell_value (m_cells m ! i) = v" "k \<noteq> 0" "v \<noteq> 0"
proof -
  have ok: "keys_ok (m_cells m)" using assms(1) by (simp add: cm_inv_def)
  with assms(2) obtain i where i: "i < length (m_cells m)" "key_at (m_cells m) i = k"
      "cell_value (m_cells m ! i) = v" "k \<noteq> 0"
    unfolding cm_abs_def cells_map_iff [OF ok] by blast
  with ok have "v \<noteq> 0" unfolding keys_ok_def by metis
  with i that show thesis by blast
qed

section \<open>get\<close>

lemma get_result:
  assumes inv: "cm_inv hash m" and k: "k \<noteq> 0"
  shows "cm_get hash k m = Some (case cm_abs m k of None \<Rightarrow> 0 | Some v \<Rightarrow> v)"
proof -
  let ?cs = "m_cells m" and ?p = "(hash k - 1) AND m_sizeMask m"
  let ?B = "\<lambda>i :: u64. Some (if key_at ?cs (unat i) = k then cell_value (?cs ! unat i) else 0)"
  note S = search_result [OF inv k, where F = "\<lambda>idx. get_loop k ?p idx m" and A = "Some 0" and B = ?B]
  have step: "get_loop k ?p idx m = (let i = (idx + 1) AND m_sizeMask m in
      if ?p = i then Some 0 else if ends_search ?cs k (unat i) then ?B i else get_loop k ?p i m)" for idx
    by (subst get_loop.simps) (simp add: Let_def ends_search_def key_at_def cm_cell_def)
  have g: "cm_get hash k m = get_loop k ?p ?p m" using k by (simp add: cm_get_def Let_def)
  show ?thesis
  proof (cases "cm_abs m k")
    case None
    then show ?thesis using S(2) [OF step] g k by auto
  next
    case (Some v)
    then obtain i where "i < length ?cs" "key_at ?cs i = k" "cell_value (?cs ! i) = v"
      by (elim cm_abs_Some [OF inv])
    with S(1) [OF step, of i] g Some show ?thesis by simp
  qed
qed

section \<open>assign\<close>

lemma keys_ok_update:
  assumes "keys_ok cs" "i < length cs" "key_at cs i = 0 \<or> key_at cs i = k" "k \<noteq> 0" "v \<noteq> 0"
    and "\<And>j. j < length cs \<Longrightarrow> j \<noteq> i \<Longrightarrow> key_at cs j \<noteq> k"
  shows "keys_ok (cs[i := \<lparr>cell_key = k, cell_value = v\<rparr>])"
  using assms by (auto simp: keys_ok_def key_at_def nth_list_update_if)

lemma entries_update:
  assumes "keys_ok cs" "i < length cs" "key_at cs i = 0 \<or> key_at cs i = k" "k \<noteq> 0" "v \<noteq> 0"
    and "\<And>j. j < length cs \<Longrightarrow> j \<noteq> i \<Longrightarrow> key_at cs j \<noteq> k"
  shows "map_of (entries (cs[i := \<lparr>cell_key = k, cell_value = v\<rparr>])) = (map_of (entries cs))(k \<mapsto> v)"
    and "length (entries (cs[i := \<lparr>cell_key = k, cell_value = v\<rparr>])) =
      (if key_at cs i = 0 then Suc (length (entries cs)) else length (entries cs))"
proof -
  let ?cs' = "cs[i := \<lparr>cell_key = k, cell_value = v\<rparr>]"
  note ok' = keys_ok_update [OF assms]
  show "map_of (entries ?cs') = (map_of (entries cs))(k \<mapsto> v)"
  proof (rule ext)
    fix x
    show "map_of (entries ?cs') x = ((map_of (entries cs))(k \<mapsto> v)) x"
    proof (cases "x = k")
      case True
      have "i < length ?cs' \<and> key_at ?cs' i = k \<and> cell_value (?cs' ! i) = v" using assms(2) by (simp add: key_at_def)
      then have "map_of (entries ?cs') k = Some v" using cells_map_iff [OF ok'] assms(4) by blast
      with True show ?thesis by simp
    next
      case False
      have "(j < length ?cs' \<and> key_at ?cs' j = x \<and> cell_value (?cs' ! j) = w) \<longleftrightarrow>
          (j < length cs \<and> key_at cs j = x \<and> cell_value (cs ! j) = w)" if "x \<noteq> 0" for j w
        using that False assms(3) by (cases "j = i") (auto simp: key_at_def)
      then have "map_of (entries ?cs') x = Some w \<longleftrightarrow> map_of (entries cs) x = Some w" for w
        using cells_map_iff [OF ok', of x w] cells_map_iff [OF assms(1), of x w] by blast
      with False show ?thesis by (metis fun_upd_other not_None_eq)
    qed
  qed
  have "{j. j < length ?cs' \<and> key_at ?cs' j \<noteq> 0} = insert i {j. j < length cs \<and> key_at cs j \<noteq> 0}"
    using assms(2,4) by (auto simp: key_at_update split: if_splits)
  then show "length (entries ?cs') = (if key_at cs i = 0 then Suc (length (entries cs)) else length (entries cs))"
    using assms(2) by (simp add: length_entries card_insert_if)
qed

lemma chains_ok_update:
  assumes "chains_ok hash cs None" "i < length cs" "k \<noteq> 0"
    and "key_at cs i = 0 \<or> key_at cs i = k"
    and "\<And>j. j < length cs \<Longrightarrow> cdist (length cs) (home hash (length cs) k) j < cdist (length cs) (home hash (length cs) k) i
      \<Longrightarrow> key_at cs j \<noteq> 0"
  shows "chains_ok hash (cs[i := \<lparr>cell_key = k, cell_value = v\<rparr>]) None"
proof (rule chains_okI, unfold length_list_update)
  fix x j let ?cs' = "cs[i := \<lparr>cell_key = k, cell_value = v\<rparr>]"
  assume x: "x < length cs" "j < length cs" "key_at ?cs' x \<noteq> 0"
    "cdist (length cs) (home hash (length cs) (key_at ?cs' x)) j < cdist (length cs) (home hash (length cs) (key_at ?cs' x)) x"
  then have "key_at cs j \<noteq> 0"
    using assms(5) [of j] chains_okD [OF assms(1) x(1,2)] by (cases "x = i") (auto simp: key_at_update [OF assms(2)])
  then show "None = Some j \<or> key_at ?cs' j \<noteq> 0" using assms(3) by (simp add: key_at_update [OF assms(2)])
qed

lemma cm_store_simps [simp]:
  "cm_size (cm_store i c m) = cm_size m" "maxLoad (cm_store i c m) = maxLoad m"
  "m_sizeMask (cm_store i c m) = m_sizeMask m" "m_cells (cm_store i c m) = (m_cells m)[unat i := c]"
  by (simp_all add: cm_store_def)

lemma size_up:
  assumes "cm_inv hash m" "cm_size m < maxLoad m"
  shows "unat (cm_size m + 1) = unat (cm_size m) + 1"
  using assms(2) unsigned_less [of "maxLoad m", where ?'a = nat] by (simp add: word_less_nat_alt unat_word_ariths)

lemma assign_result:
  assumes inv: "cm_inv hash m" and k: "k \<noteq> 0" and v: "v \<noteq> 0"
  shows "cm_count m = unat (maxLoad m) \<Longrightarrow> assign hash k v m = Some (False, m)"
    and "cm_count m < unat (maxLoad m) \<Longrightarrow> \<exists>m'. assign hash k v m = Some (True, m') \<and> cm_inv hash m' \<and>
      cm_abs m' = (cm_abs m)(k \<mapsto> v) \<and> maxLoad m' = maxLoad m"
proof -
  have sz: "unat (cm_size m) = cm_count m" using inv by (simp add: cm_inv_def)
  show "cm_count m = unat (maxLoad m) \<Longrightarrow> assign hash k v m = Some (False, m)"
    using k v sz by (simp add: assign_def Let_def word_le_nat_alt)
  assume room: "cm_count m < unat (maxLoad m)"
  then have lt: "cm_size m < maxLoad m" using sz by (simp add: word_less_nat_alt)
  let ?m = "m\<lparr>cm_size := cm_size m + 1\<rparr>"
  let ?cs = "m_cells m" and ?p = "(hash k - 1) AND m_sizeMask m"
  let ?B = "\<lambda>i. Some (True, cm_store i \<lparr>cell_key = k, cell_value = v\<rparr>
      (if key_at ?cs (unat i) = k then m else ?m))"
  note S = search_result [OF inv k, where F = "\<lambda>idx. assign_loop k v ?p idx ?m" and A = "Some (False, ?m)" and B = ?B]
  have cell: "c\<lparr>cell_value := v\<rparr> = \<lparr>cell_key = cell_key c, cell_value = v\<rparr>" for c :: Cell by (cases c) simp
  have cell2: "c\<lparr>cell_key := k, cell_value := v\<rparr> = \<lparr>cell_key = k, cell_value = v\<rparr>" for c :: Cell by (cases c) simp
  have step: "assign_loop k v ?p idx ?m = (let i = (idx + 1) AND m_sizeMask m in
      if ?p = i then Some (False, ?m) else if ends_search ?cs k (unat i) then ?B i else assign_loop k v ?p i ?m)" for idx
    using k by (subst assign_loop.simps) (simp add: Let_def ends_search_def key_at_def cm_cell_def cell cell2)
  have a: "assign hash k v m = assign_loop k v ?p ?p ?m"
    using k v leD [of "maxLoad m" "cm_size m"] lt by (auto simp: assign_def Let_def)
  from inv obtain b where b: "b < 64" "length ?cs = 2 ^ b" "m_sizeMask m = mask b" "keys_ok ?cs"
      "chains_ok hash ?cs None" "unat (maxLoad m) < 2 ^ b" by (elim cm_invE)
  show "\<exists>m'. assign hash k v m = Some (True, m') \<and> cm_inv hash m' \<and> cm_abs m' = (cm_abs m)(k \<mapsto> v) \<and> maxLoad m' = maxLoad m"
  proof (cases "cm_abs m k")
    case None
    then have absent: "\<And>i. i < length ?cs \<Longrightarrow> key_at ?cs i \<noteq> k" using k by (auto simp: cm_abs_def cells_map_None)
    from S(2) [OF step None] room b(2,6) obtain t where t: "t < length ?cs" "key_at ?cs t = 0"
        "unat (of_nat t :: u64) = t" "assign_loop k v ?p ?p ?m = ?B (of_nat t)"
        "\<And>j. j < length ?cs \<Longrightarrow> cdist (length ?cs) (home hash (length ?cs) k) j <
            cdist (length ?cs) (home hash (length ?cs) k) t \<Longrightarrow> key_at ?cs j \<noteq> 0"
      by auto
    let ?m' = "cm_store (of_nat t) \<lparr>cell_key = k, cell_value = v\<rparr> ?m"
    have z: "key_at ?cs t = 0 \<or> key_at ?cs t = k" using t(2) by simp
    note E = entries_update [OF b(4) t(1) z k v absent]
    have "cm_inv hash ?m'"
      using b keys_ok_update [OF b(4) t(1) z k v absent] chains_ok_update [OF b(5) t(1) k z t(5)] E(2) t sz room
        size_up [OF inv lt] by (auto simp: cm_inv_def cm_count_def)
    moreover have "assign hash k v m = Some (True, ?m')" using a t k by simp
    ultimately show ?thesis using E(1) t(3) by (auto simp: cm_abs_def)
  next
    case (Some w)
    then obtain i where i: "i < length ?cs" "key_at ?cs i = k" "cell_value (?cs ! i) = w"
      by (elim cm_abs_Some [OF inv])
    have others: "\<And>j. j < length ?cs \<Longrightarrow> j \<noteq> i \<Longrightarrow> key_at ?cs j \<noteq> k"
      using b(4) i k by (auto simp: keys_ok_def)
    have chain: "\<And>j. j < length ?cs \<Longrightarrow> cdist (length ?cs) (home hash (length ?cs) k) j <
            cdist (length ?cs) (home hash (length ?cs) k) i \<Longrightarrow> key_at ?cs j \<noteq> 0"
      using b(5) i k by (auto simp: chains_ok_def Let_def)
    have z: "key_at ?cs i = 0 \<or> key_at ?cs i = k" using i(2) by simp
    let ?m' = "cm_store (of_nat i) \<lparr>cell_key = k, cell_value = v\<rparr> m"
    note E = entries_update [OF b(4) i(1) z k v others]
    note I = S(1) [OF step i(1,2)]
    have "cm_inv hash ?m'"
      using b keys_ok_update [OF b(4) i(1) z k v others] chains_ok_update [OF b(5) i(1) k z chain] E(2) I i(2) k sz room
      by (auto simp: cm_inv_def cm_count_def)
    moreover have "assign hash k v m = Some (True, ?m')" using a I i(2) by simp
    ultimately show ?thesis using E(1) I by (auto simp: cm_abs_def)
  qed
qed

section \<open>erase\<close>

text \<open>
  While \<open>compactChain\<close> runs, cell \<open>d\<close> is a hole: every chain is intact but for it, and no cell between the
  hole and the current index has the hole in its own chain.
\<close>

definition hole_ok :: "(u64 \<Rightarrow> u64) \<Rightarrow> Cell list \<Rightarrow> nat \<Rightarrow> nat \<Rightarrow> bool" where
  "hole_ok hash cs d idx \<longleftrightarrow> (let c = length cs in
     d < c \<and> idx < c \<and> key_at cs d = 0 \<and> keys_ok cs \<and> chains_ok hash cs (Some d) \<and>
     (\<forall>i < c. 0 < cdist c d i \<and> cdist c d i \<le> cdist c d idx \<longrightarrow>
        key_at cs i \<noteq> 0 \<and> \<not> cdist c (home hash c (key_at cs i)) d < cdist c (home hash c (key_at cs i)) i))"

lemma hole_closed:
  assumes hole: "hole_ok hash cs d idx" and n: "n = csucc (length cs) idx" "n \<noteq> d" "key_at cs n = 0"
  shows "chains_ok hash cs None"
proof (rule chains_okI)
  let ?c = "length cs"
  note H = hole [unfolded hole_ok_def Let_def]
  have dc: "d < ?c" and ic: "idx < ?c" and nc: "n < ?c" using H n(1) csucc_less by auto
  fix i j let ?h = "home hash ?c (key_at cs i)"
  assume ij: "i < ?c" "j < ?c" "key_at cs i \<noteq> 0" "cdist ?c ?h j < cdist ?c ?h i"
  have hc: "?h < ?c" using dc unfolding home_def by (intro mod_less_divisor) linarith
  have D: "Some d = Some x \<or> key_at cs x \<noteq> 0" if "x < ?c" "cdist ?c ?h x < cdist ?c ?h i" for x
    using H that ij chains_okD [of hash cs "Some d" i x] by blast
  have "j \<noteq> d"
  proof
    assume "j = d"
    with ij have lt: "cdist ?c ?h d < cdist ?c ?h i" by simp
    then have split: "cdist ?c ?h i = cdist ?c ?h d + cdist ?c d i" using cdist_add [OF hc dc ij(1)] by simp
    have nd: "cdist ?c d n = Suc (cdist ?c d idx)" using cdist_csucc [OF dc ic] n by simp
    have "\<not> cdist ?c d i \<le> cdist ?c d idx" using H ij(1) lt split by auto
    moreover have "cdist ?c d n \<noteq> cdist ?c d i" using cdist_inj [OF dc nc ij(1)] n(3) ij(3) by auto
    ultimately have ni: "cdist ?c d n < cdist ?c d i" using nd by simp
    have "cdist ?c ?h i < ?c" by (rule cdist_less [OF hc ij(1)])
    with ni split have "cdist ?c ?h n = cdist ?c ?h d + cdist ?c d n"
      by (intro cdist_through [OF hc dc nc]) simp
    with D [OF nc] split ni n(2,3) show False by simp
  qed
  with D [OF ij(2,4)] show "None = Some j \<or> key_at cs j \<noteq> 0" by simp
qed

lemma hole_skip:
  assumes hole: "hole_ok hash cs d idx" and n: "n = csucc (length cs) idx" "n \<noteq> d" "key_at cs n \<noteq> 0"
    and stay: "\<not> cdist (length cs) (home hash (length cs) (key_at cs n)) d < cdist (length cs) (home hash (length cs) (key_at cs n)) n"
  shows "hole_ok hash cs d n"
proof -
  let ?c = "length cs"
  note H = hole [unfolded hole_ok_def Let_def]
  have dc: "d < ?c" and ic: "idx < ?c" and nc: "n < ?c" using H n(1) csucc_less by auto
  have nd: "cdist ?c d n = Suc (cdist ?c d idx)" using cdist_csucc [OF dc ic] n by simp
  have "i = n \<or> cdist ?c d i \<le> cdist ?c d idx" if "i < ?c" "cdist ?c d i \<le> cdist ?c d n" for i
    using that nd cdist_inj [OF dc that(1) nc] by auto
  with H nc n(3) stay show ?thesis unfolding hole_ok_def Let_def by blast
qed

lemma hole_move:
  assumes hole: "hole_ok hash cs d idx" and n: "n < length cs" "n \<noteq> d" "key_at cs n \<noteq> 0"
    and move: "cdist (length cs) (home hash (length cs) (key_at cs n)) d < cdist (length cs) (home hash (length cs) (key_at cs n)) n"
  defines "cs' \<equiv> (cs[d := cs ! n])[n := nullCell]"
  shows "hole_ok hash cs' n n" "map_of (entries cs') = map_of (entries cs)" "length (entries cs') = length (entries cs)"
proof -
  let ?c = "length cs"
  note H = hole [unfolded hole_ok_def Let_def]
  have dc: "d < ?c" and kd: "key_at cs d = 0" and ok: "keys_ok cs" using H by auto
  have len: "length cs' = ?c" by (simp add: cs'_def)
  have ka: "key_at cs' i = (if i = n then 0 else if i = d then key_at cs n else key_at cs i)" for i
    using dc n by (simp add: cs'_def key_at_def nullCell_def nth_list_update_if)
  have va: "cell_value (cs' ! i) = (if i = n then 0 else if i = d then cell_value (cs ! n) else cell_value (cs ! i))" for i
    using dc n by (simp add: cs'_def nullCell_def nth_list_update_if)
  have ok': "keys_ok cs'"
    using ok n dc kd unfolding keys_ok_def len ka va by (auto split: if_splits)
  have "chains_ok hash cs' (Some n)"
  proof (rule chains_okI, unfold len)
    fix i j assume ij: "i < ?c" "j < ?c" "key_at cs' i \<noteq> 0"
      "cdist ?c (home hash ?c (key_at cs' i)) j < cdist ?c (home hash ?c (key_at cs' i)) i"
    show "Some n = Some j \<or> key_at cs' j \<noteq> 0"
    proof (cases "i = d")
      case True
      with n(2) have "key_at cs' i = key_at cs n" by (simp add: ka)
      with ij(4) True have jd: "cdist ?c (home hash ?c (key_at cs n)) j < cdist ?c (home hash ?c (key_at cs n)) d" by simp
      then have "cdist ?c (home hash ?c (key_at cs n)) j < cdist ?c (home hash ?c (key_at cs n)) n" "j \<noteq> d"
        using move by auto
      with chains_okD [of hash cs "Some d" n j] H n(1,3) ij(2) show ?thesis by (auto simp: ka)
    next
      case False
      with ij have "i \<noteq> n" by (auto simp: ka)
      with False ij chains_okD [of hash cs "Some d" i j] H n(3) show ?thesis by (auto simp: ka)
    qed
  qed
  moreover have "key_at cs' n = 0" by (simp add: ka)
  ultimately show "hole_ok hash cs' n n"
    using n(1) ok' by (auto simp: hole_ok_def Let_def len)
  show "map_of (entries cs') = map_of (entries cs)"
  proof (rule cells_map_eqI [OF ok ok'], unfold len)
    fix k v :: u64 assume k: "k \<noteq> 0"
    show "(\<exists>i < ?c. key_at cs' i = k \<and> cell_value (cs' ! i) = v) \<longleftrightarrow> (\<exists>i < ?c. key_at cs i = k \<and> cell_value (cs ! i) = v)"
      (is "?L \<longleftrightarrow> ?R")
    proof
      assume ?L then show ?R unfolding ka va using n(1) k by (metis)
    next
      assume ?R
      then obtain i where i: "i < ?c" "key_at cs i = k" "cell_value (cs ! i) = v" by blast
      show ?L
      proof (cases "i = n")
        case True
        with i dc n(2) show ?thesis by (intro exI [of _ d]) (simp add: ka va)
      next
        case False
        with i kd k show ?thesis by (intro exI [of _ i]) (auto simp: ka va)
      qed
    qed
  qed
  let ?K = "{i. i < ?c \<and> key_at cs i \<noteq> 0}"
  have "{i. i < length cs' \<and> key_at cs' i \<noteq> 0} = insert d (?K - {n})"
    using n dc by (auto simp: len ka)
  moreover have "d \<notin> ?K - {n}" "n \<in> ?K" using kd n by auto
  ultimately show "length (entries cs') = length (entries cs)"
    using card.remove [of ?K n] by (simp add: length_entries card_insert_if)
qed

lemma compact_loop_result:
  assumes b: "b < 64" "length (m_cells m) = 2 ^ b" "m_sizeMask m = mask b"
    and idx: "unat ini < 2 ^ b" "unat d < 2 ^ b" "unat idx < 2 ^ b"
    and hole: "hole_ok hash (m_cells m) (unat d) (unat idx)"
    and order: "cdist (2 ^ b) (unat ini) (unat d) \<le> cdist (2 ^ b) (unat ini) (unat idx)"
      "cdist (2 ^ b) (unat ini) (unat idx) < cdist (2 ^ b) (unat ini) n"
    and n: "n < 2 ^ b" "key_at (m_cells m) n = 0"
  shows "\<exists>m'. compact_loop hash ini d idx m = Some (True, m') \<and> length (m_cells m') = 2 ^ b \<and> m_sizeMask m' = mask b \<and>
     cm_size m' = cm_size m - 1 \<and> maxLoad m' = maxLoad m \<and> keys_ok (m_cells m') \<and> chains_ok hash (m_cells m') None \<and>
     map_of (entries (m_cells m')) = map_of (entries (m_cells m)) \<and>
     length (entries (m_cells m')) = length (entries (m_cells m))"
  using assms
proof (induction "cdist (2 ^ b) (unat ini) n - cdist (2 ^ b) (unat ini) (unat idx)" arbitrary: d idx m rule: less_induct)
  case less
  let ?c = "2 ^ b :: nat" and ?E = "unat ini" and ?cs = "m_cells m"
  let ?i = "(idx + 1) AND m_sizeMask m"
  have i: "unat ?i = csucc ?c (unat idx)" using unat_next_index [OF less(2) less(7)] less(4) by simp
  have ic: "unat ?i < ?c" using i csucc_less [OF less(7)] by simp
  have nc: "cdist ?c ?E n < ?c" by (rule cdist_less [OF less(5) less(11)])
  have iE: "unat ?i \<noteq> ?E"
  proof
    assume "unat ?i = ?E"
    then have "cdist ?c ?E (unat idx) = ?c - 1" using i cdist_pred [OF less(7)] by simp
    with less(10) nc show False by simp
  qed
  then have di: "cdist ?c ?E (unat ?i) = Suc (cdist ?c ?E (unat idx))"
    using i cdist_csucc [OF less(5) less(7)] by simp
  have id: "unat ?i \<noteq> unat d" using di less(9) by auto
  have ne: "?i \<noteq> ini" using iE by auto
  have i': "unat ?i = csucc (length ?cs) (unat idx)" using i less(3) by simp
  show ?case
  proof (cases "key_at ?cs (unat ?i) = 0")
    case True
    then have "compact_loop hash ini d idx m = Some (True, m\<lparr>cm_size := cm_size m - 1\<rparr>)"
      using ne by (subst compact_loop.simps) (simp add: Let_def cm_cell_def key_at_def)
    moreover have "chains_ok hash ?cs None" by (rule hole_closed [OF less(8) i' id True])
    moreover have "keys_ok ?cs" using less(8) by (simp add: hole_ok_def Let_def)
    ultimately show ?thesis using less(3,4) by auto
  next
    case False
    have lt: "cdist ?c ?E (unat ?i) < cdist ?c ?E n"
    proof -
      have "unat ?i \<noteq> n" using False less(12) by auto
      then have "cdist ?c ?E (unat ?i) \<noteq> cdist ?c ?E n" using cdist_inj [OF less(5) ic less(11)] by simp
      with di less(10) show ?thesis by simp
    qed
    let ?h = "hash (cell_key (cm_cell m ?i)) AND m_sizeMask m"
    let ?hn = "home hash ?c (key_at ?cs (unat ?i))"
    have h: "unat ?h = ?hn" using unat_and_mask [OF less(2)] less(4) by (simp add: home_def cm_cell_def key_at_def)
    have hc: "?hn < ?c" by (simp add: home_def)
    have test: "(?i < ?h \<and> (?h \<le> d \<or> d \<le> ?i) \<or> ?h \<le> d \<and> d \<le> ?i) \<longleftrightarrow> cdist ?c ?hn (unat d) < cdist ?c ?hn (unat ?i)"
      unfolding word_less_nat_alt word_le_nat_alt h by (rule between_test [OF hc less(6) ic id [symmetric]])
    have unfold: "compact_loop hash ini d idx m =
        (if cdist ?c ?hn (unat d) < cdist ?c ?hn (unat ?i)
         then compact_loop hash ini ?i ?i (nullOutCell ?i (cm_store d (cm_cell m ?i) m))
         else compact_loop hash ini d ?i m)"
      using ne False test by (subst compact_loop.simps) (simp add: Let_def cm_cell_def key_at_def)
    have dec: "cdist ?c ?E n - cdist ?c ?E (unat ?i) < cdist ?c ?E n - cdist ?c ?E (unat idx)" using di lt by simp
    show ?thesis
    proof (cases "cdist ?c ?hn (unat d) < cdist ?c ?hn (unat ?i)")
      case True
      let ?m' = "nullOutCell ?i (cm_store d (cm_cell m ?i) m)"
      have cs': "m_cells ?m' = (?cs[unat d := ?cs ! unat ?i])[unat ?i := nullCell]"
        by (simp add: nullOutCell_def cm_cell_def)
      have il: "unat ?i < length ?cs" using ic less(3) by simp
      note M = hole_move [OF less(8) il id False, folded cs', unfolded less(3), OF True]
      have kn: "key_at (m_cells ?m') n = 0"
      proof -
        have "n \<noteq> unat d" using less(9,10) by auto
        then show ?thesis using less(12) less(3) less(6) ic by (simp add: cs' key_at_update nullCell_def)
      qed
      have "\<exists>m'. compact_loop hash ini ?i ?i ?m' = Some (True, m') \<and> length (m_cells m') = ?c \<and> m_sizeMask m' = mask b \<and>
        cm_size m' = cm_size ?m' - 1 \<and> maxLoad m' = maxLoad ?m' \<and> keys_ok (m_cells m') \<and> chains_ok hash (m_cells m') None \<and>
        map_of (entries (m_cells m')) = map_of (entries (m_cells ?m')) \<and>
        length (entries (m_cells m')) = length (entries (m_cells ?m'))"
        by (rule less(1) [OF dec less(2) _ _ less(5) ic ic M(1) _ lt less(11) kn])
          (use less(3,4) in \<open>simp_all add: nullOutCell_def\<close>)
      with M(2,3) unfold True show ?thesis by (simp add: nullOutCell_def)
    next
      case stay: False
      have hole': "hole_ok hash ?cs (unat d) (unat ?i)"
        by (rule hole_skip [OF less(8) i' id False]) (use stay less(3) in simp)
      have "cdist ?c ?E (unat d) \<le> cdist ?c ?E (unat ?i)" using di less(9) by simp
      from less(1) [OF dec less(2,3,4,5,6) ic hole' this lt less(11,12)] unfold stay show ?thesis by simp
    qed
  qed
qed

lemma delete_cell:
  assumes ok: "keys_ok cs" "chains_ok hash cs None" and i: "i < length cs" "key_at cs i = k" and k: "k \<noteq> 0"
  defines "cs' \<equiv> cs[i := nullCell]"
  shows "hole_ok hash cs' i i" "map_of (entries cs') = (map_of (entries cs))(k := None)"
    "Suc (length (entries cs')) = length (entries cs)"
proof -
  have len: "length cs' = length cs" by (simp add: cs'_def)
  have ka: "key_at cs' j = (if j = i then 0 else key_at cs j)" for j
    using i by (simp add: cs'_def key_at_update nullCell_def)
  have va: "cell_value (cs' ! j) = (if j = i then 0 else cell_value (cs ! j))" for j
    using i by (simp add: cs'_def nullCell_def nth_list_update_if)
  have ok': "keys_ok cs'" using ok(1) unfolding keys_ok_def len ka va by auto
  have "chains_ok hash cs' (Some i)"
  proof (rule chains_okI, unfold len)
    fix x j assume xj: "x < length cs" "j < length cs" "key_at cs' x \<noteq> 0"
      "cdist (length cs) (home hash (length cs) (key_at cs' x)) j < cdist (length cs) (home hash (length cs) (key_at cs' x)) x"
    then have "x \<noteq> i" by (auto simp: ka)
    with xj chains_okD [OF ok(2) xj(1,2)] show "Some i = Some j \<or> key_at cs' j \<noteq> 0" by (auto simp: ka)
  qed
  then show "hole_ok hash cs' i i" using ok' i(1) by (auto simp: hole_ok_def Let_def len ka)
  show "map_of (entries cs') = (map_of (entries cs))(k := None)"
  proof (rule ext)
    fix x
    show "map_of (entries cs') x = ((map_of (entries cs))(k := None)) x"
    proof (cases "x = k")
      case True
      have "key_at cs' j \<noteq> k" if "j < length cs" for j
        using that ok(1) i k by (auto simp: ka keys_ok_def)
      with True show ?thesis using cells_map_None [of cs' k] len by auto
    next
      case False
      have "(j < length cs' \<and> key_at cs' j = x \<and> cell_value (cs' ! j) = w) \<longleftrightarrow>
          (j < length cs \<and> key_at cs j = x \<and> cell_value (cs ! j) = w)" if "x \<noteq> 0" for j w
        using that False i by (cases "j = i") (auto simp: ka va len)
      then have "map_of (entries cs') x = Some w \<longleftrightarrow> map_of (entries cs) x = Some w" for w
        using cells_map_iff [OF ok', of x w] cells_map_iff [OF ok(1), of x w] by blast
      with False show ?thesis by (metis fun_upd_other not_None_eq)
    qed
  qed
  have "{j. j < length cs \<and> key_at cs j \<noteq> 0} = insert i {j. j < length cs' \<and> key_at cs' j \<noteq> 0}"
    using i k by (auto simp: len ka)
  then show "Suc (length (entries cs')) = length (entries cs)"
    by (simp add: length_entries card_insert_if ka)
qed

lemma erase_result:
  assumes inv: "cm_inv hash m" and k: "k \<noteq> 0"
  shows "cm_abs m k = None \<Longrightarrow> erase hash k m = Some (False, m)"
    and "cm_abs m k \<noteq> None \<Longrightarrow> \<exists>m'. erase hash k m = Some (True, m') \<and> cm_inv hash m' \<and>
      cm_abs m' = (cm_abs m)(k := None) \<and> maxLoad m' = maxLoad m"
proof -
  let ?cs = "m_cells m" and ?p = "(hash k - 1) AND m_sizeMask m"
  let ?B = "\<lambda>i. if key_at ?cs (unat i) = k then compactChain hash i (nullOutCell i m) else Some (False, m)"
  note S = search_result [OF inv k, where F = "\<lambda>idx. erase_loop hash k ?p idx m" and A = "Some (False, m)" and B = ?B]
  have step: "erase_loop hash k ?p idx m = (let i = (idx + 1) AND m_sizeMask m in
      if ?p = i then Some (False, m) else if ends_search ?cs k (unat i) then ?B i else erase_loop hash k ?p i m)" for idx
    by (subst erase_loop.simps) (simp add: Let_def ends_search_def key_at_def cm_cell_def)
  have e: "erase hash k m = erase_loop hash k ?p ?p m" using k by (simp add: erase_def Let_def)
  show "cm_abs m k = None \<Longrightarrow> erase hash k m = Some (False, m)" using S(2) [OF step] e k by auto
  assume "cm_abs m k \<noteq> None"
  then obtain v where "cm_abs m k = Some v" by blast
  then obtain i where i: "i < length ?cs" "key_at ?cs i = k" by (elim cm_abs_Some [OF inv])
  from inv obtain b where b: "b < 64" "length ?cs = 2 ^ b" "m_sizeMask m = mask b" "keys_ok ?cs"
      "chains_ok hash ?cs None" "unat (cm_size m) = cm_count m" "cm_count m \<le> unat (maxLoad m)"
      "unat (maxLoad m) < 2 ^ b" by (elim cm_invE)
  let ?i = "of_nat i :: u64" let ?m = "nullOutCell ?i m"
  have ui: "unat ?i = i" and er: "erase hash k m = compactChain hash ?i ?m"
    using S(1) [OF step i] e i(2) by auto
  have cs: "m_cells ?m = ?cs[i := nullCell]" by (simp add: nullOutCell_def ui)
  note D = delete_cell [OF b(4,5) i k, folded cs]
  obtain n where n: "n < length ?cs" "key_at ?cs n = 0" using null_exists [of m] b by auto
  then have ni: "n \<noteq> i" using i k by auto
  have ic: "i < 2 ^ b" and nc: "n < 2 ^ b" using i n b(2) by simp_all
  have ord: "cdist (2 ^ b) i i < cdist (2 ^ b) i n" using cdist_inj [OF ic ic nc] ni by auto
  have "\<exists>m'. compact_loop hash ?i ?i ?i ?m = Some (True, m') \<and> length (m_cells m') = 2 ^ b \<and> m_sizeMask m' = mask b \<and>
     cm_size m' = cm_size ?m - 1 \<and> maxLoad m' = maxLoad ?m \<and> keys_ok (m_cells m') \<and> chains_ok hash (m_cells m') None \<and>
     map_of (entries (m_cells m')) = map_of (entries (m_cells ?m)) \<and>
     length (entries (m_cells m')) = length (entries (m_cells ?m))"
    by (rule compact_loop_result [where n = n, OF b(1)])
      (use b(2,3) ic nc D(1) ord n ni i in \<open>simp_all add: ui cs key_at_update\<close>, simp_all add: nullOutCell_def b(3))
  then obtain m' where m': "compact_loop hash ?i ?i ?i ?m = Some (True, m')" "length (m_cells m') = 2 ^ b"
      "m_sizeMask m' = mask b" "cm_size m' = cm_size m - 1" "maxLoad m' = maxLoad m" "keys_ok (m_cells m')"
      "chains_ok hash (m_cells m') None" "map_of (entries (m_cells m')) = map_of (entries (m_cells ?m))"
      "length (entries (m_cells m')) = length (entries (m_cells ?m))"
    by (auto simp: nullOutCell_def)
  have cnt: "Suc (cm_count m') = cm_count m" using m'(9) D(3) by (simp add: cm_count_def)
  then have "unat (cm_size m) \<noteq> 0" using b(6) by simp
  then have "unat (cm_size m - 1) = unat (cm_size m) - 1" by (simp add: unat_minus_one unat_eq_0)
  then have "cm_inv hash m'" using m' b cnt by (auto simp: cm_inv_def)
  with m' D(2) er show "\<exists>m'. erase hash k m = Some (True, m') \<and> cm_inv hash m' \<and>
      cm_abs m' = (cm_abs m)(k := None) \<and> maxLoad m' = maxLoad m"
    by (auto simp: compactChain_def cm_abs_def)
qed

section \<open>The table as a bounded finite map\<close>

text \<open>
  What a client of the table relies on. \<open>look\<close>, \<open>put\<close> and \<open>del\<close> return no result when they do not
  terminate; null keys and values are refused.
\<close>

locale bounded_map =
  fixes tinv :: "'t \<Rightarrow> bool"
    and tmap :: "'t \<Rightarrow> u64 \<Rightarrow> u64 option"
    and load :: "'t \<Rightarrow> nat"
    and look :: "u64 \<Rightarrow> 't \<Rightarrow> u64 option"
    and put :: "u64 \<Rightarrow> u64 \<Rightarrow> 't \<Rightarrow> (bool \<times> 't) option"
    and del :: "u64 \<Rightarrow> 't \<Rightarrow> (bool \<times> 't) option"
  assumes look_value: "tinv t \<Longrightarrow> look k t = Some (case tmap t k of None \<Rightarrow> 0 | Some v \<Rightarrow> v)"
    and put_room: "tinv t \<Longrightarrow> k \<noteq> 0 \<Longrightarrow> v \<noteq> 0 \<Longrightarrow> card (dom (tmap t)) < load t \<Longrightarrow>
      \<exists>t'. put k v t = Some (True, t') \<and> tinv t' \<and> tmap t' = (tmap t)(k \<mapsto> v) \<and> load t' = load t"
    and put_full: "tinv t \<Longrightarrow> k = 0 \<or> v = 0 \<or> \<not> card (dom (tmap t)) < load t \<Longrightarrow> put k v t = Some (False, t)"
    and del_present: "tinv t \<Longrightarrow> tmap t k \<noteq> None \<Longrightarrow>
      \<exists>t'. del k t = Some (True, t') \<and> tinv t' \<and> tmap t' = (tmap t)(k := None) \<and> load t' = load t"
    and del_absent: "tinv t \<Longrightarrow> tmap t k = None \<Longrightarrow> del k t = Some (False, t)"
begin

fun step_op :: "u64 \<times> u64 option \<Rightarrow> 't \<Rightarrow> 't option" where
  "step_op (k, Some v) t = map_option snd (put k v t)"
| "step_op (k, None) t = map_option snd (del k t)"

fun run_ops :: "(u64 \<times> u64 option) list \<Rightarrow> 't \<Rightarrow> 't option" where
  "run_ops [] t = Some t"
| "run_ops (c # cs) t = (case step_op c t of None \<Rightarrow> None | Some t' \<Rightarrow> run_ops cs t')"

fun spec_step :: "nat \<Rightarrow> u64 \<times> u64 option \<Rightarrow> (u64 \<Rightarrow> u64 option) \<Rightarrow> u64 \<Rightarrow> u64 option" where
  "spec_step n (k, Some v) f = (if k = 0 \<or> v = 0 \<or> \<not> card (dom f) < n then f else f(k \<mapsto> v))"
| "spec_step n (k, None) f = f(k := None)"

lemma step_op_refines:
  assumes "tinv t"
  shows "\<exists>t'. step_op c t = Some t' \<and> tinv t' \<and> load t' = load t \<and> tmap t' = spec_step (load t) c (tmap t)"
proof (cases c)
  case (Pair k w)
  show ?thesis
  proof (cases w)
    case None
    show ?thesis
    proof (cases "tmap t k = None")
      case True
      then have "(tmap t)(k := None) = tmap t" by (simp add: fun_upd_idem)
      with Pair None del_absent [OF assms True] assms show ?thesis by simp
    next
      case False
      with Pair None del_present [OF assms False] show ?thesis by auto
    qed
  next
    case (Some v)
    with Pair put_room [OF assms, of k v] put_full [OF assms, of k v] assms show ?thesis by fastforce
  qed
qed

lemma run_ops_refines:
  "tinv t \<Longrightarrow> \<exists>t'. run_ops cs t = Some t' \<and> tinv t' \<and> load t' = load t \<and> tmap t' = fold (spec_step (load t)) cs (tmap t)"
proof (induction cs arbitrary: t)
  case (Cons c cs)
  from step_op_refines [OF Cons.prems, of c] Cons.IH show ?case by fastforce
qed simp

lemma look_after_ops:
  assumes "tinv t"
  shows "\<exists>t'. run_ops cs t = Some t' \<and>
    look k t' = Some (case fold (spec_step (load t)) cs (tmap t) k of None \<Rightarrow> 0 | Some v \<Rightarrow> v)"
  using run_ops_refines [OF assms, of cs] look_value by fastforce

end

lemma card_dom_entries:
  assumes "keys_ok cs"
  shows "card (dom (map_of (entries cs))) = length (entries cs)"
proof -
  let ?K = "{i. i < length cs \<and> key_at cs i \<noteq> 0}"
  have "dom (map_of (entries cs)) = key_at cs ` ?K" by (auto simp: dom_map_of_conv_image_fst set_entries image_iff)
  moreover have "inj_on (key_at cs) ?K" using assms by (auto simp: inj_on_def keys_ok_def)
  ultimately show ?thesis by (simp add: card_image length_entries)
qed

lemma cm_abs_0:
  assumes "cm_inv hash m"
  shows "cm_abs m 0 = None"
  by (simp add: cm_abs_def cells_map_None)

interpretation table: bounded_map "cm_inv hash" cm_abs "\<lambda>m. unat (maxLoad m)" "cm_get hash" "assign hash" "erase hash" for hash
proof
  fix t k v
  assume inv: "cm_inv hash t"
  have card: "card (dom (cm_abs t)) = cm_count t"
    using inv card_dom_entries [of "m_cells t"] by (simp add: cm_inv_def cm_abs_def cm_count_def)
  have le: "cm_count t \<le> unat (maxLoad t)" using inv by (simp add: cm_inv_def)
  show "cm_get hash k t = Some (case cm_abs t k of None \<Rightarrow> 0 | Some v \<Rightarrow> v)"
    using get_result [OF inv, of k] cm_abs_0 [OF inv] by (cases "k = 0") (simp_all add: cm_get_def)
  show "\<exists>t'. assign hash k v t = Some (True, t') \<and> cm_inv hash t' \<and> cm_abs t' = (cm_abs t)(k \<mapsto> v) \<and>
      unat (maxLoad t') = unat (maxLoad t)"
    if "k \<noteq> 0" "v \<noteq> 0" "card (dom (cm_abs t)) < unat (maxLoad t)"
    using assign_result(2) [OF inv that(1,2)] that(3) card by auto
  show "assign hash k v t = Some (False, t)" if "k = 0 \<or> v = 0 \<or> \<not> card (dom (cm_abs t)) < unat (maxLoad t)"
    using that assign_result(1) [OF inv, of k v] card le by (auto simp: assign_def)
  show "\<exists>t'. erase hash k t = Some (True, t') \<and> cm_inv hash t' \<and> cm_abs t' = (cm_abs t)(k := None) \<and>
      unat (maxLoad t') = unat (maxLoad t)" if "cm_abs t k \<noteq> None"
  proof -
    have "k \<noteq> 0" using that cm_abs_0 [OF inv] by auto
    from erase_result(2) [OF inv this that] show ?thesis by auto
  qed
  show "erase hash k t = Some (False, t)" if "cm_abs t k = None"
    using erase_result(1) [OF inv _ that] by (cases "k = 0") (auto simp: erase_def)
qed

section \<open>A new table\<close>

lemma nat_power_of_2: "0 < (n :: nat) \<Longrightarrow> \<exists>b. 2 ^ b \<le> n \<and> n < 2 ^ Suc b"
proof (induction n)
  case (Suc n)
  show ?case
  proof (cases "n = 0")
    case True
    then show ?thesis by (intro exI [of _ 0]) simp
  next
    case False
    with Suc obtain b where b: "2 ^ b \<le> n" "n < 2 ^ Suc b" by auto
    then have "2 ^ b \<le> Suc n \<and> Suc n < 2 ^ Suc b \<or> 2 ^ Suc b \<le> Suc n \<and> Suc n < 2 ^ Suc (Suc b)" by auto
    then show ?thesis by blast
  qed
qed simp

lemma isPowerOf2_cases:
  assumes "isPowerOf2 v" "v \<noteq> 0"
  obtains b where "b < 64" "v = 2 ^ b"
proof -
  have "0 < unat v" using assms(2) by (simp add: unat_gt_0)
  then obtain b where b: "2 ^ b \<le> unat v" "unat v < 2 ^ Suc b" using nat_power_of_2 by blast
  have b64: "b < 64"
  proof (rule ccontr)
    assume "\<not> b < 64"
    then have "(2::nat) ^ 64 \<le> 2 ^ b" by (intro power_increasing) auto
    with b(1) unsigned_less [of v, where ?'a = nat] show False by simp
  qed
  have bit: "bit w b" if "2 ^ b \<le> unat w" "unat w < 2 ^ Suc b" for w :: u64
  proof -
    have "unat w div 2 ^ b = 1" using that by (intro div_nat_eqI) auto
    then have "bit (unat w) b" by (simp add: bit_iff_odd)
    then show ?thesis by (simp add: bit_unsigned_iff)
  qed
  have "unat v = 2 ^ b"
  proof (rule ccontr)
    assume "unat v \<noteq> 2 ^ b"
    with b have "bit v b" "bit (v - 1) b"
      using assms(2) by (auto intro!: bit simp: unat_minus_one)
    then have "bit (v AND (v - 1)) b" by (simp add: bit_and_iff)
    with assms(1) show False by (simp add: isPowerOf2_def)
  qed
  then have "v = of_nat (2 ^ b)" by (metis of_nat_unat ucast_id)
  with that b64 show thesis by simp
qed

lemma clear_from_cells:
  assumes "idx + n = length (m_cells m)" "length (m_cells m) < 2 ^ 64"
  shows "clear_from idx n m = m\<lparr>m_cells := take idx (m_cells m) @ replicate n nullCell\<rparr>"
  using assms
proof (induction n arbitrary: idx m)
  case (Suc n)
  have u: "unat (of_nat idx :: u64) = idx" using Suc.prems by (simp add: unat_of_nat)
  have "take (Suc idx) ((m_cells m)[idx := nullCell]) = take idx (m_cells m) @ [nullCell]"
    using Suc.prems by (simp add: take_Suc_conv_app_nth)
  with Suc show ?case by (simp add: u cm_store_def)
qed simp

lemma newConcurrentMap_inv:
  assumes "isPowerOf2 capacity" "mload < capacity" "length fresh = unat capacity"
  shows "cm_inv hash (newConcurrentMap fresh capacity mload)" "cm_abs (newConcurrentMap fresh capacity mload) = Map.empty"
    "maxLoad (newConcurrentMap fresh capacity mload) = mload"
    "m_cells (newConcurrentMap fresh capacity mload) = replicate (unat capacity) nullCell"
proof -
  have nz: "capacity \<noteq> 0" using assms(2) by auto
  obtain b where b: "b < 64" "capacity = 2 ^ b" using isPowerOf2_cases [OF assms(1) nz] .
  have "(2::nat) ^ b < 2 ^ 64" using b(1) by (intro power_strict_increasing) auto
  then have "unat (of_nat (2 ^ b) :: u64) = 2 ^ b" by (simp add: unat_of_nat del: of_nat_power)
  then have c: "unat capacity = 2 ^ b" using b(2) by simp
  have lt: "unat capacity < 2 ^ 64" using unsigned_less [of capacity, where ?'a = nat] by simp
  have um: "unat (capacity - 1) + 1 = unat capacity" using nz by (simp add: unat_minus_one unat_gt_0)
  have "newConcurrentMap fresh capacity mload =
      \<lparr>cm_size = 0, maxLoad = mload, m_cells = replicate (unat capacity) nullCell, m_sizeMask = capacity - 1\<rparr>"
    using clear_from_cells [of 0 "unat capacity" "\<lparr>cm_size = 0, maxLoad = mload, m_cells = fresh, m_sizeMask = capacity - 1\<rparr>"]
      assms(3) lt um by (simp add: newConcurrentMap_def cm_clear_def)
  note e = this
  have ent: "entries (replicate n nullCell) = []" for n by (simp add: entries_def nullCell_def)
  have k0: "key_at (replicate n nullCell) i = 0" if "i < n" for n i using that by (simp add: key_at_def nullCell_def)
  have "keys_ok (replicate n nullCell)" "chains_ok hash (replicate n nullCell) None" for n
    using k0 by (auto simp: keys_ok_def chains_ok_def Let_def nullCell_def)
  moreover have "capacity - 1 = mask b" using b by (simp add: mask_eq_exp_minus_1)
  ultimately show "cm_inv hash (newConcurrentMap fresh capacity mload)"
    using b(1) assms(2) c unfolding e by (auto simp: cm_inv_def cm_count_def ent word_less_nat_alt)
  show "cm_abs (newConcurrentMap fresh capacity mload) = Map.empty" by (simp add: e cm_abs_def ent)
  show "maxLoad (newConcurrentMap fresh capacity mload) = mload"
    "m_cells (newConcurrentMap fresh capacity mload) = replicate (unat capacity) nullCell" by (simp_all add: e)
qed

section \<open>Properties\<close>

text \<open>A sequence of operations: \<open>Assign\<close> a key, or erase it.\<close>

datatype map_op = Assign u64 u64 | Erase u64

fun map_op_step :: "(u64 \<Rightarrow> u64) \<Rightarrow> map_op \<Rightarrow> ConcurrentMap \<Rightarrow> ConcurrentMap option" where
  "map_op_step hash (Assign k v) m = map_option snd (assign hash k v m)"
| "map_op_step hash (Erase k) m = map_option snd (erase hash k m)"

fun map_run :: "(u64 \<Rightarrow> u64) \<Rightarrow> map_op list \<Rightarrow> ConcurrentMap \<Rightarrow> ConcurrentMap option" where
  "map_run hash [] m = Some m"
| "map_run hash (c # cs) m = (case map_op_step hash c m of None \<Rightarrow> None | Some m' \<Rightarrow> map_run hash cs m')"

text \<open>The same on a finite map that takes no more than \<open>n\<close> keys.\<close>

fun map_spec :: "nat \<Rightarrow> map_op \<Rightarrow> (u64 \<Rightarrow> u64 option) \<Rightarrow> u64 \<Rightarrow> u64 option" where
  "map_spec n (Assign k v) f = (if k = 0 \<or> v = 0 \<or> \<not> card (dom f) < n then f else f(k \<mapsto> v))"
| "map_spec n (Erase k) f = f(k := None)"

fun op_pair :: "map_op \<Rightarrow> u64 \<times> u64 option" where
  "op_pair (Assign k v) = (k, Some v)"
| "op_pair (Erase k) = (k, None)"

lemma map_run_as_table: "map_run hash cs m = table.run_ops hash (map op_pair cs) m"
proof (induction cs arbitrary: m)
  case (Cons c cs)
  have "map_op_step hash c m = table.step_op hash (op_pair c) m" by (cases c) simp_all
  with Cons show ?case by (simp split: option.split)
qed simp

lemma map_spec_as_table: "fold (map_spec n) cs f = fold (table.spec_step n) (map op_pair cs) f"
proof (induction cs arbitrary: f)
  case (Cons c cs)
  have "map_spec n c f = table.spec_step n (op_pair c) f" by (cases c) simp_all
  with Cons show ?case by simp
qed simp

text \<open>C12: On a table of a power-of-two capacity above its load limit, every sequence of \<open>assign\<close> and
  \<open>erase\<close>, for any hash function, terminates and leaves a table in which \<open>get\<close> of any key returns
  what a finite map of at most \<open>maxLoad\<close> keys holds after the same sequence (null for a missing key): the
  chains the probing relies on survive every compaction.\<close>

theorem concurrent_map_refines_finite_map:
  assumes "isPowerOf2 capacity" "mload < capacity" "length fresh = unat capacity"
  shows "\<exists>m. map_run hash ops (newConcurrentMap fresh capacity mload) = Some m \<and>
     (\<forall>k. cm_get hash k m = Some (case fold (map_spec (unat mload)) ops Map.empty k of None \<Rightarrow> 0 | Some v \<Rightarrow> v))"
proof -
  note N = newConcurrentMap_inv(1) [OF assms, of hash] newConcurrentMap_inv(2,3) [OF assms]
  obtain m where "table.run_ops hash (map op_pair ops) (newConcurrentMap fresh capacity mload) = Some m"
      "cm_inv hash m" "cm_abs m = fold (table.spec_step (unat mload)) (map op_pair ops) Map.empty"
    using table.run_ops_refines [OF N(1), of "map op_pair ops"] N(2,3) by auto
  then show ?thesis
    using table.look_value unfolding map_run_as_table map_spec_as_table by auto
qed

definition demo_map_ops :: "map_op list" where
  "demo_map_ops = [Assign 4 40, Assign 8 80, Assign 1 10, Assign 9 90, Erase 4, Assign 8 81]"

lemma concurrent_map_refines_finite_map_witness:
  "isPowerOf2 4 \<and> (\<exists>m. map_run (\<lambda>k. k) demo_map_ops (newConcurrentMap (replicate 4 nullCell) 4 3) = Some m \<and>
     cm_get (\<lambda>k. k) 8 m = Some 81 \<and> cm_get (\<lambda>k. k) 4 m = Some 0 \<and> cm_get (\<lambda>k. k) 9 m = Some 0)"
proof -
  have p: "isPowerOf2 4" "(3 :: u64) < 4" "length (replicate 4 nullCell) = unat (4 :: u64)"
    by (simp_all add: isPowerOf2_def)
  obtain m where m: "map_run (\<lambda>k. k) demo_map_ops (newConcurrentMap (replicate 4 nullCell) 4 3) = Some m"
      "\<forall>k. cm_get (\<lambda>k. k) k m = Some (case fold (map_spec (unat (3 :: u64))) demo_map_ops Map.empty k of None \<Rightarrow> 0 | Some v \<Rightarrow> v)"
    using concurrent_map_refines_finite_map [OF p, of "\<lambda>k. k" demo_map_ops] by blast
  then show ?thesis using p(1) by (simp add: demo_map_ops_def)
qed

text \<open>\<open>isPowerOf2\<close> accepts exactly the powers of two and zero.\<close>

lemma isPowerOf2_iff: "isPowerOf2 v \<longleftrightarrow> v = 0 \<or> (\<exists>b < 64. v = 2 ^ b)"
proof
  show "isPowerOf2 v \<Longrightarrow> v = 0 \<or> (\<exists>b < 64. v = 2 ^ b)" using isPowerOf2_cases by blast
  assume "v = 0 \<or> (\<exists>b < 64. v = 2 ^ b)"
  then show "isPowerOf2 v"
  proof
    assume "\<exists>b < 64. v = 2 ^ b"
    then obtain b where "v = 2 ^ b" by blast
    then have "v AND (v - 1) = 2 ^ b AND mask b" by (simp add: mask_eq_exp_minus_1)
    also have "\<dots> = 0" by (rule bit_word_eqI) (auto simp: bit_and_iff bit_exp_iff bit_mask_iff)
    finally show ?thesis by (simp add: isPowerOf2_def)
  qed (simp add: isPowerOf2_def)
qed

end
