(* ===== verification/Linkable_Profiler.thy ===== *)
theory Linkable_Profiler
  imports Metric_Types
begin

text \<open>
  \<^verbatim>\<open>src/lib/linkable_profiler.c\<close>: the stack walk that runs inside the signal handler. libunwind and the
  OCaml runtime's frame descriptors are parameters (the record \<open>unwinder\<close>); the array the frames are
  written to is a list, and a write outside it is the value \<open>Inl FrameOverflow\<close>.
\<close>

section \<open>The walk\<close>

datatype ErrorType = SUCCESS | GET_CONTEXT_FAIL | INIT_LOCAL_FAIL | STEP_FAIL

record ErrorHolder =
  errorCode :: int
  err_type :: ErrorType

text \<open>
  \<open>unw_step\<close> moves a cursor and returns its code; \<open>in_ocaml\<close> is whether
  \<open>caml_find_code_fragment_by_pc\<close> finds a fragment; \<open>next_descriptor\<close> is
  \<open>caml_next_frame_descriptor\<close>, which yields the descriptor's return address and the updated pc and sp,
  or null.
\<close>

record 'c unwinder =
  unw_getcontext :: int
  unw_init_local :: "int \<times> 'c"
  unw_step :: "'c \<Rightarrow> int \<times> 'c"
  reg_ip :: "'c \<Rightarrow> u64"
  reg_sp :: "'c \<Rightarrow> u64"
  in_ocaml :: "u64 \<Rightarrow> bool"
  next_descriptor :: "u64 \<Rightarrow> u64 \<Rightarrow> (u64 \<times> u64 \<times> u64) option"

datatype walk_fault = FrameOverflow

definition put_frame :: "nat \<Rightarrow> bool \<Rightarrow> u64 \<Rightarrow> CallFrame list \<Rightarrow> walk_fault + CallFrame list" where
  "put_frame n foreign pc fs =
     (if n < length fs then Inr (fs[n := \<lparr>isForeign = foreign, frame = pc\<rparr>]) else Inl FrameOverflow)"

text \<open>One OCaml frame: the return address first when it is not the frame before, then the pc.\<close>

definition ocaml_frame :: "u64 \<Rightarrow> u64 \<Rightarrow> nat \<Rightarrow> CallFrame list \<Rightarrow> walk_fault + nat \<times> CallFrame list" where
  "ocaml_frame retaddr pc n fs =
     (case (if retaddr \<noteq> frame (fs ! (n - 1))
            then map_sum id (Pair (Suc n)) (put_frame n False retaddr fs) else Inr (n, fs)) of
        Inl e \<Rightarrow> Inl e
      | Inr (n, fs) \<Rightarrow> map_sum id (Pair (Suc n)) (put_frame n False pc fs))"

lemma ocaml_frame_mono: "ocaml_frame r pc n fs = Inr (n', fs') \<Longrightarrow> n < n'"
  by (auto simp: ocaml_frame_def put_frame_def split: if_splits sum.splits prod.splits)

function ocaml_loop :: "'c unwinder \<Rightarrow> bool \<Rightarrow> u64 \<Rightarrow> u64 \<Rightarrow> nat \<Rightarrow> CallFrame list
    \<Rightarrow> walk_fault + bool \<times> nat \<times> CallFrame list" where
  "ocaml_loop u first_ocaml_frame pc sp n fs =
     (if int n < MAX_FRAMES then
        case next_descriptor u pc sp of
          None \<Rightarrow> Inr (first_ocaml_frame, n, fs)
        | Some (retaddr, pc, sp) \<Rightarrow>
            (case ocaml_frame retaddr pc n fs of
               Inl e \<Rightarrow> Inl e
             | Inr (n, fs) \<Rightarrow> ocaml_loop u False pc sp n fs)
      else Inr (first_ocaml_frame, n, fs))"
  by pat_completeness auto
termination
  by (relation "measure (\<lambda>(u, b, pc, sp, n, fs). nat (MAX_FRAMES - int n))")
    (auto dest!: ocaml_frame_mono simp: MAX_FRAMES_def)

declare ocaml_loop.simps [simp del]

lemma ocaml_loop_mono: "ocaml_loop u b pc sp n fs = Inr (b', n', fs') \<Longrightarrow> n \<le> n'"
proof (induction u b pc sp n fs rule: ocaml_loop.induct)
  case (1 u b pc sp n fs)
  show ?case
  proof (cases "int n < MAX_FRAMES \<and> next_descriptor u pc sp \<noteq> None")
    case True
    then obtain r pc' sp' where nd: "next_descriptor u pc sp = Some (r, pc', sp')" by auto
    from 1(2) True nd obtain m gs where f: "ocaml_frame r pc' n fs = Inr (m, gs)"
        and l: "ocaml_loop u False pc' sp' m gs = Inr (b', n', fs')"
      by (subst (asm) ocaml_loop.simps) (auto split: sum.splits)
    from 1(1) [OF _ nd refl refl f refl l] True ocaml_frame_mono [OF f] show ?thesis by simp
  next
    case False
    with 1(2) show ?thesis by (subst (asm) ocaml_loop.simps) (auto split: if_splits option.splits)
  qed
qed

function unwind_loop :: "'c unwinder \<Rightarrow> 'c \<Rightarrow> ErrorHolder \<Rightarrow> nat \<Rightarrow> CallFrame list
    \<Rightarrow> walk_fault + nat \<times> ErrorHolder \<times> CallFrame list" where
  "unwind_loop u cursor holder n fs =
     (if int n < MAX_FRAMES then
        let (ret, cursor) = unw_step u cursor in
        if ret = 0 then Inr (n, holder, fs)
        else if ret < 0 then Inr (n, holder\<lparr>err_type := STEP_FAIL, errorCode := ret\<rparr>, fs)
        else let uw_ip = reg_ip u cursor; uw_sp = reg_sp u cursor in
          (case put_frame n (\<not> in_ocaml u uw_ip) uw_ip fs of
             Inl e \<Rightarrow> Inl e
           | Inr fs \<Rightarrow>
               if in_ocaml u uw_ip then
                 (case ocaml_loop u True uw_ip uw_sp (Suc n) fs of
                    Inl e \<Rightarrow> Inl e
                  | Inr (first_ocaml_frame, n, fs) \<Rightarrow>
                      if \<not> first_ocaml_frame then Inr (n, holder, fs) else unwind_loop u cursor holder n fs)
               else unwind_loop u cursor holder (Suc n) fs)
      else Inr (n, holder, fs))"
  by pat_completeness auto
termination
  by (relation "measure (\<lambda>(u, c, h, n, fs). nat (MAX_FRAMES - int n))")
    (auto dest!: ocaml_loop_mono simp: MAX_FRAMES_def)

declare unwind_loop.simps [simp del]

definition linkable_handle :: "'c unwinder \<Rightarrow> CallFrame list \<Rightarrow> ErrorHolder
    \<Rightarrow> walk_fault + nat \<times> ErrorHolder \<times> CallFrame list" where
  "linkable_handle u fs holder =
     (if unw_getcontext u < 0 then Inr (0, holder\<lparr>err_type := GET_CONTEXT_FAIL, errorCode := unw_getcontext u\<rparr>, fs)
      else let (ret, cursor) = unw_init_local u in
        if ret < 0 then Inr (0, holder\<lparr>err_type := INIT_LOCAL_FAIL, errorCode := ret\<rparr>, fs)
        else unwind_loop u cursor holder 0 fs)"

section \<open>Bounds of the walk\<close>

lemma put_frame_ok: "n < length fs \<Longrightarrow> put_frame n b pc fs = Inr (fs[n := \<lparr>isForeign = b, frame = pc\<rparr>])"
  by (simp add: put_frame_def)

lemma ocaml_frame_ok:
  assumes "Suc n < length fs"
  shows "\<exists>n' fs'. ocaml_frame r pc n fs = Inr (n', fs') \<and> n' \<le> n + 2 \<and> length fs' = length fs"
  using assms by (auto simp: ocaml_frame_def put_frame_ok)

lemma ocaml_loop_bound:
  "n \<le> 257 \<Longrightarrow> 257 \<le> length fs \<Longrightarrow>
     \<exists>b' n' fs'. ocaml_loop u b pc sp n fs = Inr (b', n', fs') \<and> n' \<le> 257 \<and> length fs' = length fs"
proof (induction u b pc sp n fs rule: ocaml_loop.induct)
  case (1 u b pc sp n fs)
  show ?case
  proof (cases "int n < MAX_FRAMES \<and> next_descriptor u pc sp \<noteq> None")
    case True
    then obtain r pc' sp' where nd: "next_descriptor u pc sp = Some (r, pc', sp')" by auto
    have n: "n < 256" using True by (simp add: MAX_FRAMES_def)
    then obtain m gs where f: "ocaml_frame r pc' n fs = Inr (m, gs)" and m: "m \<le> n + 2" "length gs = length fs"
      using ocaml_frame_ok [of n fs r pc'] 1(3) by auto
    have "m \<le> 257" using m n by simp
    with 1(1) [OF _ nd refl refl f refl] m 1(3) True obtain b' n' fs' where
        "ocaml_loop u False pc' sp' m gs = Inr (b', n', fs')" "n' \<le> 257" "length fs' = length fs" by auto
    then show ?thesis using True nd f by (subst ocaml_loop.simps) simp
  next
    case False
    with 1(2) show ?thesis by (subst ocaml_loop.simps) (auto split: option.splits)
  qed
qed

lemma unwind_loop_bound:
  "n \<le> 257 \<Longrightarrow> 257 \<le> length fs \<Longrightarrow>
     \<exists>n' h' fs'. unwind_loop u c h n fs = Inr (n', h', fs') \<and> n' \<le> 257 \<and> length fs' = length fs"
proof (induction u c h n fs rule: unwind_loop.induct)
  case (1 u c h n fs)
  obtain ret c' where s: "unw_step u c = (ret, c')" by (cases "unw_step u c")
  show ?case
  proof (cases "int n < MAX_FRAMES \<and> 0 < ret")
    case False
    with 1(3,4) s show ?thesis by (subst unwind_loop.simps) auto
  next
    case True
    then have n: "n < 256" by (simp add: MAX_FRAMES_def)
    let ?ip = "reg_ip u c'" and ?sp = "reg_sp u c'"
    let ?fs = "fs[n := \<lparr>isForeign = \<not> in_ocaml u ?ip, frame = ?ip\<rparr>]"
    have p: "put_frame n (\<not> in_ocaml u ?ip) ?ip fs = Inr ?fs" using n 1(4) by (simp add: put_frame_ok)
    show ?thesis
    proof (cases "in_ocaml u ?ip")
      case oc: True
      obtain b' n' fs' where l: "ocaml_loop u True ?ip ?sp (Suc n) ?fs = Inr (b', n', fs')"
          "n' \<le> 257" "length fs' = length fs"
        using ocaml_loop_bound [of "Suc n" ?fs u True ?ip ?sp] n 1(4) by auto
      have "b' \<Longrightarrow> \<exists>m h' gs. unwind_loop u c' h n' fs' = Inr (m, h', gs) \<and> m \<le> 257 \<and> length gs = length fs"
        using 1(1) [OF _ s [symmetric] refl _ _ refl refl p oc l(1) refl refl] True l(2,3) 1(4) by auto
      then show ?thesis using True s p oc l by (subst unwind_loop.simps) auto
    next
      case no: False
      have "\<exists>m h' gs. unwind_loop u c' h (Suc n) ?fs = Inr (m, h', gs) \<and> m \<le> 257 \<and> length gs = length fs"
        using 1(2) [OF _ s [symmetric] refl _ _ refl refl p no] True n 1(4) by auto
      then show ?thesis using True s p no by (subst unwind_loop.simps) auto
    qed
  qed
qed

section \<open>What the walk reports\<close>

text \<open>
  The stack as a list: the frames libunwind steps through and, from the first OCaml frame that has a
  descriptor on, the OCaml frames the descriptors lead to.
\<close>

fun ocaml_chain :: "'c unwinder \<Rightarrow> nat \<Rightarrow> u64 \<Rightarrow> u64 \<Rightarrow> u64 list" where
  "ocaml_chain u 0 pc sp = []"
| "ocaml_chain u (Suc k) pc sp =
     (case next_descriptor u pc sp of None \<Rightarrow> [] | Some (_, pc', sp') \<Rightarrow> pc' # ocaml_chain u k pc' sp')"

fun stack_walk :: "'c unwinder \<Rightarrow> nat \<Rightarrow> 'c \<Rightarrow> CallFrame list" where
  "stack_walk u 0 c = []"
| "stack_walk u (Suc k) c =
     (let (ret, c') = unw_step u c; ip = reg_ip u c'; f = \<lparr>isForeign = \<not> in_ocaml u ip, frame = ip\<rparr>;
          rest = (if in_ocaml u ip then ocaml_chain u k ip (reg_sp u c') else [])
      in if ret \<le> 0 then []
         else if rest = [] then f # stack_walk u k c'
         else f # map (\<lambda>pc. \<lparr>isForeign = False, frame = pc\<rparr>) rest)"

text \<open>The error record the walk leaves: set when a step of libunwind fails.\<close>

fun walk_holder :: "'c unwinder \<Rightarrow> nat \<Rightarrow> 'c \<Rightarrow> ErrorHolder \<Rightarrow> ErrorHolder" where
  "walk_holder u 0 c h = h"
| "walk_holder u (Suc k) c h =
     (let (ret, c') = unw_step u c; ip = reg_ip u c'
      in if ret = 0 then h
         else if ret < 0 then h\<lparr>err_type := STEP_FAIL, errorCode := ret\<rparr>
         else if in_ocaml u ip \<and> ocaml_chain u k ip (reg_sp u c') \<noteq> [] then h
         else walk_holder u k c' h)"

definition unbroken :: "'c unwinder \<Rightarrow> bool" where
  "unbroken u \<longleftrightarrow> (\<forall>pc sp r pc' sp'. next_descriptor u pc sp = Some (r, pc', sp') \<longrightarrow> r = pc)"

abbreviation ocaml_frame_of :: "u64 \<Rightarrow> CallFrame" where
  "ocaml_frame_of pc \<equiv> \<lparr>isForeign = False, frame = pc\<rparr>"

lemma ocaml_loop_chain:
  assumes u: "unbroken u"
  shows "frame (fs ! (n - 1)) = pc \<Longrightarrow> 0 < n \<Longrightarrow> n + k = 256 \<Longrightarrow> 256 \<le> length fs \<Longrightarrow>
     ocaml_loop u b pc sp n fs = (let ch = ocaml_chain u k pc sp in
       Inr (b \<and> ch = [], n + length ch, take n fs @ map ocaml_frame_of ch @ drop (n + length ch) fs))"
proof (induction k arbitrary: b pc sp n fs)
  case 0
  then show ?case by (subst ocaml_loop.simps) (simp add: MAX_FRAMES_def)
next
  case (Suc k)
  have n: "int n < MAX_FRAMES" using Suc.prems by (simp add: MAX_FRAMES_def)
  show ?case
  proof (cases "next_descriptor u pc sp")
    case None
    with n show ?thesis by (subst ocaml_loop.simps) simp
  next
    case (Some t)
    obtain r pc' sp' where t: "t = (r, pc', sp')" by (cases t)
    with Some u have r: "r = pc" unfolding unbroken_def by blast
    let ?fs = "fs[n := ocaml_frame_of pc']"
    have f: "ocaml_frame r pc' n fs = Inr (Suc n, ?fs)"
      using Suc.prems r by (simp add: ocaml_frame_def put_frame_ok)
    have l: "ocaml_loop u False pc' sp' (Suc n) ?fs = (let ch = ocaml_chain u k pc' sp' in
       Inr (False \<and> ch = [], Suc n + length ch, take (Suc n) ?fs @ map ocaml_frame_of ch @ drop (Suc n + length ch) ?fs))"
      by (rule Suc.IH) (use Suc.prems in simp_all)
    have "take (Suc n) ?fs = take n fs @ [ocaml_frame_of pc']"
      using Suc.prems by (simp add: take_Suc_conv_app_nth)
    then show ?thesis using n Some t f l by (subst ocaml_loop.simps) (simp add: Let_def)
  qed
qed

lemma unwind_loop_walk:
  assumes u: "unbroken u"
  shows "n + k = 256 \<Longrightarrow> 256 \<le> length fs \<Longrightarrow>
     unwind_loop u c h n fs = (let w = stack_walk u k c in
       Inr (n + length w, walk_holder u k c h, take n fs @ w @ drop (n + length w) fs))"
proof (induction k arbitrary: c n fs rule: less_induct)
  case (less k)
  show ?case
  proof (cases k)
    case 0
    with less.prems show ?thesis by (subst unwind_loop.simps) (simp add: MAX_FRAMES_def)
  next
    case (Suc j)
    then have n: "int n < MAX_FRAMES" "n < length fs" using less.prems by (simp_all add: MAX_FRAMES_def)
    obtain ret c' where s: "unw_step u c = (ret, c')" by (cases "unw_step u c")
    let ?ip = "reg_ip u c'" and ?sp = "reg_sp u c'"
    let ?f = "\<lparr>isForeign = \<not> in_ocaml u ?ip, frame = ?ip\<rparr>"
    let ?fs = "fs[n := ?f]"
    have tk: "take (Suc n) ?fs = take n fs @ [?f]" using n by (simp add: take_Suc_conv_app_nth)
    have IH: "unwind_loop u c' h (Suc n) ?fs = (let w = stack_walk u j c' in
       Inr (Suc n + length w, walk_holder u j c' h, take (Suc n) ?fs @ w @ drop (Suc n + length w) ?fs))"
      by (rule less.IH) (use less.prems Suc in simp_all)
    have p: "put_frame n (\<not> in_ocaml u ?ip) ?ip fs = Inr ?fs" using n by (simp add: put_frame_ok)
    let ?ch = "ocaml_chain u j ?ip ?sp"
    have l: "ocaml_loop u True ?ip ?sp (Suc n) ?fs = Inr (?ch = [], Suc n + length ?ch,
        take (Suc n) ?fs @ map ocaml_frame_of ?ch @ drop (Suc n + length ?ch) ?fs)"
      using ocaml_loop_chain [OF u, of ?fs "Suc n" ?ip j] less.prems Suc n by (simp add: Let_def)
    consider "ret \<le> 0" | "0 < ret" "in_ocaml u ?ip" "?ch \<noteq> []" | "0 < ret" "in_ocaml u ?ip" "?ch = []"
      | "0 < ret" "\<not> in_ocaml u ?ip" by linarith
    then show ?thesis
    proof cases
      case 1
      with n s Suc show ?thesis by (subst unwind_loop.simps) auto
    next
      case 2
      with n s Suc p l tk show ?thesis by (subst unwind_loop.simps) (simp add: Let_def)
    next
      case 3
      with l tk upd_conv_take_nth_drop [OF n(2), of ?f] have "ocaml_loop u True ?ip ?sp (Suc n) ?fs = Inr (True, Suc n, ?fs)"
        by simp
      with 3 n s Suc p tk IH show ?thesis by (subst unwind_loop.simps) (auto simp: Let_def)
    next
      case 4
      with n s Suc p tk IH show ?thesis by (subst unwind_loop.simps) (auto simp: Let_def)
    qed
  qed
qed

lemma handle_walk:
  assumes "unbroken u" "0 \<le> unw_getcontext u" "unw_init_local u = (ret, cursor)" "0 \<le> ret"
    and "MAX_FRAMES \<le> int (length fs)"
  shows "linkable_handle u fs holder = (let w = stack_walk u (nat MAX_FRAMES) cursor in
     Inr (length w, walk_holder u (nat MAX_FRAMES) cursor holder, w @ drop (length w) fs))"
  using unwind_loop_walk [OF assms(1), of 0 256 fs cursor holder] assms(2-5)
  by (auto simp: linkable_handle_def MAX_FRAMES_def Let_def)

lemma stack_walk_length: "length (stack_walk u k c) \<le> k"
proof (induction k arbitrary: c)
  case (Suc k)
  have "length (ocaml_chain u k pc sp) \<le> k" for pc sp
    by (induction k arbitrary: pc sp) (auto split: option.split)
  with Suc show ?case by (auto simp: Let_def split: prod.split)
qed simp

section \<open>Properties\<close>

text \<open>C23: Whatever libunwind and the OCaml runtime return, the walk stops, reports at most \<open>MAX_FRAMES + 1\<close>
  frames, and touches no element past index \<open>MAX_FRAMES\<close>: an array of \<open>MAX_FRAMES + 1\<close> frames is enough.\<close>

theorem linkable_handle_bound:
  assumes "MAX_FRAMES + 1 \<le> int (length fs)"
  shows "\<exists>n h gs. linkable_handle u fs holder = Inr (n, h, gs) \<and> int n \<le> MAX_FRAMES + 1 \<and> length gs = length fs"
proof -
  have "257 \<le> length fs" using assms by (simp add: MAX_FRAMES_def)
  then have "\<exists>n' h' fs'. unwind_loop u c holder 0 fs = Inr (n', h', fs') \<and> n' \<le> 257 \<and> length fs' = length fs" for c
    by (intro unwind_loop_bound) simp_all
  then show ?thesis by (fastforce simp: linkable_handle_def MAX_FRAMES_def split: prod.split)
qed

text \<open>A stack whose OCaml return addresses never match the frame before: every descriptor is two frames.\<close>

definition broken_stack :: "unit unwinder" where
  "broken_stack = \<lparr>unw_getcontext = 0, unw_init_local = (0, ()), unw_step = (\<lambda>c. (1, c)), reg_ip = (\<lambda>_. 1),
     reg_sp = (\<lambda>_. 0), in_ocaml = (\<lambda>_. True), next_descriptor = (\<lambda>_ _. Some (0, 1, 0))\<rparr>"

lemma linkable_handle_bound_witness:
  "\<exists>n h gs. linkable_handle broken_stack (replicate 257 zeroFrame) \<lparr>errorCode = 0, err_type = SUCCESS\<rparr> = Inr (n, h, gs) \<and>
     int n \<le> MAX_FRAMES + 1 \<and> length gs = 257"
  using linkable_handle_bound [of "replicate 257 zeroFrame" broken_stack "\<lparr>errorCode = 0, err_type = SUCCESS\<rparr>"]
  by (simp add: MAX_FRAMES_def)

text \<open>C17: On a stack whose frame descriptors chain up, the walk writes exactly the frames of the stack, libunwind's
  first and then the OCaml ones, cut off at \<open>MAX_FRAMES\<close>, leaves the rest of the array alone and sets the
  error record exactly when a step of libunwind failed on the way.\<close>

theorem linkable_handle_reports_stack:
  assumes "unbroken u" "0 \<le> unw_getcontext u" "unw_init_local u = (ret, cursor)" "0 \<le> ret"
    and "MAX_FRAMES \<le> int (length fs)"
  shows "linkable_handle u fs holder = (let w = stack_walk u (nat MAX_FRAMES) cursor in
     Inr (length w, walk_holder u (nat MAX_FRAMES) cursor holder, w @ drop (length w) fs))"

  by (rule handle_walk [OF assms])

definition demo_stack :: "nat unwinder" where
  "demo_stack = \<lparr>unw_getcontext = 0, unw_init_local = (0, 0), unw_step = (\<lambda>c. (if c < 2 then 1 else 0, Suc c)),
     reg_ip = (\<lambda>c. of_nat (10 * c)), reg_sp = (\<lambda>_. 0), in_ocaml = (\<lambda>pc. pc = 20),
     next_descriptor = (\<lambda>pc sp. if pc = 20 then Some (20, 21, 0) else if pc = 21 then Some (21, 22, 0) else None)\<rparr>"

lemma linkable_handle_reports_stack_witness:
  "unbroken demo_stack \<and>
   (\<exists>h gs. linkable_handle demo_stack (replicate 256 zeroFrame) \<lparr>errorCode = 0, err_type = SUCCESS\<rparr> =
     Inr (4, h, [\<lparr>isForeign = True, frame = 10\<rparr>, \<lparr>isForeign = False, frame = 20\<rparr>,
       \<lparr>isForeign = False, frame = 21\<rparr>, \<lparr>isForeign = False, frame = 22\<rparr>] @ gs))"
proof -
  have u: "unbroken demo_stack" by (auto simp: unbroken_def demo_stack_def split: if_splits)
  have w: "stack_walk demo_stack (Suc (Suc (Suc (Suc (Suc k))))) 0 =
      [\<lparr>isForeign = True, frame = 10\<rparr>, \<lparr>isForeign = False, frame = 20\<rparr>,
       \<lparr>isForeign = False, frame = 21\<rparr>, \<lparr>isForeign = False, frame = 22\<rparr>]" for k
    by (simp add: demo_stack_def Let_def)
  have "nat MAX_FRAMES = Suc (Suc (Suc (Suc (Suc 251))))" by (simp add: MAX_FRAMES_def)
  with w [of 251] have w': "stack_walk demo_stack (nat MAX_FRAMES) 0 =
      [\<lparr>isForeign = True, frame = 10\<rparr>, \<lparr>isForeign = False, frame = 20\<rparr>,
       \<lparr>isForeign = False, frame = 21\<rparr>, \<lparr>isForeign = False, frame = 22\<rparr>]" by (simp only:)
  have "0 \<le> unw_getcontext demo_stack" "unw_init_local demo_stack = (0, 0)" by (simp_all add: demo_stack_def)
  from linkable_handle_reports_stack [OF u this, of "replicate 256 zeroFrame" "\<lparr>errorCode = 0, err_type = SUCCESS\<rparr>"] u w'
  show ?thesis by (auto simp: MAX_FRAMES_def Let_def)
qed

lemma broken_loop:
  "k \<le> 127 \<Longrightarrow> length fs = 256 \<Longrightarrow> frame (fs ! (254 - 2 * k)) = 1 \<Longrightarrow>
     ocaml_loop broken_stack b 1 sp (255 - 2 * k) fs = Inl FrameOverflow"
proof (induction k arbitrary: b sp fs)
  case 0
  then show ?case
    by (subst ocaml_loop.simps) (simp add: MAX_FRAMES_def broken_stack_def ocaml_frame_def put_frame_def)
next
  case (Suc k)
  let ?n = "255 - 2 * Suc k"
  let ?fs = "fs[?n := ocaml_frame_of 0, Suc ?n := ocaml_frame_of 1]"
  have n: "Suc (Suc ?n) = 255 - 2 * k" "?n < 254" "?n - 1 = 254 - 2 * Suc k" "Suc ?n = 254 - 2 * k" using Suc.prems(1) by auto
  have f: "ocaml_frame 0 1 ?n fs = Inr (Suc (Suc ?n), ?fs)"
    using Suc.prems n(2) unfolding ocaml_frame_def n(3) by (simp add: put_frame_ok)
  have "ocaml_loop broken_stack False 1 0 (255 - 2 * k) ?fs = Inl FrameOverflow"
    by (rule Suc.IH) (use Suc.prems n(2,4) in \<open>auto simp: n(4) [symmetric]\<close>)
  then show ?case
    using f n(1,2) by (subst ocaml_loop.simps) (simp add: MAX_FRAMES_def broken_stack_def)
qed

text \<open>The array the signal handler passes has \<open>MAX_FRAMES\<close> elements, one too few: with broken return
  addresses the inner loop stores two frames per check of the bound and writes past its end.\<close>

lemma linkable_handle_overflows:
  assumes "int (length fs) = MAX_FRAMES"
  shows "linkable_handle broken_stack fs holder = Inl FrameOverflow"
proof -
  let ?fs = "fs[0 := ocaml_frame_of 1]"
  have "length fs = 256" using assms by (simp add: MAX_FRAMES_def)
  then have "ocaml_loop broken_stack True 1 0 (255 - 2 * 127) ?fs = Inl FrameOverflow"
    by (intro broken_loop) (auto simp: hd_conv_nth)
  then have l: "ocaml_loop broken_stack True 1 0 (Suc 0) ?fs = Inl FrameOverflow" by simp
  have "unwind_loop broken_stack () holder 0 fs = Inl FrameOverflow"
    using \<open>length fs = 256\<close> l by (subst unwind_loop.simps)
      (simp add: MAX_FRAMES_def put_frame_def broken_stack_def)
  then show ?thesis by (simp add: linkable_handle_def) (simp add: broken_stack_def)
qed

lemma linkable_handle_overflows_witness:
  "linkable_handle broken_stack (replicate 256 zeroFrame) \<lparr>errorCode = 0, err_type = SUCCESS\<rparr> = Inl FrameOverflow"
  by (rule linkable_handle_overflows) (simp add: MAX_FRAMES_def)

end
