(* ===== verification/Signal_Capture.thy ===== *)
theory Signal_Capture
  imports Linkable_Profiler Circular_Queue
begin

text \<open>
  The signal handler proper, \<open>Profiler::handle\<close> of \<^verbatim>\<open>src/lib/profiler.cpp\<close>: it walks the stack into a local
  array and pushes the trace onto the stack ring. \<open>unw_strerror\<close>, the clock, the time-stamp counter and the
  thread id are arguments; \<open>junk\<close> is what the uninitialised array holds.
\<close>

definition SIGPROF :: int where "SIGPROF = 27"
definition SIGALRM :: int where "SIGALRM = 14"

datatype capture_fault = WalkFault walk_fault | PushFault queue_fault

fun errorFunctionName :: "ErrorType \<Rightarrow> string" where
  "errorFunctionName GET_CONTEXT_FAIL = ''unw_getcontext''"
| "errorFunctionName INIT_LOCAL_FAIL = ''unw_init_local''"
| "errorFunctionName STEP_FAIL = ''unw_step''"
| "errorFunctionName _ = ''Unknown''"

definition pushError :: "QueueSizes \<Rightarrow> (int \<Rightarrow> string) \<Rightarrow> ErrorHolder \<Rightarrow> CircularQueue \<Rightarrow> CircularQueue" where
  "pushError sz strerror holder q =
     snd (pushNotification2 sz USER_ERROR
       (''in linkable_handle for '' @ errorFunctionName (err_type holder) @ '': '' @ strerror (errorCode holder)) q)"

definition handle_signal :: "QueueSizes \<Rightarrow> (int \<Rightarrow> string) \<Rightarrow> 'c unwinder \<Rightarrow> CallFrame list \<Rightarrow> timespec \<Rightarrow>
    u64 \<Rightarrow> u64 \<Rightarrow> u64 \<Rightarrow> int \<Rightarrow> CircularQueue \<Rightarrow> capture_fault + CircularQueue" where
  "handle_signal sz strerror u junk now start_ts stack_ts tid sig q =
     (if \<not> (sig = SIGPROF \<or> sig = SIGALRM)
      then Inr (snd (pushNotification sz USER_ERROR ''Signal number out of range: '' sig q))
      else case linkable_handle u junk \<lparr>errorCode = 0, err_type = SUCCESS\<rparr> of
        Inl e \<Rightarrow> Inl (WalkFault e)
      | Inr (n, holder, fs) \<Rightarrow>
          (let is_error = err_type holder \<noteq> SUCCESS;
               q = (if is_error then pushError sz strerror holder q else q);
               trace = \<lparr>num_frames = (if is_error then - 1 * int n else int n), ct_threadId = tid, frames = fs\<rparr>
           in case pushStackTrace sz now trace sig 0 (stack_ts - start_ts) q of
                Inl e \<Rightarrow> Inl (PushFault e)
              | Inr (enqueued, q) \<Rightarrow>
                  if \<not> enqueued then
                    if sig = SIGPROF then Inr (q\<lparr>cputimeFailures := cputimeFailures q + 1\<rparr>)
                    else Inr (q\<lparr>wallclockFailures := wallclockFailures q + 1\<rparr>)
                  else Inr q))"

lemma failure_counters_keep [simp]:
  "cq_inv sz mf (q\<lparr>cputimeFailures := n\<rparr>) = cq_inv sz mf q" "cq_inv sz mf (q\<lparr>wallclockFailures := n\<rparr>) = cq_inv sz mf q"
  "main_events sz (q\<lparr>cputimeFailures := n\<rparr>) = main_events sz q" "main_events sz (q\<lparr>wallclockFailures := n\<rparr>) = main_events sz q"
  by (simp_all add: cq_inv_def frames_ok_def live_def carries_trace_def slot_def main_events_def)

lemma failure_counters_stack [simp]:
  "stack_events sz (q\<lparr>cputimeFailures := n\<rparr>) = stack_events sz q" "stack_events sz (q\<lparr>wallclockFailures := n\<rparr>) = stack_events sz q"
  by (rule stack_events_cong; simp)+

text \<open>What the handler reports for a walk that gave \<open>w\<close> and left \<open>holder\<close>.\<close>

definition captured_trace :: "nat \<Rightarrow> u64 \<Rightarrow> ErrorHolder \<Rightarrow> CallFrame list \<Rightarrow> CallTrace" where
  "captured_trace mf tid holder w =
     (if err_type holder = SUCCESS
      then \<lparr>num_frames = int (length w), ct_threadId = tid, frames = w @ replicate (mf - length w) zeroFrame\<rparr>
      else \<lparr>num_frames = - int (length w), ct_threadId = tid, frames = replicate mf zeroFrame\<rparr>)"

lemma pushError_keeps:
  assumes "cq_inv sz mf q"
  shows "cq_inv sz mf (pushError sz strerror h q)" "stack_events sz (pushError sz strerror h q) = stack_events sz q"
  using push_main_keeps(1,3) [OF assms, of "RecordNotification USER_ERROR
    (''in linkable_handle for '' @ errorFunctionName (err_type h) @ '': '' @ strerror (errorCode h)) 0"]
  by (simp_all add: pushError_def pushNotification2_def)

text \<open>C14: On a stack that chains up, where \<open>unw_getcontext\<close> and \<open>unw_init_local\<close> succeed, and with a queue built for at
  least \<open>MAX_FRAMES\<close> frames (the default, not every configuration), a profiling signal does not fault and adds exactly one trace to the stack ring, or drops it when the ring is full: the frames of the
  stack with the right thread, signal and duration. If the walk ended in an error the trace
  carries the negated number of frames and its frames are all zero, those already walked being lost.\<close>

theorem handle_signal_captures:
  assumes "cq_inv sz mf q" "nat MAX_FRAMES \<le> mf" "sig = SIGPROF \<or> sig = SIGALRM"
    and "unbroken u" "0 \<le> unw_getcontext u" "unw_init_local u = (ret, cursor)" "0 \<le> ret"
    and "int (length junk) = MAX_FRAMES"
  shows "\<exists>q'. handle_signal sz strerror u junk now start_ts stack_ts tid sig q = Inr q' \<and> cq_inv sz mf q' \<and>
     stack_events sz q' = take (stackSize sz) (stack_events sz q @ [RecordStackTrace now
       (captured_trace mf tid (walk_holder u (nat MAX_FRAMES) cursor \<lparr>errorCode = 0, err_type = SUCCESS\<rparr>)
          (stack_walk u (nat MAX_FRAMES) cursor)) sig 0 (stack_ts - start_ts)])"
proof -
  let ?w = "stack_walk u (nat MAX_FRAMES) cursor"
  let ?h = "walk_holder u (nat MAX_FRAMES) cursor \<lparr>errorCode = 0, err_type = SUCCESS\<rparr>"
  let ?fs = "?w @ drop (length ?w) junk" and ?err = "err_type ?h \<noteq> SUCCESS"
  let ?q = "if ?err then pushError sz strerror ?h q else q"
  let ?t = "\<lparr>num_frames = (if ?err then - 1 * int (length ?w) else int (length ?w)), ct_threadId = tid, frames = ?fs\<rparr>"
  have lw: "length ?w \<le> 256" using stack_walk_length [of u "nat MAX_FRAMES" cursor] by (simp add: MAX_FRAMES_def)
  have walk: "linkable_handle u junk \<lparr>errorCode = 0, err_type = SUCCESS\<rparr> = Inr (length ?w, ?h, ?fs)"
    using handle_walk [OF assms(4-7)] assms(8) by (simp add: Let_def)
  have inv: "cq_inv sz mf ?q" and st: "stack_events sz ?q = stack_events sz q"
    using pushError_keeps [OF assms(1)] assms(1) by auto
  have fits: "trace_fits mf ?t" using lw assms(2) by (auto simp: trace_fits_def MAX_FRAMES_def)
  have sent: "sent_trace mf ?t = captured_trace mf tid ?h ?w"
    by (auto simp: sent_trace_def captured_trace_def)
  obtain r q' where p: "pushStackTrace sz now ?t sig 0 (stack_ts - start_ts) ?q = Inr (r, q')" and "cq_inv sz mf q'"
      and s: "stack_events sz q' = take (stackSize sz) (stack_events sz ?q @
        [RecordStackTrace now (sent_trace mf ?t) sig 0 (stack_ts - start_ts)])"
    using pushStackTrace_keeps [OF inv fits, of now sig 0 "stack_ts - start_ts"] by metis
  moreover have "handle_signal sz strerror u junk now start_ts stack_ts tid sig q =
      (if r then Inr q' else if sig = SIGPROF then Inr (q'\<lparr>cputimeFailures := cputimeFailures q' + 1\<rparr>)
       else Inr (q'\<lparr>wallclockFailures := wallclockFailures q' + 1\<rparr>))"
    using assms(3) walk p by (simp add: handle_signal_def Let_def)
  ultimately show ?thesis unfolding sent st by (auto intro!: exI)
qed

lemma handle_signal_captures_witness:
  "\<exists>q q' t. newCircularQueue queueSizes 256 = Inr q \<and>
     handle_signal queueSizes (\<lambda>_. []) demo_stack (replicate 256 zeroFrame) demo_time 5 9 77 SIGPROF q = Inr q' \<and>
     stack_events queueSizes q' = [RecordStackTrace demo_time t SIGPROF 0 4] \<and> ct_threadId t = 77"
proof -
  obtain q where q: "newCircularQueue queueSizes 256 = Inr q" by (simp add: newCircularQueue_def)
  note I = newCircularQueue_inv [OF q]
  have u: "unbroken demo_stack" "0 \<le> unw_getcontext demo_stack" "unw_init_local demo_stack = (0, 0)"
    by (auto simp: unbroken_def demo_stack_def split: if_splits)
  have mf: "nat MAX_FRAMES \<le> nat 256" "int (length (replicate 256 zeroFrame)) = MAX_FRAMES"
    and sig: "SIGPROF = SIGPROF \<or> SIGPROF = SIGALRM" by (simp_all add: MAX_FRAMES_def)
  have "take (stackSize queueSizes) [e] = [e]" for e :: QueueEvent
    by (simp add: queueSizes_def StackQueueSize_def)
  with handle_signal_captures [OF I(1) mf(1) sig u order_refl mf(2), of "\<lambda>_. []" demo_time 5 9 77] q I(4) show ?thesis
    by (fastforce simp: captured_trace_def)
qed

end
