(* ===== verification/Config.thy ===== *)
theory Config
  imports Metric_Types
begin

text \<open>
  \<^verbatim>\<open>src/lib/lib_opsian.cpp\<close> and \<open>ConfigurationOptions\<close> of \<^verbatim>\<open>src/lib/globals.h\<close>: the option string of the
  environment variable \<open>OPSIAN_OPTS\<close>, its parser, the substitution of the executable's name, the first
  argument and the process id, and what a fork does to the configuration. A C string is the list of its
  characters before the terminating null; a pointer into the option string is an offset.
\<close>

section \<open>Options\<close>

record ConfigurationOptions =
  logFilePath :: string
  host :: string
  port :: string
  maxFramesToCapture :: int
  apiKey :: string
  agentId :: string
  debugLogPath :: string
  errorLogPath :: string
  applicationVersion :: string
  customCertificateFile :: string
  onPremHost :: bool
  logCorruption :: bool
  prometheusEnabled :: bool
  prometheusHost :: string
  prometheusPorts :: "int list"
  prometheusSegment :: string
  prometheusProcessSampleRate :: int
  prometheusElapsedSampleRate :: int

definition ON_PREM_HOST_DEFAULT :: string where "ON_PREM_HOST_DEFAULT = ''N''"

definition newConfigurationOptions :: ConfigurationOptions where
  "newConfigurationOptions = \<lparr>logFilePath = [], host = ''collector.opsian.com'', port = ''50052'',
     maxFramesToCapture = MAX_FRAMES, apiKey = [], agentId = [], debugLogPath = [], errorLogPath = [],
     applicationVersion = [], customCertificateFile = [], onPremHost = (ON_PREM_HOST_DEFAULT = ''Y''),
     logCorruption = False, prometheusEnabled = False, prometheusHost = [], prometheusPorts = [],
     prometheusSegment = [], prometheusProcessSampleRate = 100, prometheusElapsedSampleRate = 100\<rparr>"

datatype config_fault = LengthError

section \<open>Library functions the parser uses\<close>

text \<open>\<open>strchr\<close> from an offset, as an offset.\<close>

definition strchr :: "string \<Rightarrow> nat \<Rightarrow> char \<Rightarrow> nat option" where
  "strchr s off c =
     (let n = off + length (takeWhile (\<lambda>x. x \<noteq> c) (drop off s)) in if n < length s then Some n else None)"

text \<open>\<open>strstr(key, name) == key\<close>: the first occurrence is at the start exactly when \<open>name\<close> is a prefix.\<close>

definition starts_with :: "string \<Rightarrow> nat \<Rightarrow> string \<Rightarrow> bool" where
  "starts_with s key name = (take (length name) (drop key s) = name)"

definition is_space :: "char \<Rightarrow> bool" where
  "is_space c = (c \<in> {CHR '' '', CHR 0x09, CHR 0x0A, CHR 0x0B, CHR 0x0C, CHR 0x0D})"

definition is_digit :: "char \<Rightarrow> bool" where
  "is_digit c = (48 \<le> (of_char c :: nat) \<and> (of_char c :: nat) \<le> 57)"

definition digits_value :: "string \<Rightarrow> int" where
  "digits_value ds = foldl (\<lambda>n d. 10 * n + (of_char d - 48)) 0 ds"

text \<open>\<open>atoi\<close> of glibc: \<open>strtol\<close>, which saturates at 64 bits, cut to an \<open>int\<close>.\<close>

definition atoi :: "string \<Rightarrow> int" where
  "atoi s =
     (let s = dropWhile is_space s;
          neg = (s \<noteq> [] \<and> hd s = CHR ''-'');
          s = (if s \<noteq> [] \<and> (hd s = CHR ''-'' \<or> hd s = CHR ''+'') then tl s else s);
          n = digits_value (takeWhile is_digit s);
          v = (if neg then max (- n) (- (2 ^ 63)) else min n (2 ^ 63 - 1))
      in sint (word_of_int v :: i32))"

lemma tl_dropWhile_less: "s \<noteq> [] \<Longrightarrow> length (dropWhile P s) - Suc 0 < length s"
  using length_dropWhile_le [of P s] by (cases s) (auto simp: less_Suc_eq_le)

text \<open>\<open>std::getline\<close> with a delimiter, until the stream ends.\<close>

function getlines :: "char \<Rightarrow> string \<Rightarrow> string list" where
  "getlines d s =
     (if s = [] then []
      else let seg = takeWhile (\<lambda>c. c \<noteq> d) s; rest = dropWhile (\<lambda>c. c \<noteq> d) s
        in if rest = [] then [seg] else seg # getlines d (tl rest))"
  by pat_completeness auto
termination
  by (relation "measure (\<lambda>(d, s). length s)") (auto intro: tl_dropWhile_less)

declare getlines.simps [simp del]

section \<open>The parser\<close>

definition max_size :: u64 where "max_size = 0x7fffffffffffffff"

text \<open>
  The length is computed as a \<open>size_t\<close>; \<open>string::assign\<close> throws when it exceeds \<open>max_size\<close>.
\<close>

definition assign_range :: "string \<Rightarrow> nat \<Rightarrow> nat option \<Rightarrow> config_fault + string" where
  "assign_range opts v next =
     (case next of
        None \<Rightarrow> Inr (drop v opts)
      | Some n \<Rightarrow> (let size = word_of_int (int n - int v) :: u64 in
          if size > max_size then Inl LengthError else Inr (take (unat size) (drop v opts))))"

definition char_at :: "string \<Rightarrow> nat \<Rightarrow> char" where
  "char_at s i = (if i < length s then s ! i else CHR 0x00)"

definition yes :: "char \<Rightarrow> bool" where "yes c = (c = CHR ''y'' \<or> c = CHR ''Y'')"

definition assign_option :: "string \<Rightarrow> nat \<Rightarrow> nat \<Rightarrow> nat option \<Rightarrow> ConfigurationOptions
    \<Rightarrow> config_fault + ConfigurationOptions" where
  "assign_option opts key v next cfg =
     (let starts = starts_with opts key; range = assign_range opts v next; num = atoi (drop v opts) in
      if starts ''__logPath'' then map_sum id (\<lambda>s. cfg\<lparr>logFilePath := s\<rparr>) range
      else if starts ''__maxFrames'' then Inr (cfg\<lparr>maxFramesToCapture := num\<rparr>)
      else if starts ''__port'' then map_sum id (\<lambda>s. cfg\<lparr>port := s\<rparr>) range
      else if starts ''host'' then map_sum id (\<lambda>s. cfg\<lparr>host := s\<rparr>) range
      else if starts ''apiKey'' then map_sum id (\<lambda>s. cfg\<lparr>apiKey := s\<rparr>) range
      else if starts ''agentId'' then map_sum id (\<lambda>s. cfg\<lparr>agentId := s\<rparr>) range
      else if starts ''debugLogPath'' then map_sum id (\<lambda>s. cfg\<lparr>debugLogPath := s\<rparr>) range
      else if starts ''errorLogPath'' then map_sum id (\<lambda>s. cfg\<lparr>errorLogPath := s\<rparr>) range
      else if starts ''applicationVersion'' then map_sum id (\<lambda>s. cfg\<lparr>applicationVersion := s\<rparr>) range
      else if starts ''customCertificateFile'' then map_sum id (\<lambda>s. cfg\<lparr>customCertificateFile := s\<rparr>) range
      else if starts ''onPremHost'' then Inr (cfg\<lparr>onPremHost := yes (char_at opts v)\<rparr>)
      else if starts ''prometheusPort''
        then map_sum id (\<lambda>s. cfg\<lparr>prometheusPorts := prometheusPorts cfg @ map atoi (getlines (CHR ''|'') s)\<rparr>) range
      else if starts ''prometheusHost'' then map_sum id (\<lambda>s. cfg\<lparr>prometheusHost := s\<rparr>) range
      else if starts ''prometheusSegment'' then map_sum id (\<lambda>s. cfg\<lparr>prometheusSegment := s\<rparr>) range
      else if starts ''prometheusProcessSampleRate'' then Inr (cfg\<lparr>prometheusProcessSampleRate := num\<rparr>)
      else if starts ''prometheusElapsedSampleRate'' then Inr (cfg\<lparr>prometheusElapsedSampleRate := num\<rparr>)
      else if starts ''__logCorruption'' then Inr (cfg\<lparr>logCorruption := yes (char_at opts v)\<rparr>)
      else Inr cfg)"

lemma strchr_Some: "strchr s off c = Some n \<Longrightarrow> off \<le> n \<and> n < length s \<and> s ! n = c"
  using nth_length_takeWhile [of "\<lambda>x. x \<noteq> c" "drop off s"]
  by (auto simp: strchr_def Let_def less_diff_conv2 add.commute split: if_splits)

function parse_from :: "string \<Rightarrow> nat \<Rightarrow> ConfigurationOptions \<Rightarrow> config_fault + ConfigurationOptions" where
  "parse_from opts key cfg =
     (let eq = strchr opts key (CHR ''=''); next = strchr opts key (CHR '','') in
      case (case eq of None \<Rightarrow> Inr cfg | Some v \<Rightarrow> assign_option opts key (v + 1) next cfg) of
        Inl e \<Rightarrow> Inl e
      | Inr cfg \<Rightarrow> (case next of None \<Rightarrow> Inr cfg | Some n \<Rightarrow> parse_from opts (n + 1) cfg))"
  by pat_completeness auto
termination
  by (relation "measure (\<lambda>(opts, key, cfg). Suc (length opts) - key)") (auto dest!: strchr_Some [OF sym])

declare parse_from.simps [simp del]

definition parseArguments :: "string \<Rightarrow> ConfigurationOptions \<Rightarrow> config_fault + ConfigurationOptions" where
  "parseArguments opts cfg = parse_from opts 0 cfg"

section \<open>Substitution\<close>

text \<open>\<open>value.find(search, pos)\<close>.\<close>

fun find_from :: "string \<Rightarrow> string \<Rightarrow> nat option" where
  "find_from [] search = (if search = [] then Some 0 else None)"
| "find_from (c # cs) search =
     (if take (length search) (c # cs) = search then Some 0 else map_option Suc (find_from cs search))"

definition string_find :: "string \<Rightarrow> string \<Rightarrow> nat \<Rightarrow> nat option" where
  "string_find v search pos = (if pos \<le> length v then map_option (\<lambda>n. pos + n) (find_from (drop pos v) search) else None)"

partial_function (option) substitute_loop :: "string \<Rightarrow> nat \<Rightarrow> string \<Rightarrow> string \<Rightarrow> string option" where
  "substitute_loop v pos search replace =
     (case string_find v search pos of
        None \<Rightarrow> Some v
      | Some p \<Rightarrow> substitute_loop (take p v @ replace @ drop (p + length search) v) (p + length replace) search replace)"

definition substitute_option :: "string \<Rightarrow> string \<Rightarrow> string \<Rightarrow> string option" where
  "substitute_option v search replace = substitute_loop v 0 search replace"

text \<open>Everything after the last slash.\<close>

definition base_name :: "string \<Rightarrow> string" where
  "base_name s = rev (takeWhile (\<lambda>c. c \<noteq> CHR ''/'') (rev s))"

definition substitutePath :: "string \<Rightarrow> string \<Rightarrow> ConfigurationOptions \<Rightarrow> ConfigurationOptions option" where
  "substitutePath name variable cfg =
     Option.bind (substitute_option (base_name name) ''.'' ''_'') (\<lambda>v.
     Option.bind (substitute_option (logFilePath cfg) variable v) (\<lambda>logFile.
     Option.bind (substitute_option (errorLogPath cfg) variable v) (\<lambda>errorLog.
     Option.bind (substitute_option (debugLogPath cfg) variable v) (\<lambda>debugLog.
     Option.bind (substitute_option (customCertificateFile cfg) variable v) (\<lambda>cert.
     Option.bind (substitute_option (agentId cfg) variable v) (\<lambda>agent.
     Option.bind (substitute_option (prometheusSegment cfg) variable v) (\<lambda>segment.
       Some (cfg\<lparr>logFilePath := logFile, errorLogPath := errorLog, debugLogPath := debugLog,
         customCertificateFile := cert, agentId := agent, prometheusSegment := segment\<rparr>))))))))"

text \<open>The literals of the source are UTF-8: the pound sign is two bytes.\<close>

definition variable :: "string \<Rightarrow> string" where
  "variable name = [CHR 0xC2, CHR 0xA3] @ ''{'' @ name @ ''}''"

record process =
  exe_name :: string
  argv0 :: string
  pid_text :: string

definition substitute_options :: "process \<Rightarrow> ConfigurationOptions \<Rightarrow> ConfigurationOptions option" where
  "substitute_options p cfg =
     Option.bind (substitutePath (exe_name p) (variable ''EXE_NAME'') cfg) (\<lambda>cfg.
     Option.bind (substitutePath (argv0 p) (variable ''ARGV_0'') cfg) (\<lambda>cfg.
     substitutePath (pid_text p) (variable ''PID'') cfg))"

text \<open>An outer \<open>None\<close> would be a loop that does not end, \<open>Inl\<close> an exception.\<close>

definition setup_configuration :: "string \<Rightarrow> process \<Rightarrow> ConfigurationOptions
    \<Rightarrow> (config_fault + ConfigurationOptions) option" where
  "setup_configuration opts p cfg =
     (case parseArguments opts cfg of
        Inl e \<Rightarrow> Some (Inl e)
      | Inr cfg \<Rightarrow> map_option (\<lambda>cfg. Inr (cfg\<lparr>prometheusEnabled := prometheusPorts cfg \<noteq> []\<rparr>)) (substitute_options p cfg))"

text \<open>\<open>start_opsian_native\<close> up to the construction of the profiler; nothing without the variable.\<close>

definition start_configuration :: "string option \<Rightarrow> process \<Rightarrow> (config_fault + ConfigurationOptions) option option" where
  "start_configuration env p = map_option (\<lambda>opts. setup_configuration opts p newConfigurationOptions) env"

text \<open>\<open>child_fork\<close> runs it again on the same configuration object.\<close>

definition child_fork_configuration :: "string \<Rightarrow> process \<Rightarrow> ConfigurationOptions
    \<Rightarrow> (config_fault + ConfigurationOptions) option" where
  "child_fork_configuration opts p cfg = setup_configuration opts p cfg"

definition sleep_ms_duration :: "u64 \<Rightarrow> timespec" where
  "sleep_ms_duration d = \<lparr>tv_sec = uint (d div 1000), tv_nsec = uint ((d mod 1000) * 1000000)\<rparr>"

section \<open>Substitution replaces every occurrence\<close>

function replace_all :: "string \<Rightarrow> string \<Rightarrow> string \<Rightarrow> string" where
  "replace_all search r s =
     (if s = [] then []
      else if search \<noteq> [] \<and> take (length search) s = search then r @ replace_all search r (drop (length search) s)
      else hd s # replace_all search r (tl s))"
  by pat_completeness auto
termination by (relation "measure (\<lambda>(x, r, s). length s)") auto

declare replace_all.simps [simp del]

lemma replace_all_find:
  assumes "search \<noteq> []"
  shows "replace_all search r s =
     (case find_from s search of None \<Rightarrow> s
      | Some p \<Rightarrow> take p s @ r @ replace_all search r (drop (p + length search) s))"
proof (induction s)
  case Nil
  with assms show ?case by (simp add: replace_all.simps)
next
  case (Cons c cs)
  then show ?case
    using assms by (subst replace_all.simps) (auto split: option.splits)
qed

lemma find_from_bound: "find_from s search = Some p \<Longrightarrow> p + length search \<le> length s"
proof (induction s arbitrary: p)
  case (Cons c cs)
  show ?case
  proof (cases "take (length search) (c # cs) = search")
    case True
    then have "length search \<le> length (c # cs)" by (metis length_take min.cobounded1)
    with True Cons.prems show ?thesis by simp
  next
    case False
    with Cons show ?thesis by (auto split: if_splits)
  qed
qed (simp split: if_splits)

lemma substitute_loop_result:
  assumes "search \<noteq> []" "pos \<le> length v"
  shows "substitute_loop v pos search r = Some (take pos v @ replace_all search r (drop pos v))"
  using assms(2)
proof (induction "length v - pos" arbitrary: v pos rule: less_induct)
  case less
  show ?case
  proof (cases "find_from (drop pos v) search")
    case None
    then show ?thesis using less.prems replace_all_find [OF assms(1), of r "drop pos v"]
      by (subst substitute_loop.simps) (simp add: string_find_def)
  next
    case (Some p)
    note b = find_from_bound [OF this]
    let ?v = "take (pos + p) v @ r @ drop (pos + p + length search) v"
    obtain c cs where sc: "search = c # cs" using assms(1) by (cases search) auto
    have "substitute_loop ?v (pos + p + length r) search r =
        Some (take (pos + p + length r) ?v @ replace_all search r (drop (pos + p + length r) ?v))"
      by (rule less.hyps) (use b less.prems in \<open>auto simp: sc\<close>)
    moreover have "take (pos + p + length r) ?v = take (pos + p) v @ r" "drop (pos + p + length r) ?v = drop (pos + p + length search) v"
      using b less.prems by auto
    ultimately have "substitute_loop ?v (pos + p + length r) search r =
        Some ((take (pos + p) v @ r) @ replace_all search r (drop (pos + p + length search) v))" by (simp only:)
    moreover have "substitute_loop v pos search r = substitute_loop ?v (pos + p + length r) search r"
      using Some less.prems by (subst substitute_loop.simps) (simp add: string_find_def)
    moreover have "replace_all search r (drop pos v) =
        take p (drop pos v) @ r @ replace_all search r (drop (pos + p + length search) v)"
      using Some replace_all_find [OF assms(1), of r "drop pos v"] by (simp add: ac_simps)
    ultimately show ?thesis by (simp add: take_add)
  qed
qed

lemma substitute_option_ok:
  "search \<noteq> [] \<Longrightarrow> substitute_option v search r = Some (replace_all search r v)"
  using substitute_loop_result [of search 0 v r] by (simp add: substitute_option_def)

text \<open>C31: The substitution of a variable in an option terminates and replaces every occurrence, from left to
  right, by the value, which is not itself searched again.\<close>

theorem substitute_option_replaces_all:
  assumes "search \<noteq> []"
  shows "substitute_option v search r = Some (replace_all search r v)"
  by (rule substitute_option_ok [OF assms])

lemma substitute_option_replaces_all_witness:
  "substitute_option ''a.b..c'' ''.'' ''.x'' = Some ''a.xb.x.xc''"
  using substitute_option_replaces_all [of "''.''" "''a.b..c''" "''.x''"] by (simp add: replace_all.simps)

section \<open>What a well-formed option string means\<close>

definition apply_option :: "string \<Rightarrow> string \<Rightarrow> ConfigurationOptions \<Rightarrow> ConfigurationOptions" where
  "apply_option k v cfg =
     (let starts = (\<lambda>name. take (length name) k = name) in
      if starts ''__logPath'' then cfg\<lparr>logFilePath := v\<rparr>
      else if starts ''__maxFrames'' then cfg\<lparr>maxFramesToCapture := atoi v\<rparr>
      else if starts ''__port'' then cfg\<lparr>port := v\<rparr>
      else if starts ''host'' then cfg\<lparr>host := v\<rparr>
      else if starts ''apiKey'' then cfg\<lparr>apiKey := v\<rparr>
      else if starts ''agentId'' then cfg\<lparr>agentId := v\<rparr>
      else if starts ''debugLogPath'' then cfg\<lparr>debugLogPath := v\<rparr>
      else if starts ''errorLogPath'' then cfg\<lparr>errorLogPath := v\<rparr>
      else if starts ''applicationVersion'' then cfg\<lparr>applicationVersion := v\<rparr>
      else if starts ''customCertificateFile'' then cfg\<lparr>customCertificateFile := v\<rparr>
      else if starts ''onPremHost'' then cfg\<lparr>onPremHost := (v \<noteq> [] \<and> yes (hd v))\<rparr>
      else if starts ''prometheusPort''
        then cfg\<lparr>prometheusPorts := prometheusPorts cfg @ map atoi (getlines (CHR ''|'') v)\<rparr>
      else if starts ''prometheusHost'' then cfg\<lparr>prometheusHost := v\<rparr>
      else if starts ''prometheusSegment'' then cfg\<lparr>prometheusSegment := v\<rparr>
      else if starts ''prometheusProcessSampleRate'' then cfg\<lparr>prometheusProcessSampleRate := atoi v\<rparr>
      else if starts ''prometheusElapsedSampleRate'' then cfg\<lparr>prometheusElapsedSampleRate := atoi v\<rparr>
      else if starts ''__logCorruption'' then cfg\<lparr>logCorruption := (v \<noteq> [] \<and> yes (hd v))\<rparr>
      else cfg)"

fun render_options :: "(string \<times> string) list \<Rightarrow> string" where
  "render_options [] = []"
| "render_options [(k, v)] = k @ ''='' @ v"
| "render_options ((k, v) # kvs) = k @ ''='' @ v @ '','' @ render_options kvs"

definition option_ok :: "string \<times> string \<Rightarrow> bool" where
  "option_ok kv \<longleftrightarrow> CHR ''='' \<notin> set (fst kv) \<and> CHR '','' \<notin> set (fst kv) \<and> CHR '','' \<notin> set (snd kv)"

lemma strchr_found:
  assumes "c \<notin> set a"
  shows "strchr (pre @ a @ c # b) (length pre) c = Some (length pre + length a)"
proof -
  have "takeWhile (\<lambda>x. x \<noteq> c) (a @ c # b) = a" using assms by (subst takeWhile_append2) auto
  then show ?thesis by (simp add: strchr_def)
qed

lemma strchr_none:
  assumes "c \<notin> set a"
  shows "strchr (pre @ a) (length pre) c = None"
proof -
  have a: "takeWhile (\<lambda>x. x \<noteq> c) a = a" using assms by (simp add: takeWhile_eq_all_conv) blast
  show ?thesis by (simp add: strchr_def a)
qed

lemma starts_with_key:
  assumes "c \<notin> set name"
  shows "starts_with (pre @ k @ c # r) (length pre) name \<longleftrightarrow> take (length name) k = name"
proof (cases "length name \<le> length k")
  case True
  then show ?thesis by (simp add: starts_with_def)
next
  case False
  then have "c \<in> set (take (length name) (k @ c # r))" by (simp add: Cons_nth_drop_Suc [symmetric] take_Cons')
  with assms have "take (length name) (k @ c # r) \<noteq> name" by metis
  moreover have "take (length name) k \<noteq> name" using False by (auto dest!: arg_cong [where f = length])
  ultimately show ?thesis by (simp add: starts_with_def)
qed

lemma atoi_stops:
  assumes "\<not> is_space c" "\<not> is_digit c" "c \<noteq> CHR ''-''" "c \<noteq> CHR ''+''"
  shows "atoi (v @ c # r) = atoi v"
proof -
  define w where "w = dropWhile is_space v"
  have d: "dropWhile is_space (v @ c # r) = w @ c # r"
  proof (cases "\<forall>x \<in> set v. is_space x")
    case True
    then show ?thesis using assms(1) by (simp add: w_def dropWhile_append2)
  next
    case False
    then show ?thesis by (auto simp: w_def dropWhile_append1)
  qed
  have t: "takeWhile is_digit (x @ c # r) = takeWhile is_digit x" for x
    using assms(2) by (induction x) auto
  show ?thesis
    using assms(2-4) t by (cases w) (auto simp: atoi_def Let_def d w_def [symmetric])
qed

lemma assign_range_ok:
  assumes "length val < 2 ^ 62"
  shows "assign_range (pre @ val @ r) (length pre) (if r = [] then None else Some (length pre + length val)) = Inr val"
proof -
  have "(word_of_int (int (length val)) :: u64) = of_nat (length val)" by simp
  moreover have "unat (of_nat (length val) :: u64) = length val" using assms by (simp add: unat_of_nat)
  ultimately have "unat (word_of_int (int (length val)) :: u64) = length val" by simp
  then show ?thesis using assms by (auto simp: assign_range_def Let_def max_size_def word_less_nat_alt)
qed

lemma assign_option_ok:
  assumes ok: "option_ok (k, val)" and len: "length val < 2 ^ 62" and r: "r = [] \<or> hd r = CHR '',''"
  shows "assign_option (pre @ k @ CHR ''='' # val @ r) (length pre) (length pre + length k + 1)
     (if r = [] then None else Some (length pre + length k + 1 + length val)) cfg = Inr (apply_option k val cfg)"
proof -
  let ?o = "pre @ k @ CHR ''='' # val @ r" and ?v = "length pre + length k + 1"
  let ?next = "if r = [] then None else Some (?v + length val)"
  have range: "assign_range ?o ?v ?next = Inr val"
    using assign_range_ok [OF len, of "pre @ k @ ''=''" r] by (cases "r = []") (simp_all add: add.assoc)
  have starts: "starts_with ?o (length pre) name \<longleftrightarrow> take (length name) k = name" if "CHR ''='' \<notin> set name" for name
    using starts_with_key [OF that] .
  have dv: "drop ?v ?o = val @ r" by simp
  have num: "atoi (val @ r) = atoi val"
  proof (cases r)
    case (Cons c cs)
    with r have "c = CHR '',''" by simp
    then show ?thesis unfolding Cons by (intro atoi_stops) (simp_all add: is_space_def is_digit_def)
  qed simp
  have at: "char_at ?o ?v = (if val @ r = [] then CHR 0x00 else hd (val @ r))"
    by (cases "val @ r") (auto simp: char_at_def nth_append)
  have y: "yes (char_at ?o ?v) \<longleftrightarrow> val \<noteq> [] \<and> yes (hd val)"
    using r unfolding at by (cases val; cases r) (auto simp: yes_def)
  show ?thesis
    unfolding assign_option_def apply_option_def Let_def range dv num y by (simp add: starts)
qed

lemma parse_from_segment:
  assumes ok: "option_ok (k, val)" and len: "length val < 2 ^ 62"
  shows "parse_from (pre @ k @ CHR ''='' # val) (length pre) cfg = Inr (apply_option k val cfg)"
    and "parse_from (pre @ k @ CHR ''='' # val @ CHR '','' # r) (length pre) cfg =
      parse_from (pre @ k @ CHR ''='' # val @ CHR '','' # r) (length (pre @ k @ CHR ''='' # val @ '','')) (apply_option k val cfg)"
proof -
  have k: "CHR ''='' \<notin> set k" and kv: "CHR '','' \<notin> set (k @ CHR ''='' # val)" using ok by (auto simp: option_ok_def)
  note e = strchr_found [OF k, of pre]
  show "parse_from (pre @ k @ CHR ''='' # val) (length pre) cfg = Inr (apply_option k val cfg)"
    using assign_option_ok [OF ok len, of "[]" pre cfg] e [of val] strchr_none [OF kv, of pre]
    by (subst parse_from.simps) simp
  have n: "strchr (pre @ k @ CHR ''='' # val @ CHR '','' # r) (length pre) (CHR '','') =
      Some (length pre + length k + 1 + length val)"
    using strchr_found [OF kv, of pre r] by simp
  show "parse_from (pre @ k @ CHR ''='' # val @ CHR '','' # r) (length pre) cfg =
      parse_from (pre @ k @ CHR ''='' # val @ CHR '','' # r) (length (pre @ k @ CHR ''='' # val @ '','')) (apply_option k val cfg)"
    using assign_option_ok [OF ok len, of "CHR '','' # r" pre cfg] e [of "val @ CHR '','' # r"] n
    by (subst parse_from.simps) (simp add: add.assoc)
qed

lemma parse_from_render:
  "list_all option_ok kvs \<Longrightarrow> length (render_options kvs) < 2 ^ 62 \<Longrightarrow>
     parse_from (pre @ render_options kvs) (length pre) cfg = Inr (fold (\<lambda>(k, v). apply_option k v) kvs cfg)"
proof (induction kvs arbitrary: pre cfg rule: render_options.induct)
  case 1
  show ?case
    using strchr_none [of "CHR ''=''" "[]" pre] strchr_none [of "CHR '',''" "[]" pre]
    by (subst parse_from.simps) simp
next
  case (2 k v)
  then show ?case using parse_from_segment(1) [of k v pre cfg] by simp
next
  case (3 k v kv kvs)
  let ?pre = "pre @ k @ CHR ''='' # v @ '',''"
  have "parse_from (?pre @ render_options (kv # kvs)) (length ?pre) (apply_option k v cfg) =
      Inr (fold (\<lambda>(k, v). apply_option k v) (kv # kvs) (apply_option k v cfg))"
    by (rule 3(1)) (use 3(2,3) in auto)
  then show ?case using parse_from_segment(2) [of k v pre "render_options (kv # kvs)" cfg] 3(2,3) by simp
qed

text \<open>C19: Parsing inverts rendering: for any list of keys and values free of commas, keys free of equals
  signs, the string \<open>k1=v1,k2=v2,...\<close> gives the configuration with the options set one after the other, the
  last one winning and the Prometheus ports accumulating; every value arrives complete, further equals signs
  included.\<close>

theorem parseArguments_render:
  assumes "list_all option_ok kvs" "length (render_options kvs) < 2 ^ 62"
  shows "parseArguments (render_options kvs) cfg = Inr (fold (\<lambda>(k, v). apply_option k v) kvs cfg)"
  using parse_from_render [OF assms, of "[]" cfg] by (simp add: parseArguments_def)

definition demo_options :: "(string \<times> string) list" where
  "demo_options = [(''apiKey'', ''a=b''), (''__maxFrames'', '' 64x''), (''prometheusPort'', ''9090|9091''), (''onPremHost'', ''yes'')]"

lemma parseArguments_render_witness:
  "parseArguments ''apiKey=a=b,__maxFrames= 64x,prometheusPort=9090|9091,onPremHost=yes'' newConfigurationOptions =
     Inr (newConfigurationOptions\<lparr>apiKey := ''a=b'', maxFramesToCapture := 64, prometheusPorts := [9090, 9091], onPremHost := True\<rparr>)"
proof -
  have "list_all option_ok demo_options" "length (render_options demo_options) < 2 ^ 62"
    by (simp_all add: demo_options_def option_ok_def)
  note p = parseArguments_render [OF this, of newConfigurationOptions]
  have "atoi '' 64x'' = 64" "atoi ''9090'' = 9090" "atoi ''9091'' = 9091" by code_simp+
  moreover have "getlines (CHR ''|'') ''9090|9091'' = [''9090'', ''9091'']" by (simp add: getlines.simps)
  ultimately show ?thesis
    using p by (simp add: demo_options_def apply_option_def newConfigurationOptions_def yes_def)
qed

text \<open>An option without a value that is followed by another option takes the other one's value's position:
  the computed length is negative, wraps to a huge unsigned one and the assignment throws.\<close>

lemma parseArguments_missing_value_throws:
  assumes "CHR ''='' \<notin> set k" "CHR '','' \<notin> set k" "take 6 k = ''apiKey''" "CHR ''='' \<notin> set r"
    and "length r < 2 ^ 62"
  shows "parseArguments (k @ CHR '','' # r @ CHR ''='' # v) cfg = Inl LengthError"
proof -
  let ?o = "k @ CHR '','' # r @ CHR ''='' # v"
  have e: "strchr ?o 0 (CHR ''='') = Some (length k + 1 + length r)"
    using strchr_found [of "CHR ''=''" "k @ CHR '','' # r" "[]" v] assms(1,4) by simp
  have n: "strchr ?o 0 (CHR '','') = Some (length k)"
    using strchr_found [of "CHR '',''" k "[]"] assms(2) by simp
  obtain k' where k: "k = ''apiKey'' @ k'" using append_take_drop_id [of 6 k] assms(3) by metis
  have names: "\<not> starts_with ?o 0 ''__logPath''" "\<not> starts_with ?o 0 ''__maxFrames''"
    "\<not> starts_with ?o 0 ''__port''" "\<not> starts_with ?o 0 ''host''" "starts_with ?o 0 ''apiKey''"
    by (simp_all add: starts_with_def k)
  let ?d = "int (length k) - int (length k + 1 + length r + 1)"
  have "(word_of_int ?d :: u64) > max_size"
  proof -
    have d: "?d = - int (length r + 2)" by simp
    have "uint (word_of_int ?d :: u64) = ?d mod 2 ^ 64" unfolding uint_word_of_int by simp
    also have "\<dots> = (2 ^ 64 - int (length r + 2)) mod 2 ^ 64"
      unfolding d by (metis add.commute mod_add_self2 uminus_add_conv_diff)
    also have "\<dots> = 2 ^ 64 - int (length r + 2)" using assms(5) by (intro mod_pos_pos_trivial) auto
    finally show ?thesis using assms(5) by (simp add: word_less_alt max_size_def)
  qed
  then have "assign_range ?o (length k + 1 + length r + 1) (Some (length k)) = Inl LengthError"
    by (simp add: assign_range_def Let_def)
  then have "assign_option ?o 0 (length k + 1 + length r + 1) (Some (length k)) cfg = Inl LengthError"
    using names by (simp add: assign_option_def Let_def)
  with e n show ?thesis by (simp add: parseArguments_def parse_from.simps [of ?o 0])
qed

lemma parseArguments_missing_value_throws_witness:
  "parseArguments ''apiKey,host=x'' newConfigurationOptions = Inl LengthError"
  using parseArguments_missing_value_throws [of "''apiKey''" "''host''" "''x''" newConfigurationOptions] by simp

section \<open>Forks\<close>

lemma assign_option_ports:
  assumes "assign_option opts key v next cfg = Inr cfg'" "assign_option opts key v next cfg2 = Inr cfg2'"
  shows "\<exists>ps. prometheusPorts cfg' = prometheusPorts cfg @ ps \<and> prometheusPorts cfg2' = prometheusPorts cfg2 @ ps"
  using assms by (cases "assign_range opts v next") (auto simp: assign_option_def Let_def split: if_splits)

lemma assign_option_same_fault:
  "assign_option opts key v next cfg = Inl e \<longleftrightarrow> assign_option opts key v next cfg2 = Inl e"
  by (cases "assign_range opts v next") (auto simp: assign_option_def Let_def)

lemma assign_option_same_ok:
  "assign_option opts key v next cfg = Inr c \<Longrightarrow> \<exists>c2. assign_option opts key v next cfg2 = Inr c2"
  using assign_option_same_fault [of opts key v "next" cfg _ cfg2] by (cases "assign_option opts key v next cfg2") auto

lemma parse_from_ports:
  "parse_from opts key cfg = Inr cfg' \<Longrightarrow> \<exists>ps cfg2'. parse_from opts key cfg2 = Inr cfg2' \<and>
     prometheusPorts cfg' = prometheusPorts cfg @ ps \<and> prometheusPorts cfg2' = prometheusPorts cfg2 @ ps"
proof (induction opts key cfg arbitrary: cfg2 rule: parse_from.induct)
  case (1 opts key cfg)
  let ?a = "\<lambda>c. case strchr opts key (CHR ''='') of None \<Rightarrow> Inr c
      | Some v \<Rightarrow> assign_option opts key (v + 1) (strchr opts key (CHR '','')) c"
  from 1(2) obtain c where c: "?a cfg = Inr c" by (subst (asm) parse_from.simps) (auto simp: Let_def split: sum.splits)
  then obtain c2 where c2: "?a cfg2 = Inr c2"
    using assign_option_same_ok [of opts key _ "strchr opts key (CHR '','')" cfg c cfg2] by (auto split: option.splits)
  obtain ps where ps: "prometheusPorts c = prometheusPorts cfg @ ps" "prometheusPorts c2 = prometheusPorts cfg2 @ ps"
    using c c2 assign_option_ports [of opts key _ "strchr opts key (CHR '','')" cfg c cfg2 c2]
    by (cases "strchr opts key (CHR ''='')") auto
  have step: "parse_from opts key x = (case strchr opts key (CHR '','') of None \<Rightarrow> Inr y | Some n \<Rightarrow> parse_from opts (n + 1) y)"
    if "?a x = Inr y" for x y
    by (subst parse_from.simps) (simp only: Let_def that sum.case)
  show ?case
  proof (cases "strchr opts key (CHR '','')")
    case None
    with 1(2) step [OF c] step [OF c2] ps show ?thesis by simp
  next
    case (Some n)
    with 1(2) step [OF c] have p: "parse_from opts (n + 1) c = Inr cfg'" by simp
    from 1(1) [OF refl refl c Some p, of c2] obtain qs cfg2' where
        "parse_from opts (n + 1) c2 = Inr cfg2'" "prometheusPorts cfg' = prometheusPorts c @ qs"
        "prometheusPorts cfg2' = prometheusPorts c2 @ qs" by blast
    with Some step [OF c2] ps show ?thesis by auto
  qed
qed

lemma variable_not_Nil [simp]: "variable n \<noteq> []"
  by (simp add: variable_def)

lemma substitutePath_ok:
  assumes "var \<noteq> []"
  shows "\<exists>cfg'. substitutePath name var cfg = Some cfg' \<and> prometheusPorts cfg' = prometheusPorts cfg"
  using assms by (simp add: substitutePath_def substitute_option_ok)

lemma substitute_options_ok: "\<exists>cfg'. substitute_options p cfg = Some cfg' \<and> prometheusPorts cfg' = prometheusPorts cfg"
proof -
  obtain c1 where 1: "substitutePath (exe_name p) (variable ''EXE_NAME'') cfg = Some c1" "prometheusPorts c1 = prometheusPorts cfg"
    using substitutePath_ok [OF variable_not_Nil] by blast
  obtain c2 where 2: "substitutePath (argv0 p) (variable ''ARGV_0'') c1 = Some c2" "prometheusPorts c2 = prometheusPorts c1"
    using substitutePath_ok [OF variable_not_Nil] by blast
  obtain c3 where 3: "substitutePath (pid_text p) (variable ''PID'') c2 = Some c3" "prometheusPorts c3 = prometheusPorts c2"
    using substitutePath_ok [OF variable_not_Nil] by blast
  from 1 2 3 show ?thesis by (simp add: substitute_options_def)
qed

lemma setup_configuration_cases:
  "setup_configuration opts p cfg = (case parseArguments opts cfg of Inl e \<Rightarrow> Some (Inl e)
     | Inr c \<Rightarrow> Some (Inr ((the (substitute_options p c))\<lparr>prometheusEnabled := prometheusPorts c \<noteq> []\<rparr>)))"
proof (cases "parseArguments opts cfg")
  case (Inr c)
  obtain c' where "substitute_options p c = Some c'" "prometheusPorts c' = prometheusPorts c"
    using substitute_options_ok [of p c] by blast
  with Inr show ?thesis by (simp add: setup_configuration_def)
qed (simp add: setup_configuration_def)

text \<open>Set-up always terminates, and a child process that sets itself up again on the parent's configuration
  object ends with every Prometheus port of the options listed once more than its parent.\<close>

lemma child_fork_repeats_ports:
  assumes "setup_configuration opts p newConfigurationOptions = Some (Inr cfg)"
  shows "\<exists>cfg'. child_fork_configuration opts p' cfg = Some (Inr cfg') \<and>
     prometheusPorts cfg' = prometheusPorts cfg @ prometheusPorts cfg"
proof -
  from assms obtain c where c: "parseArguments opts newConfigurationOptions = Inr c"
      and cfg: "cfg = (the (substitute_options p c))\<lparr>prometheusEnabled := prometheusPorts c \<noteq> []\<rparr>"
    by (auto simp: setup_configuration_cases split: sum.splits)
  have pc: "prometheusPorts cfg = prometheusPorts c" using substitute_options_ok [of p c] cfg by auto
  have "prometheusPorts newConfigurationOptions = []" by (simp add: newConfigurationOptions_def)
  then obtain c2 where c2: "parseArguments opts cfg = Inr c2" "prometheusPorts c2 = prometheusPorts cfg @ prometheusPorts c"
    using parse_from_ports [OF c [unfolded parseArguments_def], of cfg] by (auto simp: parseArguments_def)
  obtain c3 where "substitute_options p' c2 = Some c3" "prometheusPorts c3 = prometheusPorts c2"
    using substitute_options_ok by blast
  with c2 pc show ?thesis by (simp add: child_fork_configuration_def setup_configuration_cases)
qed

definition demo_process :: process where
  "demo_process = \<lparr>exe_name = ''/bin/a.exe'', argv0 = ''a.exe'', pid_text = ''42''\<rparr>"

lemma demo_setup:
  "\<exists>cfg. setup_configuration ''prometheusPort=9090'' demo_process newConfigurationOptions = Some (Inr cfg) \<and>
     prometheusPorts cfg = [9090]"
proof -
  have "atoi ''9090'' = 9090" by code_simp
  moreover have "getlines (CHR ''|'') ''9090'' = [''9090'']" by (simp add: getlines.simps)
  moreover have "parseArguments ''prometheusPort=9090'' newConfigurationOptions =
      Inr (apply_option ''prometheusPort'' ''9090'' newConfigurationOptions)"
    using parse_from_segment(1) [of "''prometheusPort''" "''9090''" "[]" newConfigurationOptions]
    by (simp add: parseArguments_def option_ok_def)
  ultimately have "\<exists>c. parseArguments ''prometheusPort=9090'' newConfigurationOptions = Inr c \<and> prometheusPorts c = [9090]"
    by (simp add: apply_option_def newConfigurationOptions_def)
  then obtain c where c: "parseArguments ''prometheusPort=9090'' newConfigurationOptions = Inr c" "prometheusPorts c = [9090]"
    by blast
  then show ?thesis using substitute_options_ok [of demo_process c] by (auto simp: setup_configuration_cases)
qed

lemma child_fork_repeats_ports_witness:
  "\<exists>cfg cfg'. setup_configuration ''prometheusPort=9090'' demo_process newConfigurationOptions = Some (Inr cfg) \<and>
     child_fork_configuration ''prometheusPort=9090'' demo_process cfg = Some (Inr cfg') \<and> prometheusPorts cfg' = [9090, 9090]"
proof -
  obtain cfg where cfg: "setup_configuration ''prometheusPort=9090'' demo_process newConfigurationOptions = Some (Inr cfg)"
      "prometheusPorts cfg = [9090]" using demo_setup by blast
  from child_fork_repeats_ports [OF cfg(1), of demo_process] cfg show ?thesis by auto
qed

end
