(* ===== verification/Signal_Handler.thy ===== *)
theory Signal_Handler
  imports Prelude
begin

text \<open>
  \<^verbatim>\<open>src/lib/signal_handler.h\<close> and \<^verbatim>\<open>src/lib/signal_handler.cpp\<close>: the process-wide profiling timer and the
  installation of signal actions. The outcome of \<open>setitimer\<close> and \<open>sigaction\<close> is an argument.
\<close>

section \<open>The profiling timer\<close>

definition NOT_PROFILING :: int where "NOT_PROFILING = 0"

definition INT_MAX :: int where "INT_MAX = 2147483647"
definition INT_MIN :: int where "INT_MIN = - 2147483648"

record timeval =
  tval_sec :: int
  tval_usec :: int

record SignalHandler =
  currentProcessInterval :: int
  processProfiling :: bool

definition newSignalHandler :: SignalHandler where
  "newSignalHandler = \<lparr>currentProcessInterval = 0, processProfiling = False\<rparr>"

text \<open>
  The value passed to \<open>setitimer\<close>; the multiplication is on a 32-bit \<open>int\<close>, whose overflow is undefined
  (\<open>None\<close>).
\<close>

definition itimer_interval :: "int \<Rightarrow> timeval option" where
  "itimer_interval t =
     (if t * 1000 < INT_MIN \<or> t * 1000 > INT_MAX then None
      else Some \<lparr>tval_sec = t sdiv 1000, tval_usec = (t * 1000) smod 1000000\<rparr>)"

datatype timer_update = Unchanged | Scheduled timeval | Rejected | Overflowed

text \<open>\<open>setitimer\<close> is the system call's success on the interval it is given.\<close>

definition updateInterval :: "(timeval \<Rightarrow> bool) \<Rightarrow> int \<Rightarrow> int \<Rightarrow> timer_update" where
  "updateInterval setitimer t current =
     (if t = current then Unchanged
      else case itimer_interval t of
        None \<Rightarrow> Overflowed
      | Some iv \<Rightarrow> if setitimer iv then Scheduled iv else Rejected)"

definition updateProcessInterval :: "(timeval \<Rightarrow> bool) \<Rightarrow> int \<Rightarrow> SignalHandler \<Rightarrow> (bool \<times> SignalHandler) option" where
  "updateProcessInterval setitimer t h =
     (case updateInterval setitimer t (currentProcessInterval h) of
        Overflowed \<Rightarrow> None
      | Rejected \<Rightarrow> Some (False, h)
      | _ \<Rightarrow> Some (True, h\<lparr>currentProcessInterval := t, processProfiling := (t \<noteq> NOT_PROFILING)\<rparr>))"

definition stopProcessProfiling :: "(timeval \<Rightarrow> bool) \<Rightarrow> SignalHandler \<Rightarrow> (bool \<times> SignalHandler) option" where
  "stopProcessProfiling setitimer h = updateProcessInterval setitimer NOT_PROFILING h"

definition isProcessProfiling :: "SignalHandler \<Rightarrow> bool" where
  "isProcessProfiling h = processProfiling h"

section \<open>Signal actions\<close>

record 'f sigaction_request =
  sa_signal :: int
  sa_action :: 'f
  sa_restart :: bool
  sa_siginfo :: bool
  sa_mask :: "int list"

text \<open>\<open>sigaction\<close> returns the handler that was installed before, or fails and leaves \<open>garbage\<close> to be returned.\<close>

definition SetAction :: "('f sigaction_request \<Rightarrow> 'h option) \<Rightarrow> 'h \<Rightarrow> int \<Rightarrow> int \<Rightarrow> 'f \<Rightarrow> 'h" where
  "SetAction sigaction garbage signalNumber masked action =
     (let sa = \<lparr>sa_signal = signalNumber, sa_action = action, sa_restart = True, sa_siginfo = True,
            sa_mask = (if masked \<noteq> 0 then [masked] else [])\<rparr>
      in case sigaction sa of None \<Rightarrow> garbage | Some old \<Rightarrow> old)"

definition SetAction2 :: "('f sigaction_request \<Rightarrow> 'h option) \<Rightarrow> 'h \<Rightarrow> int \<Rightarrow> int \<Rightarrow> int \<Rightarrow> 'f \<Rightarrow> 'h" where
  "SetAction2 sigaction garbage signalNumber masked masked2 action =
     (let sa = \<lparr>sa_signal = signalNumber, sa_action = action, sa_restart = True, sa_siginfo = True,
            sa_mask = (if masked \<noteq> 0 then [masked] else []) @ (if masked2 \<noteq> 0 then [masked2] else [])\<rparr>
      in case sigaction sa of None \<Rightarrow> garbage | Some old \<Rightarrow> old)"

section \<open>Properties\<close>

lemma itimer_interval_exact:
  assumes "0 \<le> t" "t \<le> 2147483"
  shows "\<exists>iv. itimer_interval t = Some iv \<and> tval_sec iv * 1000000 + tval_usec iv = t * 1000 \<and>
     0 \<le> tval_sec iv \<and> 0 \<le> tval_usec iv \<and> tval_usec iv < 1000000 \<and> (iv = \<lparr>tval_sec = 0, tval_usec = 0\<rparr> \<longleftrightarrow> t = 0)"
proof -
  have d: "t sdiv 1000 = t div 1000" "(t * 1000) smod 1000000 = (t * 1000) mod 1000000"
    using assms by (simp_all add: signed_divide_int_def signed_modulo_int_def sgn_if)
  have m: "(t * 1000) mod 1000000 = (t mod 1000) * 1000"
    using mult_mod_left [of t 1000 1000] by simp
  have "t div 1000 * 1000 + t mod 1000 = t" by simp
  then have "t div 1000 * 1000000 + t mod 1000 * 1000 = t * 1000" by linarith
  moreover have "t div 1000 = 0 \<and> (t mod 1000) * 1000 = 0 \<longleftrightarrow> t = 0"
    using assms by (auto simp: div_eq_0_iff) 
  ultimately show ?thesis
    using assms by (auto simp: itimer_interval_def INT_MIN_def INT_MAX_def d m)
qed

definition handler_ok :: "SignalHandler \<Rightarrow> bool" where
  "handler_ok h \<longleftrightarrow> (processProfiling h \<longleftrightarrow> currentProcessInterval h \<noteq> NOT_PROFILING)"

fun apply_intervals :: "(timeval \<Rightarrow> bool) \<Rightarrow> int list \<Rightarrow> SignalHandler \<Rightarrow> SignalHandler" where
  "apply_intervals s [] h = h"
| "apply_intervals s (t # ts) h =
     apply_intervals s ts (case updateProcessInterval s t h of None \<Rightarrow> h | Some (_, h') \<Rightarrow> h')"

lemma updateProcessInterval_ok:
  "handler_ok h \<Longrightarrow> updateProcessInterval s t h = Some (r, h') \<Longrightarrow>
     handler_ok h' \<and> (if r then currentProcessInterval h' = t else h' = h)"
  by (auto simp: updateProcessInterval_def handler_ok_def split: timer_update.splits)

text \<open>C29: After any sequence of interval changes, some of which the system may refuse, the handler says it is
  profiling exactly when its recorded interval is not zero; and a change to an interval between 0 and 2147483
  milliseconds never overflows: if it is recorded and was not already in force, the timer was set to exactly
  that many milliseconds, a refused one leaves the recorded state alone.\<close>

theorem process_interval_faithful:
  fixes s :: "timeval \<Rightarrow> bool" and ts :: "int list"
  assumes "0 \<le> t" "t \<le> 2147483"
  defines "h \<equiv> apply_intervals s ts newSignalHandler"
  shows "(isProcessProfiling h \<longleftrightarrow> currentProcessInterval h \<noteq> 0) \<and>
     (\<exists>r h'. updateProcessInterval s t h = Some (r, h') \<and>
        (r \<longrightarrow> currentProcessInterval h' = t \<and> (t = currentProcessInterval h \<or>
           (\<exists>iv. s iv \<and> tval_sec iv * 1000000 + tval_usec iv = t * 1000 \<and> tval_usec iv < 1000000))) \<and>
        (\<not> r \<longrightarrow> h' = h))"
proof -
  have "handler_ok h0 \<Longrightarrow> handler_ok (apply_intervals s ts h0)" for h0
  proof (induction ts arbitrary: h0)
    case (Cons t ts)
    then show ?case using updateProcessInterval_ok [of h0 s t] by (auto split: option.split)
  qed simp
  then have ok: "handler_ok h" by (simp add: h_def handler_ok_def newSignalHandler_def NOT_PROFILING_def)
  obtain iv where iv: "itimer_interval t = Some iv" "tval_sec iv * 1000000 + tval_usec iv = t * 1000" "tval_usec iv < 1000000"
    using itimer_interval_exact [OF assms(1,2)] by blast
  have "\<exists>r h'. updateProcessInterval s t h = Some (r, h') \<and>
        (r \<longrightarrow> currentProcessInterval h' = t \<and> (t = currentProcessInterval h \<or> s iv)) \<and> (\<not> r \<longrightarrow> h' = h)"
    using iv(1) by (auto simp: updateProcessInterval_def updateInterval_def)
  with iv ok show ?thesis by (fastforce simp: handler_ok_def isProcessProfiling_def NOT_PROFILING_def)
qed

lemma process_interval_faithful_witness:
  "\<exists>r h'. updateProcessInterval (\<lambda>iv. tval_sec iv < 5) 1500 (apply_intervals (\<lambda>iv. tval_sec iv < 5) [20, 90000] newSignalHandler) = Some (r, h')"
  using process_interval_faithful [of 1500 "\<lambda>iv. tval_sec iv < 5" "[20, 90000]"] by auto

end
