(* ===== verification/Proc_Scanner.thy ===== *)
theory Proc_Scanner
  imports Config
begin

text \<open>
  \<^verbatim>\<open>src/lib/proc_scanner.cpp\<close>: one elapsed-time timer per thread of the process, found by reading
  \<^verbatim>\<open>/proc/self/task\<close>. The system calls are recorded in the state in the order they are made;
  which timer id \<open>timer_create\<close> returns, if any, is an argument. An \<open>unordered_set\<close> is a list without
  repetitions.
\<close>

section \<open>State\<close>

datatype syscall =
    TimerCreate int int
  | TimerSettime nat int int
  | TimerDelete nat

definition MS_TO_NS :: u64 where "MS_TO_NS = 1000000"
definition NOT_SCANNING :: u64 where "NOT_SCANNING = - 1"

record scanner =
  last_scan_threads :: "int list"
  timers :: "nat list"
  metrics_thread_id :: int
  processor_thread_id :: int
  metrics_thread_started :: bool
  processor_thread_started :: bool
  atomic_interval_in_ns :: u64
  local_interval_in_ns :: u64
  calls :: "syscall list"

text \<open>The result of a \<open>timer_create\<close> after the calls made so far.\<close>

type_synonym kernel = "syscall list \<Rightarrow> int \<Rightarrow> nat option"

definition scanner_init :: scanner where
  "scanner_init = \<lparr>last_scan_threads = [], timers = [], metrics_thread_id = 0, processor_thread_id = 0,
     metrics_thread_started = False, processor_thread_started = False,
     atomic_interval_in_ns = NOT_SCANNING, local_interval_in_ns = NOT_SCANNING, calls = []\<rparr>"

section \<open>Processor thread\<close>

definition on_processor_thread_start :: "int \<Rightarrow> scanner \<Rightarrow> scanner" where
  "on_processor_thread_start tid s = s\<lparr>processor_thread_id := tid, processor_thread_started := True\<rparr>"

definition is_scanning_threads :: "scanner \<Rightarrow> bool" where
  "is_scanning_threads s = (atomic_interval_in_ns s \<noteq> NOT_SCANNING)"

definition update_scanning_threads_interval :: "u64 \<Rightarrow> scanner \<Rightarrow> scanner" where
  "update_scanning_threads_interval interval_in_ms s = s\<lparr>atomic_interval_in_ns := interval_in_ms * MS_TO_NS\<rparr>"

definition stop_scanning_threads :: "scanner \<Rightarrow> scanner" where
  "stop_scanning_threads s = update_scanning_threads_interval NOT_SCANNING s"

section \<open>Metrics thread\<close>

definition on_metrics_thread_start :: "int \<Rightarrow> scanner \<Rightarrow> scanner" where
  "on_metrics_thread_start tid s = s\<lparr>metrics_thread_id := tid, metrics_thread_started := True\<rparr>"

text \<open>The interval goes into \<open>tv_nsec\<close> as a signed long; \<open>tv_sec\<close> is 0.\<close>

definition set_timer_interval :: "int \<Rightarrow> nat \<Rightarrow> scanner \<Rightarrow> scanner" where
  "set_timer_interval interval_ns timer_id s = s\<lparr>calls := calls s @ [TimerSettime timer_id 0 interval_ns]\<rparr>"

definition start_timer :: "kernel \<Rightarrow> int \<Rightarrow> int \<Rightarrow> int \<Rightarrow> scanner \<Rightarrow> scanner" where
  "start_timer k tid signal_number interval_ns s =
     (let r = k (calls s) tid; s = s\<lparr>calls := calls s @ [TimerCreate tid signal_number]\<rparr> in
      case r of
        None \<Rightarrow> s
      | Some timer_id \<Rightarrow> set_timer_interval interval_ns timer_id (s\<lparr>timers := List.insert timer_id (timers s)\<rparr>))"

definition start_profiling_thread :: "kernel \<Rightarrow> int \<Rightarrow> scanner \<Rightarrow> scanner" where
  "start_profiling_thread k tid s = start_timer k tid 14 (sint (local_interval_in_ns s)) s"

definition on_interval_change :: "kernel \<Rightarrow> u64 \<Rightarrow> scanner \<Rightarrow> scanner" where
  "on_interval_change k interval s =
     (let old = local_interval_in_ns s; s = s\<lparr>local_interval_in_ns := interval\<rparr> in
      if interval = NOT_SCANNING
      then s\<lparr>calls := calls s @ map TimerDelete (timers s), timers := []\<rparr>
      else if old = NOT_SCANNING then fold (start_profiling_thread k) (last_scan_threads s) s
      else fold (set_timer_interval (sint (local_interval_in_ns s))) (timers s) s)"

text \<open>\<open>strtol\<close> with base 0, cut to a \<open>pid_t\<close>; the entries of the directory are decimal.\<close>

definition hex_digit :: "char \<Rightarrow> int option" where
  "hex_digit c = (let n = of_char c :: int in
     if 48 \<le> n \<and> n \<le> 57 then Some (n - 48) else if 97 \<le> n \<and> n \<le> 102 then Some (n - 87)
     else if 65 \<le> n \<and> n \<le> 70 then Some (n - 55) else None)"

fun digits_in :: "int \<Rightarrow> int \<Rightarrow> string \<Rightarrow> int" where
  "digits_in b acc [] = acc"
| "digits_in b acc (c # cs) =
     (case hex_digit c of None \<Rightarrow> acc | Some d \<Rightarrow> if d < b then digits_in b (b * acc + d) cs else acc)"

definition strtol0 :: "string \<Rightarrow> int" where
  "strtol0 s =
     (let s = dropWhile is_space s; neg = (s \<noteq> [] \<and> hd s = CHR ''-'');
          s = (if s \<noteq> [] \<and> (hd s = CHR ''-'' \<or> hd s = CHR ''+'') then tl s else s);
          hex = (length s > 2 \<and> s ! 0 = CHR ''0'' \<and> (s ! 1 = CHR ''x'' \<or> s ! 1 = CHR ''X'') \<and> hex_digit (s ! 2) \<noteq> None);
          n = (if hex then digits_in 16 0 (drop 2 s) else if s \<noteq> [] \<and> hd s = CHR ''0'' then digits_in 8 0 s
               else digits_in 10 0 s);
          v = (if neg then max (- n) (- (2 ^ 63)) else min n (2 ^ 63 - 1))
      in sint (word_of_int v :: i32))"

text \<open>The loop over the directory entries, \<open>current\<close> being the threads seen so far.\<close>

fun scan_entries :: "kernel \<Rightarrow> string list \<Rightarrow> int list \<Rightarrow> scanner \<Rightarrow> int list \<times> scanner" where
  "scan_entries k [] current s = (current, s)"
| "scan_entries k (d # ds) current s =
     (if d \<noteq> [] \<and> hd d = CHR ''.'' then scan_entries k ds current s
      else let pid = strtol0 d in
        if pid = metrics_thread_id s \<or> pid = processor_thread_id s then scan_entries k ds current s
        else let current = List.insert pid current;
                 s = (if pid \<notin> set (last_scan_threads s) then start_profiling_thread k pid s else s)
          in scan_entries k ds current s)"

text \<open>\<open>task\<close> is the directory's content, or \<open>None\<close> when it cannot be opened.\<close>

definition scan_threads :: "kernel \<Rightarrow> string list option \<Rightarrow> scanner \<Rightarrow> scanner" where
  "scan_threads k task s =
     (if metrics_thread_started s \<and> processor_thread_started s then
        let interval = atomic_interval_in_ns s;
            s = (if interval \<noteq> local_interval_in_ns s then on_interval_change k interval s else s)
        in if local_interval_in_ns s = NOT_SCANNING then s
           else case task of
             None \<Rightarrow> s
           | Some ds \<Rightarrow> (let (currentThreads, s) = scan_entries k ds [] s in s\<lparr>last_scan_threads := currentThreads\<rparr>)
      else s)"

section \<open>Fork\<close>

definition reset_scan_threads :: "scanner \<Rightarrow> scanner" where
  "reset_scan_threads s = scanner_init\<lparr>calls := calls s\<rparr>"

section \<open>What a scan does\<close>

fun creates :: "syscall list \<Rightarrow> int list" where
  "creates [] = []"
| "creates (TimerCreate tid _ # cs) = tid # creates cs"
| "creates (_ # cs) = creates cs"

lemma creates_append [simp]: "creates (xs @ ys) = creates xs @ creates ys"
  by (induction xs rule: creates.induct) auto

fun arms :: "int \<Rightarrow> syscall \<Rightarrow> bool" where
  "arms ns (TimerCreate _ sig) = (sig = 14)"
| "arms ns (TimerSettime _ sec n) = (sec = 0 \<and> n = ns)"
| "arms ns (TimerDelete _) = False"

definition same_control :: "scanner \<Rightarrow> scanner \<Rightarrow> bool" where
  "same_control s s' \<longleftrightarrow> local_interval_in_ns s' = local_interval_in_ns s \<and>
     atomic_interval_in_ns s' = atomic_interval_in_ns s \<and> last_scan_threads s' = last_scan_threads s \<and>
     metrics_thread_id s' = metrics_thread_id s \<and> processor_thread_id s' = processor_thread_id s"

text \<open>From \<open>s\<close> to \<open>s'\<close> only creating and arming calls are made, for the threads \<open>tids\<close> in this order.\<close>

definition profiles :: "int list \<Rightarrow> scanner \<Rightarrow> scanner \<Rightarrow> bool" where
  "profiles tids s s' \<longleftrightarrow> same_control s s' \<and> set (timers s) \<subseteq> set (timers s') \<and>
     (\<exists>ext. calls s' = calls s @ ext \<and> list_all (arms (sint (local_interval_in_ns s))) ext \<and> creates ext = tids)"

lemma profiles_refl: "profiles [] s s"
  by (simp add: profiles_def same_control_def)

lemma profiles_trans: "profiles as s t \<Longrightarrow> profiles bs t u \<Longrightarrow> profiles (as @ bs) s u"
  by (fastforce simp: profiles_def same_control_def)

lemma start_profiling_thread_profiles: "profiles [tid] s (start_profiling_thread k tid s)"
  by (auto simp: profiles_def same_control_def start_profiling_thread_def start_timer_def set_timer_interval_def Let_def
      split: option.split)

lemma fold_start_profiles: "profiles tids s (fold (start_profiling_thread k) tids s)"
proof (induction tids arbitrary: s)
  case (Cons t ts)
  have "profiles ([t] @ ts) s (fold (start_profiling_thread k) ts (start_profiling_thread k t s))"
    by (rule profiles_trans [OF start_profiling_thread_profiles Cons])
  then show ?case by simp
qed (simp add: profiles_refl)

lemma fold_set_profiles:
  "ns = sint (local_interval_in_ns s) \<Longrightarrow> profiles [] s (fold (set_timer_interval ns) ts s)"
proof (induction ts arbitrary: s)
  case (Cons t ts)
  have "profiles [] s (set_timer_interval ns t s)"
    using Cons.prems by (simp add: profiles_def same_control_def set_timer_interval_def)
  moreover have "ns = sint (local_interval_in_ns (set_timer_interval ns t s))"
    using Cons.prems by (simp add: set_timer_interval_def)
  ultimately have "profiles ([] @ []) s (fold (set_timer_interval ns) ts (set_timer_interval ns t s))"
    by (intro profiles_trans [OF _ Cons.IH])
  then show ?case by simp
qed (simp add: profiles_refl)

definition visible_threads :: "scanner \<Rightarrow> string list \<Rightarrow> int list" where
  "visible_threads s ds = filter (\<lambda>pid. pid \<noteq> metrics_thread_id s \<and> pid \<noteq> processor_thread_id s)
     (map strtol0 (filter (\<lambda>d. \<not> (d \<noteq> [] \<and> hd d = CHR ''.'')) ds))"

lemma visible_threads_cong: "same_control s s' \<Longrightarrow> visible_threads s' ds = visible_threads s ds"
  by (simp add: visible_threads_def same_control_def)

lemma scan_entries_profiles:
  "profiles (filter (\<lambda>t. t \<notin> set (last_scan_threads s)) (visible_threads s ds)) s (snd (scan_entries k ds cur s)) \<and>
   set (fst (scan_entries k ds cur s)) = set cur \<union> set (visible_threads s ds)"
proof (induction ds arbitrary: cur s)
  case Nil
  then show ?case by (simp add: profiles_refl visible_threads_def)
next
  case (Cons d ds)
  let ?pid = "strtol0 d"
  show ?case
  proof (cases "d \<noteq> [] \<and> hd d = CHR ''.'' \<or> ?pid = metrics_thread_id s \<or> ?pid = processor_thread_id s")
    case True
    then have "scan_entries k (d # ds) cur s = scan_entries k ds cur s" "visible_threads s (d # ds) = visible_threads s ds"
      by (auto simp: visible_threads_def)
    with Cons show ?thesis by simp
  next
    case False
    let ?s = "if ?pid \<notin> set (last_scan_threads s) then start_profiling_thread k ?pid s else s"
    have e: "scan_entries k (d # ds) cur s = scan_entries k ds (List.insert ?pid cur) ?s"
      "visible_threads s (d # ds) = ?pid # visible_threads s ds"
      using False by (auto simp: visible_threads_def Let_def)
    have p: "profiles (if ?pid \<notin> set (last_scan_threads s) then [?pid] else []) s ?s"
      by (simp add: start_profiling_thread_profiles profiles_refl)
    then have sc: "same_control s ?s" by (simp add: profiles_def)
    then have l: "last_scan_threads ?s = last_scan_threads s" by (simp add: same_control_def)
    note IH = Cons [of ?s "List.insert ?pid cur", unfolded visible_threads_cong [OF sc] l]
    from profiles_trans [OF p conjunct1 [OF IH]] IH show ?thesis unfolding e by (auto split: if_splits)
  qed
qed

lemma sint_interval:
  assumes "ms \<le> 9223372036854"
  shows "sint (ms * MS_TO_NS) = uint ms * 1000000"
proof -
  have u: "uint ms \<le> 9223372036854" using assms by (simp add: word_le_def)
  then have "uint (ms * MS_TO_NS) = uint ms * 1000000"
    using uint_ge_0 [of ms] by (simp add: MS_TO_NS_def uint_word_ariths)
  moreover have "uint ms * 1000000 < 2 ^ 63" using u by simp
  moreover have "- (2 ^ 63) \<le> uint ms * 1000000" by (rule order_trans [of _ 0]) simp_all
  ultimately show ?thesis by (simp add: sint_uint) (rule signed_take_bit_int_eq_self; simp)
qed

section \<open>Properties\<close>

lemma scanning_on: "is_scanning_threads (update_scanning_threads_interval ms s)"
proof -
  have "ms * MS_TO_NS \<noteq> NOT_SCANNING"
  proof
    assume "ms * MS_TO_NS = NOT_SCANNING"
    then have "ms * (MS_TO_NS * 2 ^ 63) = NOT_SCANNING * 2 ^ 63" by (simp add: mult.assoc [symmetric])
    moreover have "MS_TO_NS * 2 ^ 63 = 0" "NOT_SCANNING * 2 ^ 63 \<noteq> 0"
      by (simp_all add: MS_TO_NS_def NOT_SCANNING_def word_uint_eq_iff)
    ultimately show False by simp
  qed
  then show ?thesis by (simp add: is_scanning_threads_def update_scanning_threads_interval_def)
qed

text \<open>Once an interval has been set, whatever it is, scanning counts as on until a fork resets it:
  the stop request multiplies the marker for \<open>not scanning\<close> by the nanoseconds in a millisecond like any
  interval, and no product of that kind is the marker.\<close>

lemma scanning_never_stops:
  "is_scanning_threads (update_scanning_threads_interval ms s) \<and> is_scanning_threads (stop_scanning_threads s) \<and>
   \<not> is_scanning_threads (reset_scan_threads s)"
  using scanning_on [of NOT_SCANNING s]
  by (simp add: scanning_on stop_scanning_threads_def)
    (simp add: is_scanning_threads_def reset_scan_threads_def scanner_init_def)

lemma on_interval_change_profiles:
  assumes "interval \<noteq> NOT_SCANNING"
  shows "profiles (if local_interval_in_ns s = NOT_SCANNING then last_scan_threads s else [])
     (s\<lparr>local_interval_in_ns := interval\<rparr>) (on_interval_change k interval s)"
  using assms fold_start_profiles [of "last_scan_threads s" "s\<lparr>local_interval_in_ns := interval\<rparr>" k]
    fold_set_profiles [of "sint interval" "s\<lparr>local_interval_in_ns := interval\<rparr>"]
  by (simp add: on_interval_change_def)

text \<open>The threads a scan creates timers for: when the interval was off, the threads of the last scan, and always
  the threads that were not there at the last scan.\<close>

definition newly_profiled :: "string list \<Rightarrow> scanner \<Rightarrow> int list" where
  "newly_profiled ds s =
     (if local_interval_in_ns s = NOT_SCANNING then last_scan_threads s else []) @
     filter (\<lambda>t. t \<notin> set (last_scan_threads s)) (visible_threads s ds)"

lemma scan_threads_result:
  assumes started: "metrics_thread_started s" "processor_thread_started s"
    and on: "atomic_interval_in_ns s \<noteq> NOT_SCANNING"
  shows "\<exists>ext. calls (scan_threads k (Some ds) s) = calls s @ ext \<and> creates ext = newly_profiled ds s \<and>
     list_all (arms (sint (atomic_interval_in_ns s))) ext \<and> set (timers s) \<subseteq> set (timers (scan_threads k (Some ds) s)) \<and>
     set (last_scan_threads (scan_threads k (Some ds) s)) = set (visible_threads s ds)"
proof -
  let ?i = "atomic_interval_in_ns s"
  let ?s1 = "s\<lparr>local_interval_in_ns := ?i\<rparr>"
  let ?s2 = "if ?i \<noteq> local_interval_in_ns s then on_interval_change k ?i s else s"
  let ?old = "if local_interval_in_ns s = NOT_SCANNING then last_scan_threads s else []"
  have p1: "profiles ?old ?s1 ?s2"
    using on_interval_change_profiles [OF on, of s k] on profiles_refl [of s] by auto
  then have sc: "same_control ?s1 ?s2" by (simp add: profiles_def)
  have l: "last_scan_threads ?s2 = last_scan_threads s" "local_interval_in_ns ?s2 = ?i"
    "visible_threads ?s2 ds = visible_threads s ds"
    using sc visible_threads_cong [OF sc, of ds] by (simp_all add: same_control_def visible_threads_def)
  note E = scan_entries_profiles [of ?s2 ds k "[]", unfolded l]
  have p: "profiles (newly_profiled ds s) ?s1 (snd (scan_entries k ds [] ?s2))"
    using profiles_trans [OF p1 conjunct1 [OF E]] by (simp add: newly_profiled_def)
  have sct: "scan_threads k (Some ds) s = (snd (scan_entries k ds [] ?s2))\<lparr>last_scan_threads := fst (scan_entries k ds [] ?s2)\<rparr>"
    using started on l(2) by (simp add: scan_threads_def Let_def split_def split: if_splits)
  from p obtain ext where ext: "calls (snd (scan_entries k ds [] ?s2)) = calls s @ ext" "creates ext = newly_profiled ds s"
      "list_all (arms (sint ?i)) ext" "set (timers s) \<subseteq> set (timers (snd (scan_entries k ds [] ?s2)))"
    by (auto simp: profiles_def)
  show ?thesis unfolding sct by (rule exI [of _ ext]) (use ext conjunct2 [OF E] in simp)
qed

text \<open>C18: With both agent threads running and an interval set (neither the requested nor the current one is
  \<open>NOT_SCANNING\<close>), a scan of a directory that lists each thread once tries to create a timer for exactly the listed
  threads that the previous scan did not see, in order and each once; the agent's own two threads are never among them,
  no timer is lost, and the threads of this scan are remembered. Whether the creation succeeds makes no difference: a
  thread whose timer could not be created counts as seen and is not tried again.\<close>

theorem scan_profiles_each_thread_once:
  assumes "metrics_thread_started s" "processor_thread_started s" "atomic_interval_in_ns s \<noteq> NOT_SCANNING"
    and "local_interval_in_ns s \<noteq> NOT_SCANNING" "distinct (visible_threads s ds)"
  shows "\<exists>ext. calls (scan_threads k (Some ds) s) = calls s @ ext \<and>
     creates ext = filter (\<lambda>t. t \<notin> set (last_scan_threads s)) (visible_threads s ds) \<and> distinct (creates ext) \<and>
     metrics_thread_id s \<notin> set (creates ext) \<and> processor_thread_id s \<notin> set (creates ext) \<and>
     set (timers s) \<subseteq> set (timers (scan_threads k (Some ds) s)) \<and>
     set (last_scan_threads (scan_threads k (Some ds) s)) = set (visible_threads s ds)"
proof -
  obtain ext where "calls (scan_threads k (Some ds) s) = calls s @ ext" "creates ext = newly_profiled ds s"
      "set (timers s) \<subseteq> set (timers (scan_threads k (Some ds) s))"
      "set (last_scan_threads (scan_threads k (Some ds) s)) = set (visible_threads s ds)"
    using scan_threads_result [OF assms(1-3)] by metis
  moreover have "metrics_thread_id s \<notin> set (visible_threads s ds)" "processor_thread_id s \<notin> set (visible_threads s ds)"
    by (simp_all add: visible_threads_def)
  ultimately show ?thesis using assms(4,5) by (intro exI [of _ ext]) (auto simp: newly_profiled_def)
qed

definition demo_scanner :: scanner where
  "demo_scanner = on_metrics_thread_start 11 (on_processor_thread_start 12 (update_scanning_threads_interval 100 scanner_init))"

definition demo_scan :: "string list \<Rightarrow> scanner \<Rightarrow> scanner" where
  "demo_scan ds s = scan_threads (\<lambda>cs tid. Some (length cs)) (Some ds) s"

definition demo_scanned :: scanner where
  "demo_scanned = \<lparr>last_scan_threads = [10], timers = [0], metrics_thread_id = 11, processor_thread_id = 12,
     metrics_thread_started = True, processor_thread_started = True, atomic_interval_in_ns = 100000000,
     local_interval_in_ns = 100000000, calls = []\<rparr>"

lemma scan_profiles_each_thread_once_witness:
  "\<exists>ext. calls (demo_scan [''.'', ''..'', ''10'', ''11'', ''12'', ''13''] demo_scanned) = ext \<and> creates ext = [13]"
proof -
  let ?ds = "[''.'', ''..'', ''10'', ''11'', ''12'', ''13'']"
  have "strtol0 ''10'' = 10" "strtol0 ''11'' = 11" "strtol0 ''12'' = 12" "strtol0 ''13'' = 13" by code_simp+
  then have v: "visible_threads demo_scanned ?ds = [10, 13]" by (simp add: visible_threads_def demo_scanned_def)
  from scan_profiles_each_thread_once [of demo_scanned ?ds "\<lambda>cs tid. Some (length cs)"] v
  show ?thesis by (auto simp: demo_scan_def demo_scanned_def NOT_SCANNING_def)
qed

text \<open>A scan arms every timer it creates or updates with zero seconds and all of the interval in the
  nanoseconds field. From one second on this is not a valid nanosecond count, which \<open>timer_settime\<close> rejects:
  it is below 1000000000 exactly for intervals under 1000 milliseconds. After a stop request the value is
  negative, and no timer is deleted.\<close>

lemma scan_arms_interval:
  assumes "metrics_thread_started s" "processor_thread_started s" "ms \<le> 9223372036854"
  shows "(\<exists>ext. calls (scan_threads k (Some ds) (update_scanning_threads_interval ms s)) = calls s @ ext \<and>
       list_all (arms (uint ms * 1000000)) ext) \<and>
     (uint ms * 1000000 < 1000000000 \<longleftrightarrow> ms < 1000) \<and>
     (\<exists>ext. calls (scan_threads k (Some ds) (stop_scanning_threads s)) = calls s @ ext \<and>
       list_all (arms (- 1000000)) ext)"
proof -
  have on: "ms * MS_TO_NS \<noteq> NOT_SCANNING" for ms
    using scanning_on [of ms s] by (simp add: is_scanning_threads_def update_scanning_threads_interval_def)
  have scan: "\<exists>ext. calls (scan_threads k (Some ds) (update_scanning_threads_interval m s)) = calls s @ ext \<and>
       list_all (arms (sint (m * MS_TO_NS))) ext" for m
    using scan_threads_result [of "update_scanning_threads_interval m s" k ds] assms(1,2) on [of m]
    by (auto simp: update_scanning_threads_interval_def)
  have "sint (NOT_SCANNING * MS_TO_NS) = - 1000000"
    by (simp add: NOT_SCANNING_def MS_TO_NS_def)
  with scan [of ms] scan [of NOT_SCANNING] sint_interval [OF assms(3)] show ?thesis
    by (simp add: stop_scanning_threads_def word_less_alt)
qed

lemma scan_arms_interval_witness:
  "\<exists>ext. calls (scan_threads (\<lambda>cs tid. Some 7) (Some [''10'']) (update_scanning_threads_interval 2000 demo_scanned)) = ext \<and>
     list_all (arms 2000000000) ext"
  using scan_arms_interval [of demo_scanned 2000 "\<lambda>cs tid. Some 7" "[''10'']"]
  by (auto simp: demo_scanned_def)

end
