(* ===== verification/Symbol_Table.thy ===== *)
theory Symbol_Table
  imports Config
begin

text \<open>
  \<^verbatim>\<open>src/lib/symbol_table.cpp\<close>: the cache from program counters to source locations and the numbering of files
  and functions. libbacktrace and \<open>dladdr\<close> are the record \<open>debug_info\<close>: for each address the callbacks they
  would make, in order. The callbacks of the client are recorded in \<open>announced\<close>.
\<close>

section \<open>State\<close>

definition NUMBER_OF_SIGNAL_HANDLER_FRAMES :: nat where "NUMBER_OF_SIGNAL_HANDLER_FRAMES = 3"

record Location =
  methodId :: u64
  lineNumber :: int
  loc_fileName :: string
  functionName :: string

datatype announcement = NewFile u64 string | NewFunction u64 string u64

text \<open>Which client's error callback is installed.\<close>

datatype error_callback = NoErrorCallback | LogWriterError | PrometheusError

record symbols =
  nextId :: u64
  knownAddrToLocations :: "u64 \<Rightarrow> Location list option"
  knownMethodToIds :: "string \<Rightarrow> u64 option"
  knownFileToIds :: "string \<Rightarrow> u64 option"
  currentLocations :: "Location list"
  currentSymbolName :: string
  error_callback :: error_callback
  newFileCallback :: bool
  newFunctionCallback :: bool
  btState :: bool
  announced :: "announcement list"

definition symbols_init :: symbols where
  "symbols_init = \<lparr>nextId = 1, knownAddrToLocations = Map.empty, knownMethodToIds = Map.empty,
     knownFileToIds = Map.empty, currentLocations = [], currentSymbolName = [], error_callback = NoErrorCallback,
     newFileCallback = False, newFunctionCallback = False, btState = False, announced = []\<rparr>"

record Dl_info =
  dli_sname :: "string option"
  dli_fname :: "string option"

datatype pc_event = PcInfo u64 "string option" int "string option" | PcError
datatype sym_event = SymInfo "string option" | SymError

record debug_info =
  pcinfo :: "u64 \<Rightarrow> pc_event list"
  syminfo :: "u64 \<Rightarrow> sym_event list"
  dladdr :: "u64 \<Rightarrow> Dl_info option"

text \<open>
  The pointer a callback is handed as its data, and what calling one may run into: a member of a null object, a format whose
  conversions its arguments do not match, a null function.
\<close>

datatype callback_data = NullData | WriterData

datatype symbol_fault = NullCallbackData | FormatMismatch | NullFunction

section \<open>Callbacks\<close>

definition recordFile :: "string \<Rightarrow> symbols \<Rightarrow> u64 \<times> symbols" where
  "recordFile fileName s =
     (case knownFileToIds s fileName of
        Some fileId \<Rightarrow> (fileId, s)
      | None \<Rightarrow>
          (let fileId = nextId s;
               s = s\<lparr>nextId := nextId s + 1, knownFileToIds := (knownFileToIds s)(fileName \<mapsto> fileId)\<rparr>;
               s = (if newFileCallback s then s\<lparr>announced := announced s @ [NewFile fileId fileName]\<rparr> else s)
           in (fileId, s)))"

definition recordFunction :: "string \<Rightarrow> u64 \<Rightarrow> symbols \<Rightarrow> u64 \<times> symbols" where
  "recordFunction func fileId s =
     (case knownMethodToIds s func of
        Some functionId \<Rightarrow> (functionId, s)
      | None \<Rightarrow>
          (let functionId = nextId s;
               s = s\<lparr>nextId := nextId s + 1, knownMethodToIds := (knownMethodToIds s)(func \<mapsto> functionId)\<rparr>;
               s = (if newFunctionCallback s then s\<lparr>announced := announced s @ [NewFunction functionId func fileId]\<rparr> else s)
           in (functionId, s)))"

text \<open>The name \<open>dladdr\<close> gives when debug information has none, and the binary as the file.\<close>

definition dl_function :: "Dl_info \<Rightarrow> string \<Rightarrow> string" where
  "dl_function dl func =
     (if func = [] then
        case dli_sname dl of
          Some n \<Rightarrow> n
        | None \<Rightarrow> (case dli_fname dl of Some f \<Rightarrow> func @ ''In '' @ f | None \<Rightarrow> func)
      else func)"

text \<open>Everything from the function's name on: its number, and the location pushed.\<close>

definition recordLocation :: "string \<Rightarrow> u64 \<Rightarrow> string \<Rightarrow> int \<Rightarrow> symbols \<Rightarrow> symbols" where
  "recordLocation func fileId fileName line s =
     (let func = (if func = [] then ''Unknown'' else func);
          (functionId, s) = recordFunction func fileId s
      in s\<lparr>currentLocations := currentLocations s @
            [\<lparr>methodId = functionId, lineNumber = line, loc_fileName = fileName, functionName = func\<rparr>]\<rparr>)"

definition handlePcInfo :: "debug_info \<Rightarrow> u64 \<Rightarrow> string option \<Rightarrow> int \<Rightarrow> string option \<Rightarrow> symbols \<Rightarrow> symbols" where
  "handlePcInfo di pc btFileName line btFunctionName s =
     (let (fileId, fileName, s) = (case btFileName of
            None \<Rightarrow> (0, [], s) | Some f \<Rightarrow> (let (i, s) = recordFile f s in (i, f, s)));
          func = (case btFunctionName of None \<Rightarrow> [] | Some n \<Rightarrow> n);
          func = (if func = [] \<and> currentSymbolName s \<noteq> [] then currentSymbolName s else func)
      in if func = [] \<or> fileId = 0 then
           case dladdr di pc of
             None \<Rightarrow> recordLocation func fileId fileName line s
           | Some dl \<Rightarrow>
               (case dli_fname dl of
                  Some f \<Rightarrow>
                    if fileId = 0
                    then (let (i, s) = recordFile f s in recordLocation (dl_function dl func) i f line s)
                    else recordLocation (dl_function dl func) fileId fileName line s
                | None \<Rightarrow> recordLocation (dl_function dl func) fileId fileName line s)
         else recordLocation func fileId fileName line s)"

definition DUNE_PREFIX :: string where "DUNE_PREFIX = ''camlDune__exe__''"
definition DUNE_PREFIX_LEN :: nat where "DUNE_PREFIX_LEN = 15"

definition handleSyminfo :: "string option \<Rightarrow> symbols \<Rightarrow> symbols" where
  "handleSyminfo btSymbolName s =
     (case btSymbolName of
        None \<Rightarrow> s
      | Some n \<Rightarrow>
          if take DUNE_PREFIX_LEN n = take DUNE_PREFIX_LEN DUNE_PREFIX
          then s\<lparr>currentSymbolName := the (substitute_option (drop DUNE_PREFIX_LEN n) ''__'' ''.'')\<rparr>
          else s\<lparr>currentSymbolName := n\<rparr>)"

section \<open>Interface\<close>

definition init_symbols :: "error_callback \<Rightarrow> bool \<Rightarrow> bool \<Rightarrow> symbols \<Rightarrow> symbols" where
  "init_symbols err newFile newFunction s =
     s\<lparr>error_callback := err, newFileCallback := newFile, newFunctionCallback := newFunction, btState := True\<rparr>"

text \<open>
  The two error callbacks; neither returns. The log writer's (\<^verbatim>\<open>log_writer.cpp\<close>) reads a member of the writer it is
  given, and given one it formats two conversions with one argument. The exporter's (\<^verbatim>\<open>prometheus_exporter.cpp\<close>) ignores
  the data and has \<open>logError\<close> format \<open>%s %n\<close>, where \<open>%n\<close> writes through a pointer and the argument is a number.
\<close>

definition writer_bt_error :: "callback_data \<Rightarrow> symbol_fault" where
  "writer_bt_error self = (if self = NullData then NullCallbackData else FormatMismatch)"

definition exporter_bt_error :: "callback_data \<Rightarrow> symbol_fault" where
  "exporter_bt_error _ = FormatMismatch"

text \<open>An error libbacktrace reports reaches the installed callback with the data the lookups pass, which is null.\<close>

definition bt_error :: "symbols \<Rightarrow> symbol_fault" where
  "bt_error s = (case error_callback s of
     NoErrorCallback \<Rightarrow> NullFunction
   | LogWriterError \<Rightarrow> writer_bt_error NullData
   | PrometheusError \<Rightarrow> exporter_bt_error NullData)"

fun run_syminfo :: "sym_event list \<Rightarrow> symbols \<Rightarrow> symbol_fault + symbols" where
  "run_syminfo [] s = Inr s"
| "run_syminfo (SymInfo n # es) s = run_syminfo es (handleSyminfo n s)"
| "run_syminfo (SymError # es) s = Inl (bt_error s)"

fun run_pcinfo :: "debug_info \<Rightarrow> pc_event list \<Rightarrow> symbols \<Rightarrow> symbol_fault + symbols" where
  "run_pcinfo di [] s = Inr s"
| "run_pcinfo di (PcInfo pc f l n # es) s = run_pcinfo di es (handlePcInfo di pc f l n s)"
| "run_pcinfo di (PcError # es) s = Inl (bt_error s)"

definition lookup_locations :: "debug_info \<Rightarrow> u64 \<Rightarrow> bool \<Rightarrow> symbols \<Rightarrow> symbol_fault + Location list \<times> symbols" where
  "lookup_locations di pc foreign s =
     (case knownAddrToLocations s pc of
        Some ls \<Rightarrow> Inr (ls, s)
      | None \<Rightarrow>
          (let s = s\<lparr>currentLocations := [], currentSymbolName := []\<rparr> in
           case (if \<not> foreign then run_syminfo (syminfo di pc) s else Inr s) of
             Inl e \<Rightarrow> Inl e
           | Inr s \<Rightarrow>
               (case run_pcinfo di (pcinfo di pc) s of
                  Inl e \<Rightarrow> Inl e
                | Inr s \<Rightarrow> Inr (currentLocations s,
                    s\<lparr>knownAddrToLocations := (knownAddrToLocations s)(pc \<mapsto> currentLocations s)\<rparr>))))"

definition clear_symbols :: "symbols \<Rightarrow> symbols" where
  "clear_symbols s = s\<lparr>knownAddrToLocations := Map.empty, knownMethodToIds := Map.empty, knownFileToIds := Map.empty\<rparr>"

section \<open>Invariant\<close>

text \<open>
  \<open>new\<close> is what has been announced since the caches were last cleared, \<open>budget\<close> how many more ids may be
  handed out before the 64-bit counter wraps.
\<close>

definition ids_of :: "symbols \<Rightarrow> u64 set" where
  "ids_of s = ran (knownMethodToIds s) \<union> ran (knownFileToIds s)"

definition loc_ok :: "symbols \<Rightarrow> Location \<Rightarrow> bool" where
  "loc_ok s l \<longleftrightarrow> knownMethodToIds s (functionName l) = Some (methodId l)"

definition ids_inv :: "nat \<Rightarrow> symbols \<Rightarrow> bool" where
  "ids_inv budget s \<longleftrightarrow>
     0 < unat (nextId s) \<and> unat (nextId s) + budget < 2 ^ 64 \<and> (\<forall>i \<in> ids_of s. 0 < i \<and> i < nextId s) \<and>
     inj_on (knownMethodToIds s) (dom (knownMethodToIds s)) \<and> inj_on (knownFileToIds s) (dom (knownFileToIds s)) \<and>
     ran (knownMethodToIds s) \<inter> ran (knownFileToIds s) = {}"

text \<open>A function's file is announced before the function.\<close>

definition files_first :: "announcement list \<Rightarrow> bool" where
  "files_first new \<longleftrightarrow> (\<forall>k < length new. \<forall>i n fid. new ! k = NewFunction i n fid \<and> fid \<noteq> 0 \<longrightarrow>
     (\<exists>j < k. \<exists>f. new ! j = NewFile fid f))"

definition announced_inv :: "announcement list \<Rightarrow> symbols \<Rightarrow> bool" where
  "announced_inv new s \<longleftrightarrow>
     newFileCallback s \<and> newFunctionCallback s \<and> files_first new \<and>
     (\<forall>f i. knownFileToIds s f = Some i \<longleftrightarrow> NewFile i f \<in> set new) \<and>
     (\<forall>n i. knownMethodToIds s n = Some i \<longleftrightarrow> (\<exists>fid. NewFunction i n fid \<in> set new))"

definition locs_inv :: "symbols \<Rightarrow> bool" where
  "locs_inv s \<longleftrightarrow> (\<forall>pc ls. knownAddrToLocations s pc = Some ls \<longrightarrow> list_all (loc_ok s) ls) \<and>
     list_all (loc_ok s) (currentLocations s)"

definition sym_inv :: "announcement list \<Rightarrow> nat \<Rightarrow> symbols \<Rightarrow> bool" where
  "sym_inv new budget s \<longleftrightarrow> ids_inv budget s \<and> announced_inv new s \<and> locs_inv s"

lemma files_first_append:
  assumes first: "files_first new" and a: "\<And>i n fid. a = NewFunction i n fid \<Longrightarrow> fid \<noteq> 0 \<Longrightarrow> \<exists>f. NewFile fid f \<in> set new"
  shows "files_first (new @ [a])"
  unfolding files_first_def
proof (intro allI impI)
  fix k i n fid
  assume k: "k < length (new @ [a])" and f: "(new @ [a]) ! k = NewFunction i n fid \<and> fid \<noteq> 0"
  show "\<exists>j < k. \<exists>f. (new @ [a]) ! j = NewFile fid f"
  proof (cases "k < length new")
    case True
    with f have "new ! k = NewFunction i n fid \<and> fid \<noteq> 0" by (simp add: nth_append)
    with first True obtain j f where "j < k" "new ! j = NewFile fid f" unfolding files_first_def by blast
    with True show ?thesis by (intro exI [of _ j]) (auto simp: nth_append)
  next
    case False
    with k f a obtain f where "NewFile fid f \<in> set new" "k = length new" by (auto simp: nth_append split: if_splits)
    then show ?thesis by (auto simp: in_set_conv_nth nth_append)
  qed
qed

lemma next_id:
  assumes "ids_inv (Suc b) s"
  shows "unat (nextId s + 1) = Suc (unat (nextId s))" "nextId s < nextId s + 1" "0 < nextId s"
    "i \<in> ids_of s \<Longrightarrow> i < nextId s + 1" "nextId s \<notin> ids_of s"
proof -
  have lt: "unat (nextId s) + 1 < 2 ^ 64" using assms by (simp add: ids_inv_def)
  show u: "unat (nextId s + 1) = Suc (unat (nextId s))" using lt by (simp add: unat_word_ariths)
  show l: "nextId s < nextId s + 1" by (simp add: word_less_nat_alt u)
  show "0 < nextId s" using assms by (simp add: ids_inv_def word_less_nat_alt)
  show "i \<in> ids_of s \<Longrightarrow> i < nextId s + 1" using assms l by (auto simp: ids_inv_def dest: less_trans)
  show "nextId s \<notin> ids_of s" using assms by (auto simp: ids_inv_def)
qed

lemma inj_on_map_upd: "inj_on m (dom m) \<Longrightarrow> v \<notin> ran m \<Longrightarrow> inj_on (m(k \<mapsto> v)) (dom (m(k \<mapsto> v)))"
  by (auto simp: inj_on_def ran_def dom_def)

lemma ran_fresh: "m k = None \<Longrightarrow> ran (m(k \<mapsto> v)) = insert v (ran m)"
  by (rule ran_map_upd)

lemma ids_inv_smaller: "ids_inv (Suc b) s \<Longrightarrow> ids_inv b s"
  by (auto simp: ids_inv_def)

text \<open>From \<open>s\<close> to \<open>s'\<close> the announcements \<open>ext\<close> are made, nothing known is forgotten and the invariant is kept.\<close>

fun ann_id :: "announcement \<Rightarrow> u64" where
  "ann_id (NewFile i f) = i"
| "ann_id (NewFunction i n fid) = i"

definition grows :: "announcement list \<Rightarrow> announcement list \<Rightarrow> nat \<Rightarrow> symbols \<Rightarrow> symbols \<Rightarrow> bool" where
  "grows new ext b s s' \<longleftrightarrow> announced s' = announced s @ ext \<and> sym_inv (new @ ext) b s' \<and>
     error_callback s' = error_callback s \<and> knownAddrToLocations s' = knownAddrToLocations s \<and>
     nextId s \<le> nextId s' \<and> (\<forall>a \<in> set ext. nextId s \<le> ann_id a) \<and>
     (\<forall>n i. knownMethodToIds s n = Some i \<longrightarrow> knownMethodToIds s' n = Some i)"

lemma recordFile_grows:
  assumes inv: "sym_inv new (Suc b) s"
  obtains i s' ext where "recordFile f s = (i, s')" "grows new ext b s s'" "i \<noteq> 0" "NewFile i f \<in> set (new @ ext)"
proof (cases "knownFileToIds s f")
  case (Some i)
  then have "i \<in> ids_of s" by (auto simp: ids_of_def ran_def)
  then have "i \<noteq> 0" using inv by (auto simp: sym_inv_def ids_inv_def)
  moreover have "NewFile i f \<in> set new" using inv Some by (auto simp: sym_inv_def announced_inv_def)
  ultimately show thesis using that [of i s "[]"] inv Some ids_inv_smaller
    by (auto simp: recordFile_def grows_def sym_inv_def)
next
  case None
  let ?i = "nextId s"
  let ?s = "s\<lparr>nextId := nextId s + 1, knownFileToIds := (knownFileToIds s)(f \<mapsto> ?i), announced := announced s @ [NewFile ?i f]\<rparr>"
  have I: "ids_inv (Suc b) s" "announced_inv new s" "locs_inv s" using inv by (auto simp: sym_inv_def)
  note N = next_id [OF I(1)]
  have r: "recordFile f s = (?i, ?s)" using None I(2) by (simp add: recordFile_def announced_inv_def Let_def)
  have fresh: "?i \<notin> ran (knownFileToIds s)" "?i \<notin> ran (knownMethodToIds s)" using N(5) by (auto simp: ids_of_def)
  have ids: "ids_inv b ?s"
    using I(1) N(1-4) fresh inj_on_map_upd [of "knownFileToIds s" ?i f] ran_fresh [of "knownFileToIds s" f ?i] None
    by (auto simp: ids_inv_def ids_of_def)
  have nf: "NewFile i f \<notin> set new" for i using I(2) None by (metis announced_inv_def option.distinct(1))
  have "announced_inv (new @ [NewFile ?i f]) ?s"
    using I(2) nf files_first_append [of new "NewFile ?i f"] by (auto simp: announced_inv_def)
  moreover have "locs_inv ?s" using I(3) by (simp add: locs_inv_def loc_ok_def [abs_def])
  ultimately show thesis using that [OF r, of "[NewFile ?i f]"] ids N(2,3) by (auto simp: grows_def sym_inv_def)
qed

lemma recordFunction_grows:
  assumes inv: "sym_inv new (Suc b) s" and known: "fid = 0 \<or> (\<exists>f. NewFile fid f \<in> set new)"
  obtains i s' ext where "recordFunction n fid s = (i, s')" "grows new ext b s s'" "knownMethodToIds s' n = Some i"
proof (cases "knownMethodToIds s n")
  case (Some i)
  then show thesis using that [of i s "[]"] inv ids_inv_smaller
    by (auto simp: recordFunction_def grows_def sym_inv_def)
next
  case None
  let ?i = "nextId s"
  let ?s = "s\<lparr>nextId := nextId s + 1, knownMethodToIds := (knownMethodToIds s)(n \<mapsto> ?i), announced := announced s @ [NewFunction ?i n fid]\<rparr>"
  have I: "ids_inv (Suc b) s" "announced_inv new s" "locs_inv s" using inv by (auto simp: sym_inv_def)
  note N = next_id [OF I(1)]
  have r: "recordFunction n fid s = (?i, ?s)" using None I(2) by (simp add: recordFunction_def announced_inv_def Let_def)
  have fresh: "?i \<notin> ran (knownFileToIds s)" "?i \<notin> ran (knownMethodToIds s)" using N(5) by (auto simp: ids_of_def)
  have ids: "ids_inv b ?s"
    using I(1) N(1-4) fresh inj_on_map_upd [of "knownMethodToIds s" ?i n] ran_fresh [of "knownMethodToIds s" n ?i] None
    by (auto simp: ids_inv_def ids_of_def)
  have nf: "NewFunction i n g \<notin> set new" for i g using I(2) None by (metis announced_inv_def option.distinct(1))
  have "announced_inv (new @ [NewFunction ?i n fid]) ?s"
    using I(2) nf known files_first_append [of new "NewFunction ?i n fid"] by (auto simp: announced_inv_def)
  moreover have "locs_inv ?s" using I(3) None by (auto simp: locs_inv_def loc_ok_def list_all_iff)
  ultimately show thesis using that [OF r, of "[NewFunction ?i n fid]"] ids None N(2) by (auto simp: grows_def sym_inv_def)
qed

section \<open>Lookups\<close>

lemma grows_refl: "sym_inv new b s \<Longrightarrow> grows new [] b s s"
  by (simp add: grows_def)

lemma grows_trans: "grows new ext b s t \<Longrightarrow> grows (new @ ext) ext2 c t u \<Longrightarrow> grows new (ext @ ext2) c s u"
  by (auto simp: grows_def)

lemma recordLocation_grows:
  assumes inv: "sym_inv new (Suc b) s" and known: "fid = 0 \<or> (\<exists>f. NewFile fid f \<in> set new)"
  shows "\<exists>ext. grows new ext b s (recordLocation func fid fn line s)"
proof -
  let ?func = "if func = [] then ''Unknown'' else func"
  obtain i s' ext where r: "recordFunction ?func fid s = (i, s')" "grows new ext b s s'" "knownMethodToIds s' ?func = Some i"
    using recordFunction_grows [OF inv known] by metis
  have "recordLocation func fid fn line s = s'\<lparr>currentLocations := currentLocations s' @
      [\<lparr>methodId = i, lineNumber = line, loc_fileName = fn, functionName = ?func\<rparr>]\<rparr>"
    unfolding recordLocation_def Let_def r(1) by simp
  then show ?thesis using r(2,3)
    by (intro exI [of _ ext])
      (auto simp: grows_def sym_inv_def ids_inv_def ids_of_def announced_inv_def locs_inv_def loc_ok_def list_all_iff)
qed

lemma file_and_location_grows:
  assumes inv: "sym_inv new (b + 2) s" and r: "recordFile f s = (i, s')"
  shows "i \<noteq> 0 \<and> (\<exists>ext. grows new ext b s (recordLocation func i fn line s'))"
proof -
  have "sym_inv new (Suc (Suc b)) s" using inv by simp
  then obtain ext where e: "grows new ext (Suc b) s s'" "i \<noteq> 0" "NewFile i f \<in> set (new @ ext)"
    using recordFile_grows [of new "Suc b" s f] r by (metis prod.inject)
  then have "sym_inv (new @ ext) (Suc b) s'" by (simp add: grows_def)
  from recordLocation_grows [OF this, of i func fn line] e(3) obtain ext2 where
    "grows (new @ ext) ext2 b s' (recordLocation func i fn line s')" by blast
  from grows_trans [OF e(1) this] e(2) show ?thesis by blast
qed

lemma sym_inv_smaller: "sym_inv new (b + 2) s \<Longrightarrow> sym_inv new (Suc b) s"
  using ids_inv_smaller [of "Suc b" s] by (simp add: sym_inv_def)

lemma handlePcInfo_grows:
  assumes inv: "sym_inv new (b + 2) s"
  shows "\<exists>ext. grows new ext b s (handlePcInfo di pc f line n s)"
proof (cases f)
  case None
  have plain: "\<exists>ext. grows new ext b s (recordLocation func 0 fn line s)" for func fn
    using recordLocation_grows [OF sym_inv_smaller [OF inv]] by simp
  have filed: "\<exists>ext. grows new ext b s (case recordFile g s of (i, s) \<Rightarrow> recordLocation func i g line s)" for func g
    using file_and_location_grows [OF inv] by (cases "recordFile g s") auto
  show ?thesis
    unfolding handlePcInfo_def None Let_def option.case prod.case
    using plain filed by (simp split: option.split)
next
  case (Some g)
  obtain i s' where r: "recordFile g s = (i, s')" by (cases "recordFile g s")
  note g = file_and_location_grows [OF inv r]
  show ?thesis
    unfolding handlePcInfo_def Some Let_def option.case r prod.case
    using g by (simp split: option.split)
qed

lemma run_pcinfo_grows:
  assumes "run_pcinfo di es s = Inr s'" and "sym_inv new (b + 2 * length es) s"
  shows "\<exists>ext. grows new ext b s s'"
  using assms
proof (induction di es s arbitrary: new rule: run_pcinfo.induct)
  case (1 di s)
  then show ?case using grows_refl by auto
next
  case (2 di pc f l n es s)
  have "sym_inv new (b + 2 * length es + 2) s" using "2.prems"(2) by (simp add: algebra_simps)
  from handlePcInfo_grows [OF this] obtain ext where e: "grows new ext (b + 2 * length es) s (handlePcInfo di pc f l n s)"
    by blast
  have "sym_inv (new @ ext) (b + 2 * length es) (handlePcInfo di pc f l n s)" using e by (simp add: grows_def)
  then obtain ext2 where "grows (new @ ext) ext2 b (handlePcInfo di pc f l n s) s'"
    using "2.IH" "2.prems"(1) by auto
  from grows_trans [OF e this] show ?case by blast
qed simp

lemma run_syminfo_grows: "run_syminfo es s = Inr s' \<Longrightarrow> sym_inv new b s \<Longrightarrow> grows new [] b s s'"
proof (induction es s rule: run_syminfo.induct)
  case (2 n es s)
  have "grows new [] b s (handleSyminfo n s)" using "2.prems"(2)
    by (auto simp: handleSyminfo_def grows_def sym_inv_def ids_inv_def ids_of_def announced_inv_def locs_inv_def
      loc_ok_def [abs_def] split: option.split)
  moreover from this have "grows new [] b (handleSyminfo n s) s'" using 2 by (simp add: grows_def)
  ultimately show ?case using grows_trans [of new "[]" b s _ "[]" b s'] by simp
qed (auto simp: grows_refl)

text \<open>Between lookups the vector a lookup fills does not matter.\<close>

definition lookup_inv :: "announcement list \<Rightarrow> nat \<Rightarrow> symbols \<Rightarrow> bool" where
  "lookup_inv new b s = sym_inv new b (s\<lparr>currentLocations := []\<rparr>)"

lemma sym_inv_scratch:
  "sym_inv new b (s\<lparr>currentLocations := [], currentSymbolName := x\<rparr>) = sym_inv new b (s\<lparr>currentLocations := []\<rparr>)"
  by (simp add: sym_inv_def ids_inv_def ids_of_def announced_inv_def locs_inv_def loc_ok_def [abs_def])

lemma sym_inv_cached:
  assumes "sym_inv new b s" and "ls = currentLocations s"
  shows "sym_inv new b (s\<lparr>knownAddrToLocations := (knownAddrToLocations s)(pc \<mapsto> ls), currentLocations := []\<rparr>)"
proof -
  let ?s = "s\<lparr>knownAddrToLocations := (knownAddrToLocations s)(pc \<mapsto> ls), currentLocations := []\<rparr>"
  have "ids_inv b ?s = ids_inv b s" "announced_inv new ?s = announced_inv new s"
    by (simp_all add: ids_inv_def ids_of_def announced_inv_def)
  moreover have "loc_ok ?s = loc_ok s" by (simp add: loc_ok_def [abs_def])
  ultimately show ?thesis using assms by (auto simp: sym_inv_def locs_inv_def)
qed

lemma clear_symbols_inv:
  "newFileCallback s \<Longrightarrow> newFunctionCallback s \<Longrightarrow> nextId s \<noteq> 0 \<Longrightarrow> unat (nextId s) + b < 2 ^ 64 \<Longrightarrow>
   lookup_inv [] b (clear_symbols s)"
  by (simp add: lookup_inv_def clear_symbols_def sym_inv_def ids_inv_def ids_of_def announced_inv_def locs_inv_def
    files_first_def unat_gt_0)

definition later :: "announcement list \<Rightarrow> announcement list \<Rightarrow> nat \<Rightarrow> symbols \<Rightarrow> symbols \<Rightarrow> bool" where
  "later new ext b s s' \<longleftrightarrow> announced s' = announced s @ ext \<and> lookup_inv (new @ ext) b s' \<and>
     error_callback s' = error_callback s \<and> nextId s \<le> nextId s' \<and> (\<forall>a \<in> set ext. nextId s \<le> ann_id a) \<and>
     knownMethodToIds s \<subseteq>\<^sub>m knownMethodToIds s' \<and> knownAddrToLocations s \<subseteq>\<^sub>m knownAddrToLocations s'"

lemma later_trans: "later new ext b s t \<Longrightarrow> later (new @ ext) ext2 c t u \<Longrightarrow> later new (ext @ ext2) c s u"
  by (auto simp: later_def intro: map_le_trans)

lemma lookup_inv_smaller: "lookup_inv new (b + c) s \<Longrightarrow> lookup_inv new b s"
  by (auto simp: lookup_inv_def sym_inv_def ids_inv_def)

lemma lookup_locations_later:
  assumes inv: "lookup_inv new (b + 2 * length (pcinfo di pc)) s" and ok: "lookup_locations di pc foreign s = Inr (ls, s')"
  shows "list_all (loc_ok s') ls \<and> knownAddrToLocations s' pc = Some ls \<and> (\<exists>ext. later new ext b s s')"
proof (cases "knownAddrToLocations s pc")
  case (Some ls')
  then have e: "ls' = ls" "s' = s" using ok by (simp_all add: lookup_locations_def)
  have "list_all (loc_ok s) ls" using inv Some e by (auto simp: lookup_inv_def sym_inv_def locs_inv_def loc_ok_def [abs_def])
  moreover have "later new [] b s s" using lookup_inv_smaller [OF inv] by (simp add: later_def)
  ultimately show ?thesis using Some e by blast
next
  case None
  let ?s = "s\<lparr>currentLocations := [], currentSymbolName := []\<rparr>"
  obtain s1 where s1: "(if \<not> foreign then run_syminfo (syminfo di pc) ?s else Inr ?s) = Inr s1"
    using ok None by (auto simp: lookup_locations_def Let_def split: sum.splits)
  obtain s2 where s2: "run_pcinfo di (pcinfo di pc) s1 = Inr s2"
    using ok None s1 by (auto simp: lookup_locations_def Let_def split: sum.splits)
  have out: "ls = currentLocations s2" "s' = s2\<lparr>knownAddrToLocations := (knownAddrToLocations s2)(pc \<mapsto> ls)\<rparr>"
    using ok None s1 s2 by (auto simp: lookup_locations_def Let_def)
  let ?b = "b + 2 * length (pcinfo di pc)"
  have "sym_inv new ?b ?s" using inv by (simp add: lookup_inv_def sym_inv_scratch)
  then have g1: "grows new [] ?b ?s s1" using s1 run_syminfo_grows grows_refl by (auto split: if_splits)
  then have "sym_inv new ?b s1" by (simp add: grows_def)
  from run_pcinfo_grows [OF s2 this] obtain ext where "grows new ext b s1 s2" by blast
  with g1 have g: "grows new ext b ?s s2" using grows_trans [of new "[]" ?b ?s s1 ext b s2] by simp
  then have I: "sym_inv (new @ ext) b s2" by (simp add: grows_def)
  have "list_all (loc_ok s') ls" using I out by (simp add: sym_inv_def locs_inv_def loc_ok_def [abs_def])
  moreover have "lookup_inv (new @ ext) b s'" unfolding lookup_inv_def out(2) by (rule sym_inv_cached [OF I out(1)])
  ultimately show ?thesis using g out None
    by (auto simp: grows_def later_def map_le_def dom_def intro!: exI [of _ ext])
qed

section \<open>What the client learns\<close>

text \<open>A client that looks up one address after the other, as \<open>recordStackTrace\<close> does.\<close>

fun run_lookups :: "debug_info \<Rightarrow> (u64 \<times> bool) list \<Rightarrow> symbols \<Rightarrow> symbol_fault + Location list list \<times> symbols" where
  "run_lookups di [] s = Inr ([], s)"
| "run_lookups di ((pc, foreign) # ps) s =
     (case lookup_locations di pc foreign s of
        Inl e \<Rightarrow> Inl e
      | Inr (ls, s) \<Rightarrow> (case run_lookups di ps s of Inl e \<Rightarrow> Inl e | Inr (lss, s) \<Rightarrow> Inr (ls # lss, s)))"

definition callbacks :: "debug_info \<Rightarrow> (u64 \<times> bool) list \<Rightarrow> nat" where
  "callbacks di ps = (\<Sum>(pc, _) \<leftarrow> ps. length (pcinfo di pc))"

lemma loc_ok_mono: "loc_ok s l \<Longrightarrow> knownMethodToIds s \<subseteq>\<^sub>m knownMethodToIds s' \<Longrightarrow> loc_ok s' l"
  by (auto simp: loc_ok_def map_le_def dom_def)

lemma run_lookups_later:
  assumes "lookup_inv new (b + 2 * callbacks di ps) s" and "run_lookups di ps s = Inr (lss, s')"
  shows "list_all (list_all (loc_ok s')) lss \<and> map Some lss = map (knownAddrToLocations s' \<circ> fst) ps \<and>
    (\<exists>ext. later new ext b s s')"
  using assms
proof (induction di ps s arbitrary: new lss rule: run_lookups.induct)
  case (1 di s)
  then show ?case by (auto simp: callbacks_def later_def intro!: exI [of _ "[]"])
next
  case (2 di pc foreign ps s)
  then obtain ls s1 lss1 where l: "lookup_locations di pc foreign s = Inr (ls, s1)" "run_lookups di ps s1 = Inr (lss1, s')"
      "lss = ls # lss1"
    by (auto split: sum.splits)
  have inv: "lookup_inv new ((b + 2 * callbacks di ps) + 2 * length (pcinfo di pc)) s"
    using "2.prems"(1) by (simp add: callbacks_def algebra_simps)
  from lookup_locations_later [OF inv l(1)] obtain ext where
    e: "list_all (loc_ok s1) ls" "knownAddrToLocations s1 pc = Some ls" "later new ext (b + 2 * callbacks di ps) s s1" by blast
  from e(3) have "lookup_inv (new @ ext) (b + 2 * callbacks di ps) s1" by (simp add: later_def)
  from "2.IH" [OF l(1) refl this l(2)] obtain ext2 where
    f: "list_all (list_all (loc_ok s')) lss1" "map Some lss1 = map (knownAddrToLocations s' \<circ> fst) ps"
      "later (new @ ext) ext2 b s1 s'" by blast
  have "list_all (loc_ok s') ls" using e(1) f(3) loc_ok_mono by (auto simp: list_all_iff later_def)
  moreover have "knownAddrToLocations s' pc = Some ls"
    using e(2) f(3) by (auto simp: later_def map_le_def dom_def)
  ultimately show ?case using l(3) f later_trans [OF e(3) f(3)] by auto
qed

lemma lookup_inv_ids:
  assumes inv: "lookup_inv new b s" and "loc_ok s l" "loc_ok s l'"
  shows "methodId l = methodId l' \<longleftrightarrow> functionName l = functionName l'" "methodId l \<noteq> 0"
proof -
  have "inj_on (knownMethodToIds s) (dom (knownMethodToIds s))" "\<forall>i \<in> ran (knownMethodToIds s). 0 < i"
    using inv by (auto simp: lookup_inv_def sym_inv_def ids_inv_def ids_of_def)
  with assms(2,3) show "methodId l = methodId l' \<longleftrightarrow> functionName l = functionName l'" "methodId l \<noteq> 0"
    by (auto simp: loc_ok_def inj_on_def dom_def ran_def)
qed

text \<open>After the caches have been cleared (a new connection), looking up any sequence of addresses announces, before
  it is returned, every function a location names, under the id the location carries, and the function's file before the
  function. Ids are never 0, two locations carry the same id exactly when they name the same function, no id handed out
  before is used again, and every address keeps the locations first returned for it.\<close>

lemma lookups_announce_locations:
  assumes callbacks: "newFileCallback s" "newFunctionCallback s"
    and ids: "nextId s \<noteq> 0" "unat (nextId s) + 2 * callbacks di ps < 2 ^ 64"
    and ok: "run_lookups di ps (clear_symbols s) = Inr (lss, s')"
  shows "\<exists>new. announced s' = announced s @ new \<and> files_first new \<and> (\<forall>a \<in> set new. nextId s \<le> ann_id a) \<and>
    (\<forall>l \<in> set (concat lss). methodId l \<noteq> 0 \<and> (\<exists>fid. NewFunction (methodId l) (functionName l) fid \<in> set new) \<and>
      (\<forall>l' \<in> set (concat lss). methodId l = methodId l' \<longleftrightarrow> functionName l = functionName l')) \<and>
    map Some lss = map (knownAddrToLocations s' \<circ> fst) ps"
proof -
  have "lookup_inv [] (0 + 2 * callbacks di ps) (clear_symbols s)"
    using clear_symbols_inv [OF callbacks ids] by simp
  from run_lookups_later [OF this ok] obtain ext where
    r: "list_all (list_all (loc_ok s')) lss" "map Some lss = map (knownAddrToLocations s' \<circ> fst) ps"
      "later [] ext 0 (clear_symbols s) s'" by blast
  have inv: "lookup_inv ext 0 s'" using r(3) by (simp add: later_def)
  then have ann: "announced_inv ext s'" by (auto simp: lookup_inv_def sym_inv_def announced_inv_def)
  have locs: "loc_ok s' l" if "l \<in> set (concat lss)" for l using that r(1) by (auto simp: list_all_iff)
  have "announced s' = announced s @ ext" "\<forall>a \<in> set ext. nextId s \<le> ann_id a"
    using r(3) by (simp_all add: later_def clear_symbols_def)
  moreover have "\<exists>fid. NewFunction (methodId l) (functionName l) fid \<in> set ext" if "l \<in> set (concat lss)" for l
    using locs [OF that] ann by (auto simp: loc_ok_def announced_inv_def)
  moreover have "files_first ext" using ann by (simp add: announced_inv_def)
  ultimately show ?thesis using r(2) lookup_inv_ids [OF inv locs locs] by (intro exI [of _ ext]) blast
qed

section \<open>Errors\<close>

lemma handleSyminfo_callback [simp]: "error_callback (handleSyminfo n s) = error_callback s"
  by (simp add: handleSyminfo_def split: option.split)

lemma run_syminfo_callback: "run_syminfo es s = Inr s' \<Longrightarrow> error_callback s' = error_callback s"
  by (induction es s rule: run_syminfo.induct) simp_all

lemma recordFile_callback: "error_callback (snd (recordFile f s)) = error_callback s"
  by (simp add: recordFile_def Let_def split: option.split)

lemma recordLocation_callback: "error_callback (recordLocation func i fn line s) = error_callback s"
  by (simp add: recordLocation_def recordFunction_def Let_def split: option.split)

lemma handlePcInfo_callback [simp]: "error_callback (handlePcInfo di pc f l n s) = error_callback s"
proof (cases f)
  case None
  show ?thesis unfolding handlePcInfo_def None Let_def option.case prod.case
    by (cases "dladdr di pc") (auto simp: recordLocation_callback recordFile_callback case_prod_beta split: option.split)
next
  case (Some g)
  show ?thesis unfolding handlePcInfo_def Some Let_def option.case case_prod_beta fst_conv snd_conv
    by (cases "dladdr di pc") (auto simp: recordLocation_callback recordFile_callback split: option.split)
qed

lemma run_pcinfo_callback: "run_pcinfo di es s = Inr s' \<Longrightarrow> error_callback s' = error_callback s"
  by (induction di es s rule: run_pcinfo.induct) simp_all

lemma bt_error_cong: "error_callback s' = error_callback s \<Longrightarrow> bt_error s' = bt_error s"
  by (simp add: bt_error_def)

lemma run_syminfo_error: "run_syminfo es s = Inl e \<longleftrightarrow> e = bt_error s \<and> SymError \<in> set es"
proof (induction es s rule: run_syminfo.induct)
  case (2 n es s)
  then show ?case using bt_error_cong [of "handleSyminfo n s" s] by simp
qed auto

lemma run_pcinfo_error: "run_pcinfo di es s = Inl e \<longleftrightarrow> e = bt_error s \<and> PcError \<in> set es"
proof (induction di es s rule: run_pcinfo.induct)
  case (2 di pc f l n es s)
  then show ?case using bt_error_cong [of "handlePcInfo di pc f l n s" s] by simp
qed auto

text \<open>Addresses libbacktrace reports no error for.\<close>

definition no_bt_error :: "debug_info \<Rightarrow> u64 \<times> bool \<Rightarrow> bool" where
  "no_bt_error di p \<longleftrightarrow> (\<not> snd p \<longrightarrow> SymError \<notin> set (syminfo di (fst p))) \<and> PcError \<notin> set (pcinfo di (fst p))"

lemma lookup_returns:
  assumes "no_bt_error di (pc, foreign)"
  obtains ls s' where "lookup_locations di pc foreign s = Inr (ls, s')"
proof (cases "knownAddrToLocations s pc")
  case None
  let ?s = "s\<lparr>currentLocations := [], currentSymbolName := []\<rparr>"
  have "(if \<not> foreign then run_syminfo (syminfo di pc) ?s else Inr ?s) \<noteq> Inl e" for e
    using assms by (simp add: run_syminfo_error no_bt_error_def)
  then obtain s1 where s1: "(if \<not> foreign then run_syminfo (syminfo di pc) ?s else Inr ?s) = Inr s1" by (metis sum.exhaust)
  obtain s2 where "run_pcinfo di (pcinfo di pc) s1 = Inr s2"
    using assms run_pcinfo_error [of di "pcinfo di pc" s1] by (cases "run_pcinfo di (pcinfo di pc) s1") (auto simp: no_bt_error_def)
  with that None s1 show thesis by (simp add: lookup_locations_def Let_def)
qed (use that in \<open>simp add: lookup_locations_def\<close>)

text \<open>C25: A lookup fails exactly when the address is not in the cache and libbacktrace reports an error for it, to whichever
  lookup is made of it; the fault is that of the callback installed. With the log writer's it is the dereference of the null
  pointer the lookups pass as the callbacks' data, with the exporter's the \<open>%n\<close> of its format. Every other lookup returns.\<close>

theorem lookup_faults_iff:
  "(lookup_locations di pc foreign s = Inl e \<longleftrightarrow>
     e = bt_error s \<and> knownAddrToLocations s pc = None \<and>
     (\<not> foreign \<and> SymError \<in> set (syminfo di pc) \<or> PcError \<in> set (pcinfo di pc))) \<and>
   bt_error (init_symbols LogWriterError nf ng s) = NullCallbackData \<and>
   bt_error (init_symbols PrometheusError nf ng s) = FormatMismatch"
proof -
  have "lookup_locations di pc foreign s = Inl e \<longleftrightarrow>
     e = bt_error s \<and> knownAddrToLocations s pc = None \<and>
     (\<not> foreign \<and> SymError \<in> set (syminfo di pc) \<or> PcError \<in> set (pcinfo di pc))"
  proof (cases "knownAddrToLocations s pc")
    case None
    let ?s = "s\<lparr>currentLocations := [], currentSymbolName := []\<rparr>"
    have b: "bt_error ?s = bt_error s" by (rule bt_error_cong) simp
    show ?thesis
    proof (cases "(if \<not> foreign then run_syminfo (syminfo di pc) ?s else Inr ?s)")
      case (Inl f)
      then have "\<not> foreign" "run_syminfo (syminfo di pc) ?s = Inl f" by (auto split: if_splits)
      with None show ?thesis using run_syminfo_error [of "syminfo di pc" ?s f] b by (auto simp: lookup_locations_def Let_def)
    next
      case (Inr s1)
      then have "error_callback s1 = error_callback s" using run_syminfo_callback by (fastforce split: if_splits)
      then have "bt_error s1 = bt_error s" by (rule bt_error_cong)
      moreover have "foreign \<or> SymError \<notin> set (syminfo di pc)"
        using Inr run_syminfo_error [of "syminfo di pc" ?s "bt_error ?s"] by (auto split: if_splits)
      ultimately show ?thesis using None Inr run_pcinfo_error [of di "pcinfo di pc" s1 e]
        by (auto simp: lookup_locations_def Let_def split: sum.split)
    qed
  qed (simp add: lookup_locations_def)
  then show ?thesis by (simp add: bt_error_def init_symbols_def writer_bt_error_def exporter_bt_error_def)
qed

text \<open>A function is known by its name alone: a second one of the same name, in another file, is not announced.\<close>

lemma recordFunction_same_name:
  "recordFunction n fid2 (snd (recordFunction n fid s)) = recordFunction n fid (snd (recordFunction n fid s))"
  by (simp add: recordFunction_def Let_def split: option.split)

section \<open>An example\<close>

text \<open>An OCaml address with one symbol and two inlined locations, then a foreign one known only to \<open>dladdr\<close>.\<close>

definition demo_info :: debug_info where
  "demo_info = \<lparr>
     pcinfo = (\<lambda>pc. if pc = 16 then [PcInfo 16 (Some ''a.ml'') 3 None, PcInfo 16 (Some ''b.ml'') 7 None]
       else [PcInfo pc None 0 None]),
     syminfo = (\<lambda>pc. [SymInfo (Some ''camlDune__exe__Main__go'')]),
     dladdr = (\<lambda>pc. Some \<lparr>dli_sname = None, dli_fname = Some ''libc.so''\<rparr>)\<rparr>"

definition demo_symbols :: symbols where
  "demo_symbols = init_symbols LogWriterError True True symbols_init"

lemmas lookup_simps = run_lookups.simps lookup_locations_def clear_symbols_def init_symbols_def symbols_init_def
  run_syminfo.simps run_pcinfo.simps handleSyminfo_def handlePcInfo_def recordLocation_def recordFunction_def
  recordFile_def dl_function_def DUNE_PREFIX_def DUNE_PREFIX_LEN_def substitute_option_ok Let_def

abbreviation demo_ocaml_locations :: "Location list" where
  "demo_ocaml_locations \<equiv>
     [\<lparr>methodId = 2, lineNumber = 3, loc_fileName = ''a.ml'', functionName = ''Main.go''\<rparr>,
      \<lparr>methodId = 2, lineNumber = 7, loc_fileName = ''b.ml'', functionName = ''Main.go''\<rparr>]"

abbreviation demo_foreign_location :: Location where
  "demo_foreign_location \<equiv>
     \<lparr>methodId = 5, lineNumber = 0, loc_fileName = ''libc.so'', functionName = ''In libc.so''\<rparr>"

lemma demo_lookups:
  obtains s' where
    "run_lookups demo_info [(16, False), (32, True), (16, False)] (clear_symbols demo_symbols) =
       Inr ([demo_ocaml_locations, [demo_foreign_location], demo_ocaml_locations], s')"
    "announced s' = [NewFile 1 ''a.ml'', NewFunction 2 ''Main.go'' 1, NewFile 3 ''b.ml'', NewFile 4 ''libc.so'',
       NewFunction 5 ''In libc.so'' 4]"
  by (simp add: lookup_simps demo_symbols_def demo_info_def replace_all.simps string_find_def)

lemma lookups_announce_locations_witness:
  "\<exists>s' new.
     run_lookups demo_info [(16, False), (32, True), (16, False)] (clear_symbols demo_symbols) =
       Inr ([demo_ocaml_locations, [demo_foreign_location], demo_ocaml_locations], s') \<and>
     announced s' = announced demo_symbols @ new \<and> files_first new \<and> new \<noteq> []"
proof -
  obtain s' where s': "run_lookups demo_info [(16, False), (32, True), (16, False)] (clear_symbols demo_symbols) =
       Inr ([demo_ocaml_locations, [demo_foreign_location], demo_ocaml_locations], s')"
    "announced s' \<noteq> []"
    using demo_lookups by (metis list.distinct(1))
  have "newFileCallback demo_symbols" "newFunctionCallback demo_symbols" "nextId demo_symbols \<noteq> 0"
    "unat (nextId demo_symbols) + 2 * callbacks demo_info [(16, False), (32, True), (16, False)] < 2 ^ 64"
    "announced demo_symbols = []"
    by (simp_all add: demo_symbols_def init_symbols_def symbols_init_def callbacks_def demo_info_def)
  with lookups_announce_locations [OF this(1-4) s'(1)] s' show ?thesis by auto
qed

end
