(* ===== verification/Text_Format.thy ===== *)
theory Text_Format
  imports Config
begin

text \<open>
  Text as the standard library and boost read and write it where the agent uses them: decimal numbers
  (\<open>std::to_string\<close>, \<open>boost::lexical_cast<int64_t>\<close>) and \<open>boost::split\<close> at compressed spaces.
\<close>

section \<open>Decimal numbers\<close>

fun show_nat :: "nat \<Rightarrow> string" where
  "show_nat n = (if n < 10 then [char_of (48 + n)] else show_nat (n div 10) @ [char_of (48 + n mod 10)])"

declare show_nat.simps [simp del]

definition show_int :: "int \<Rightarrow> string" where
  "show_int i = (if i < 0 then CHR ''-'' # show_nat (nat (- i)) else show_nat (nat i))"

text \<open>\<open>lexical_cast<int64_t>\<close>: an optional sign and digits only, within range; anything else throws.\<close>

definition lexical_cast_int64 :: "string \<Rightarrow> int option" where
  "lexical_cast_int64 s =
     (let neg = (s \<noteq> [] \<and> hd s = CHR ''-'');
          ds = (if s \<noteq> [] \<and> (hd s = CHR ''-'' \<or> hd s = CHR ''+'') then tl s else s);
          v = (if neg then - digits_value ds else digits_value ds)
      in if ds \<noteq> [] \<and> list_all is_digit ds \<and> - (2 ^ 63) \<le> v \<and> v < 2 ^ 63 then Some v else None)"

lemma digits_value_snoc: "digits_value (ds @ [c]) = 10 * digits_value ds + (of_char c - 48)"
  by (simp add: digits_value_def)

lemma of_char_digit: "d < 10 \<Longrightarrow> (of_char (char_of (48 + d :: nat)) :: int) = 48 + int d"
proof -
  assume "d < 10"
  then have "(of_char (char_of (48 + d :: nat)) :: nat) = 48 + d" by simp
  moreover have "(of_char c :: int) = int (of_char c)" for c by (cases c) simp
  ultimately show ?thesis by (metis of_nat_add of_nat_numeral)
qed

lemma show_nat_digits: "list_all is_digit (show_nat n) \<and> show_nat n \<noteq> [] \<and> digits_value (show_nat n) = int n"
proof (induction n rule: show_nat.induct)
  case (1 n)
  show ?case
  proof (cases "n < 10")
    case True
    then show ?thesis using of_char_digit [OF True]
      by (simp add: show_nat.simps [of n] is_digit_def digits_value_def)
  next
    case False
    have m: "n mod 10 < 10" by simp
    from 1 False of_char_digit [OF m] show ?thesis
      by (simp add: show_nat.simps [of n] digits_value_snoc) (simp add: is_digit_def of_nat_mod of_nat_div)
  qed
qed

lemma show_nat_hd: "show_nat n \<noteq> [] \<and> is_digit (hd (show_nat n))"
  using show_nat_digits [of n] by (cases "show_nat n") auto

lemma lexical_cast_show_nat: "int n < 2 ^ 63 \<Longrightarrow> lexical_cast_int64 (show_nat n) = Some (int n)"
  using show_nat_digits [of n] show_nat_hd [of n] by (auto simp: lexical_cast_int64_def Let_def is_digit_def)

section \<open>Splitting at spaces\<close>

text \<open>\<open>boost::split\<close> with \<open>is_any_of(" ")\<close> and \<open>token_compress_on\<close>: a run of spaces is one separator.\<close>

lemma dropWhile_hd_less: "r \<noteq> [] \<Longrightarrow> P (hd r) \<Longrightarrow> length (dropWhile P r) < length r"
  using length_dropWhile_le [of P "tl r"] by (cases r) (auto simp: less_Suc_eq_le)

function split_spaces :: "string \<Rightarrow> string list" where
  "split_spaces s =
     (let r = dropWhile (\<lambda>c. c \<noteq> CHR '' '') s
      in takeWhile (\<lambda>c. c \<noteq> CHR '' '') s #
         (if r = [] then [] else split_spaces (dropWhile (\<lambda>c. c = CHR '' '') r)))"
  by pat_completeness auto
termination
proof (relation "measure length")
  fix s r :: string
  assume r: "r = dropWhile (\<lambda>c. c \<noteq> CHR '' '') s" "r \<noteq> []"
  then have "hd r = CHR '' ''" using hd_dropWhile [of "\<lambda>c. c \<noteq> CHR '' ''" s] by simp
  then have "length (dropWhile (\<lambda>c. c = CHR '' '') r) < length r"
    by (rule dropWhile_hd_less [OF r(2)])
  moreover have "length r \<le> length s" unfolding r(1) by (rule length_dropWhile_le)
  ultimately show "(dropWhile (\<lambda>c. c = CHR '' '') r, s) \<in> measure length" by simp
qed simp

declare split_spaces.simps [simp del]

definition token :: "string \<Rightarrow> bool" where
  "token s \<longleftrightarrow> s \<noteq> [] \<and> CHR '' '' \<notin> set s"

lemma token_takeWhile:
  assumes "token s" "r = [] \<or> hd r = CHR '' ''"
  shows "takeWhile (\<lambda>c. c \<noteq> CHR '' '') (s @ r) = s" "dropWhile (\<lambda>c. c \<noteq> CHR '' '') (s @ r) = r"
proof -
  have s: "\<forall>c \<in> set s. c \<noteq> CHR '' ''" using assms(1) by (auto simp: token_def)
  then have "takeWhile (\<lambda>c. c \<noteq> CHR '' '') (s @ r) = s @ takeWhile (\<lambda>c. c \<noteq> CHR '' '') r"
    "dropWhile (\<lambda>c. c \<noteq> CHR '' '') (s @ r) = dropWhile (\<lambda>c. c \<noteq> CHR '' '') r"
    by (simp_all add: takeWhile_append dropWhile_append)
  with assms(2) show "takeWhile (\<lambda>c. c \<noteq> CHR '' '') (s @ r) = s" "dropWhile (\<lambda>c. c \<noteq> CHR '' '') (s @ r) = r"
    by (cases r; auto)+
qed

lemma token_hd: "token s \<Longrightarrow> hd s \<noteq> CHR '' ''"
  unfolding token_def by (metis hd_in_set)

lemma split_token: "token s \<Longrightarrow> split_spaces s = [s]"
  by (subst split_spaces.simps) (simp add: token_takeWhile [of s "[]", simplified] Let_def)

lemma split_token_Cons:
  assumes "token s" "r \<noteq> []" "hd r \<noteq> CHR '' ''"
  shows "split_spaces (s @ replicate (Suc n) (CHR '' '') @ r) = s # split_spaces r"
proof -
  have t: "takeWhile (\<lambda>c. c \<noteq> CHR '' '') (s @ CHR '' '' # x) = s" "dropWhile (\<lambda>c. c \<noteq> CHR '' '') (s @ CHR '' '' # x) = CHR '' '' # x" for x
    using token_takeWhile [OF assms(1), of "CHR '' '' # x"] by simp_all
  have "dropWhile (\<lambda>c. c = CHR '' '') (replicate (Suc n) (CHR '' '') @ r) = r" for n
    using assms(2,3) by (induction n) (auto simp: dropWhile_eq_self_iff)
  then show ?thesis by (subst split_spaces.simps) (simp add: t Let_def)
qed

text \<open>Words joined by one space each.\<close>

fun join_spaces :: "string list \<Rightarrow> string" where
  "join_spaces [] = []"
| "join_spaces [s] = s"
| "join_spaces (s # ss) = s @ '' '' @ join_spaces ss"

lemma join_spaces_hd: "ss \<noteq> [] \<Longrightarrow> list_all token ss \<Longrightarrow> join_spaces ss \<noteq> [] \<and> hd (join_spaces ss) \<noteq> CHR '' ''"
  by (induction ss rule: join_spaces.induct) (auto simp: token_hd hd_append, auto simp: token_def)

lemma split_join: "ss \<noteq> [] \<Longrightarrow> list_all token ss \<Longrightarrow> split_spaces (join_spaces ss) = ss"
proof (induction ss rule: join_spaces.induct)
  case (3 s t ts)
  then have "split_spaces (s @ replicate (Suc 0) (CHR '' '') @ join_spaces (t # ts)) = s # split_spaces (join_spaces (t # ts))"
    using join_spaces_hd [of "t # ts"] by (intro split_token_Cons) auto
  with 3 show ?case by simp
qed (auto simp: split_token)

lemma token_show_nat: "token (show_nat n)"
  using show_nat_digits [of n] by (auto simp: token_def list_all_iff is_digit_def)

end
