(* ===== verification/Cpudata_Reader.thy ===== *)
theory Cpudata_Reader
  imports Text_Format
begin

text \<open>
  \<^verbatim>\<open>src/lib/cpudata_reader.cpp\<close>: the reader of the process's and the system's CPU and memory metrics. The
  operating system is the record \<open>os_sample\<close>: what \<open>get_nprocs\<close>, \<open>getrusage\<close>, \<open>sysconf\<close> and the two files of
  \<^verbatim>\<open>/proc\<close> return during one read. The calls of the listener are returned in order.
\<close>

section \<open>State\<close>

datatype cpu_error =
  RUSAGE_FAILURE | PROC_STAT_FILE_ERROR | PROC_STAT_PARSE_ERROR | PROC_MEMINFO_FILE_ERROR | PROC_MEMINFO_PARSE_ERROR

record SeekableFile =
  readable :: bool
  openError :: bool
  file_error :: string

definition newSeekableFile :: "bool \<Rightarrow> string \<Rightarrow> SeekableFile" where
  "newSeekableFile good err = \<lparr>readable = good, openError = \<not> good, file_error = (if good then [] else err)\<rparr>"

definition hasOpenError :: "SeekableFile \<Rightarrow> bool \<times> SeekableFile" where
  "hasOpenError f = (if openError f then (True, f\<lparr>openError := False\<rparr>) else (False, f))"

record CPUDataReader =
  cpuProcessEnabled :: bool
  cpuSystemEnabled :: bool
  cpuNCoresEnabled :: bool
  memCoreEnabled :: bool
  memExtendedEnabled :: bool
  readNCores :: bool
  readClockTicksPerSecond :: bool
  sentErrors :: "cpu_error list"
  clockTicksPerSecond :: i64
  procMemNames :: "string list"
  procMemInfo :: SeekableFile
  procStat :: SeekableFile
  cpu_hasEmittedConstantMetrics :: bool
  cpu_errors :: u32

definition updateEntryPrefixes :: "string list \<Rightarrow> CPUDataReader \<Rightarrow> CPUDataReader" where
  "updateEntryPrefixes disabledPrefixes r =
     r\<lparr>cpuProcessEnabled := \<not> isPrefixDisabled ''cpu.process'' disabledPrefixes,
       cpuSystemEnabled := \<not> isPrefixDisabled ''cpu.system'' disabledPrefixes,
       cpuNCoresEnabled := \<not> isPrefixDisabled ''cpu.ncores'' disabledPrefixes,
       memCoreEnabled := \<not> isPrefixDisabled ''mem.system.core'' disabledPrefixes,
       memExtendedEnabled := \<not> isPrefixDisabled ''mem.system.extended'' disabledPrefixes\<rparr>"

definition newCPUDataReader :: "SeekableFile \<Rightarrow> SeekableFile \<Rightarrow> u32 \<Rightarrow> string list \<Rightarrow> CPUDataReader" where
  "newCPUDataReader meminfo stat errors disabledPrefixes =
     updateEntryPrefixes disabledPrefixes
       \<lparr>cpuProcessEnabled = False, cpuSystemEnabled = False, cpuNCoresEnabled = False, memCoreEnabled = False,
        memExtendedEnabled = False, readNCores = False, readClockTicksPerSecond = False, sentErrors = [],
        clockTicksPerSecond = 0,
        procMemNames = [''MemTotal:'', ''MemFree:'', ''MemAvailable:'', ''SwapTotal:'', ''SwapFree:'', ''Shmem:'',
          ''Dirty:'', ''Writeback:''],
        procMemInfo = meminfo, procStat = stat, cpu_hasEmittedConstantMetrics = False, cpu_errors = errors\<rparr>"

record rusage =
  ru_utime :: "int \<times> int"
  ru_stime :: "int \<times> int"
  ru_maxrss :: int
  ru_minflt :: int
  ru_majflt :: int
  ru_inblock :: int
  ru_oublock :: int
  ru_nvcsw :: int
  ru_nivcsw :: int

record os_sample =
  nprocs :: int
  getrusage :: "int + rusage"
  clk_tck :: int
  stat_lines :: "string list"
  meminfo_lines :: "string list"

section \<open>Entries\<close>

definition KILO_TO_BYTES :: i64 where "KILO_TO_BYTES = 1024"

definition addLongEntry :: "MetricListenerEntry list \<Rightarrow> string \<Rightarrow> MetricUnit \<Rightarrow> MetricVariability \<Rightarrow> i64
    \<Rightarrow> MetricListenerEntry list" where
  "addLongEntry entries name unit variability v =
     entries @ [\<lparr>me_name = name, me_variability = variability, me_unit = unit,
       me_data = \<lparr>md_type = DataType_LONG, valueString = [], valueLong = v\<rparr>\<rparr>]"

definition addLongVar :: "MetricListenerEntry list \<Rightarrow> string \<Rightarrow> MetricUnit \<Rightarrow> i64 \<Rightarrow> MetricListenerEntry list" where
  "addLongVar entries name unit v = addLongEntry entries name unit Variability_VARIABLE v"

definition timevalToMs :: "int \<times> int \<Rightarrow> i64" where
  "timevalToMs ts = word_of_int (fst ts * 1000 + snd ts sdiv 1000)"

definition addRusage :: "rusage \<Rightarrow> MetricListenerEntry list \<Rightarrow> MetricListenerEntry list" where
  "addRusage u es =
     (let es = addLongVar es ''cpu.process.time.user'' Unit_MILLISECONDS (timevalToMs (ru_utime u));
          es = addLongVar es ''cpu.process.time.system'' Unit_MILLISECONDS (timevalToMs (ru_stime u));
          es = addLongVar es ''cpu.process.maxrss'' Unit_BYTES (word_of_int (ru_maxrss u) * KILO_TO_BYTES);
          es = addLongVar es ''cpu.process.page_faults.soft'' Unit_EVENTS (word_of_int (ru_minflt u));
          es = addLongVar es ''cpu.process.page_faults.hard'' Unit_EVENTS (word_of_int (ru_majflt u));
          es = addLongVar es ''cpu.process.blocks.in'' Unit_EVENTS (word_of_int (ru_inblock u));
          es = addLongVar es ''cpu.process.blocks.out'' Unit_EVENTS (word_of_int (ru_oublock u));
          es = addLongVar es ''cpu.process.csw.voluntary'' Unit_EVENTS (word_of_int (ru_nvcsw u))
      in addLongVar es ''cpu.process.csw.involuntary'' Unit_EVENTS (word_of_int (ru_nivcsw u)))"

text \<open>The two exceptions a line's \<open>try\<close> block catches.\<close>

datatype parse_failure = BadLexicalCast | OutOfRange

definition int64At :: "string list \<Rightarrow> nat \<Rightarrow> parse_failure + i64" where
  "int64At result i =
     (if i < length result
      then case lexical_cast_int64 (result ! i) of None \<Rightarrow> Inl BadLexicalCast | Some v \<Rightarrow> Inr (word_of_int v)
      else Inl OutOfRange)"

definition ticksAt :: "i64 \<Rightarrow> string list \<Rightarrow> nat \<Rightarrow> parse_failure + i64" where
  "ticksAt clk result i = map_sum id (\<lambda>v. word_of_int (sint (v * 1000) sdiv sint clk)) (int64At result i)"

definition kbAt :: "string list \<Rightarrow> nat \<Rightarrow> parse_failure + i64" where
  "kbAt result i = map_sum id (\<lambda>v. v * KILO_TO_BYTES) (int64At result i)"

text \<open>Consecutive \<open>addLongVar\<close> calls: what was added before an exception stays added.\<close>

fun addFields :: "(string \<times> MetricUnit \<times> (parse_failure + i64)) list \<Rightarrow> MetricListenerEntry list
    \<Rightarrow> parse_failure option \<times> MetricListenerEntry list" where
  "addFields [] es = (None, es)"
| "addFields ((name, unit, v) # fs) es =
     (case v of Inl e \<Rightarrow> (Some e, es) | Inr v \<Rightarrow> addFields fs (addLongVar es name unit v))"

definition stat_fields :: "i64 \<Rightarrow> string list \<Rightarrow> (string \<times> MetricUnit \<times> (parse_failure + i64)) list" where
  "stat_fields clk result =
     (let key = result ! 0; ticks = ticksAt clk result; int64 = int64At result
      in if key = ''cpu'' then
           [(''cpu.system.user'', Unit_MILLISECONDS, ticks 1), (''cpu.system.nice'', Unit_MILLISECONDS, ticks 2),
            (''cpu.system.system'', Unit_MILLISECONDS, ticks 3), (''cpu.system.idle'', Unit_MILLISECONDS, ticks 4),
            (''cpu.system.iowait'', Unit_MILLISECONDS, ticks 5), (''cpu.system.irq'', Unit_MILLISECONDS, ticks 6),
            (''cpu.system.softirq'', Unit_MILLISECONDS, ticks 7), (''cpu.system.steal'', Unit_MILLISECONDS, ticks 8),
            (''cpu.system.guest'', Unit_MILLISECONDS, ticks 9),
            (''cpu.system.guest_nice'', Unit_MILLISECONDS, ticks 10)]
         else if key = ''page'' then
           [(''cpu.system.pages.in'', Unit_EVENTS, int64 1), (''cpu.system.pages.out'', Unit_EVENTS, int64 2)]
         else if key = ''swap'' then
           [(''cpu.system.swap.in'', Unit_EVENTS, int64 1), (''cpu.system.swap.out'', Unit_EVENTS, int64 2)]
         else if key = ''ctxt'' then [(''cpu.system.csw'', Unit_EVENTS, int64 1)]
         else if key = ''procs_running'' then [(''cpu.system.procs.running'', Unit_NONE, int64 1)]
         else if key = ''procs_blocked'' then [(''cpu.system.procs.blocked'', Unit_NONE, int64 1)]
         else [])"

definition MEM_CORE_NAME_PREFIX :: string where "MEM_CORE_NAME_PREFIX = ''mem.system.core.''"
definition MEM_EXTENDED_NAME_PREFIX :: string where "MEM_EXTENDED_NAME_PREFIX = ''mem.system.extended.''"

text \<open>Erasing the last character of an empty name throws \<open>out_of_range\<close>.\<close>

definition meminfo_fields :: "bool \<Rightarrow> string list \<Rightarrow> string list
    \<Rightarrow> parse_failure + (string \<times> MetricUnit \<times> (parse_failure + i64)) list" where
  "meminfo_fields extended core result =
     (let entryName = result ! 0; isCoreMetric = entryName \<in> set core
      in if extended \<or> isCoreMetric then
           if entryName = [] then Inl OutOfRange
           else let name = (if isCoreMetric then MEM_CORE_NAME_PREFIX else MEM_EXTENDED_NAME_PREFIX) @ butlast entryName
             in Inr [if 2 < length result then (name, Unit_BYTES, kbAt result 1) else (name, Unit_NONE, int64At result 1)]
         else Inr [])"

section \<open>Reading\<close>

text \<open>Only the first error of a kind is reported; all are counted.\<close>

definition cpu_error_report :: "string \<Rightarrow> cpu_error \<Rightarrow> CPUDataReader \<Rightarrow> metric_call list \<times> CPUDataReader" where
  "cpu_error_report text status r =
     (if status \<in> set (sentErrors r) then ([], r\<lparr>cpu_errors := cpu_errors r + 1\<rparr>)
      else ([MetricNotification USER_ERROR ''Unable to record CPU Metrics'', MetricNotification INFO_LOGGING text],
        r\<lparr>sentErrors := status # sentErrors r, cpu_errors := cpu_errors r + 1\<rparr>))"

definition bad_lexical_cast_what :: string where
  "bad_lexical_cast_what = ''bad lexical cast: source type value could not be interpreted as target''"

text \<open>The loop over the lines of a file; \<open>line\<close> is the body of the \<open>try\<close> block.\<close>

fun read_lines :: "(string list \<Rightarrow> MetricListenerEntry list \<Rightarrow> parse_failure option \<times> MetricListenerEntry list)
    \<Rightarrow> string \<Rightarrow> cpu_error \<Rightarrow> string list \<Rightarrow> MetricListenerEntry list \<Rightarrow> CPUDataReader
    \<Rightarrow> metric_call list \<times> MetricListenerEntry list \<times> CPUDataReader" where
  "read_lines line text status [] es r = ([], es, r)"
| "read_lines line text status (l # ls) es r =
     (let (failure, es) = line (split_spaces l) es;
          (calls, r) = (if failure = Some BadLexicalCast then cpu_error_report text status r else ([], r));
          (calls', es, r) = read_lines line text status ls es r
      in (calls @ calls', es, r))"

definition read_ncores :: "os_sample \<Rightarrow> MetricListenerEntry list \<Rightarrow> CPUDataReader
    \<Rightarrow> MetricListenerEntry list \<times> CPUDataReader" where
  "read_ncores os es r =
     (if cpuNCoresEnabled r \<and> \<not> readNCores r
      then (addLongEntry es ''cpu.ncores'' Unit_NONE Variability_CONSTANT (word_of_int (nprocs os)), r\<lparr>readNCores := True\<rparr>)
      else (es, r))"

definition read_process :: "os_sample \<Rightarrow> MetricListenerEntry list \<Rightarrow> CPUDataReader
    \<Rightarrow> metric_call list \<times> MetricListenerEntry list \<times> CPUDataReader" where
  "read_process os es r =
     (if cpuProcessEnabled r then
        case getrusage os of
          Inr usage \<Rightarrow> ([], addRusage usage es, r)
        | Inl err \<Rightarrow> (let (calls, r) = cpu_error_report (''Got getrusage error of '' @ show_int err) RUSAGE_FAILURE r in (calls, es, r))
      else ([], es, r))"

definition stat_line :: "i64 \<Rightarrow> string list \<Rightarrow> MetricListenerEntry list
    \<Rightarrow> parse_failure option \<times> MetricListenerEntry list" where
  "stat_line clk result es = addFields (stat_fields clk result) es"

definition read_system :: "os_sample \<Rightarrow> MetricListenerEntry list \<Rightarrow> CPUDataReader
    \<Rightarrow> metric_call list \<times> MetricListenerEntry list \<times> CPUDataReader" where
  "read_system os es r =
     (if cpuSystemEnabled r then
        let r = (if readClockTicksPerSecond r then r
                 else r\<lparr>clockTicksPerSecond := word_of_int (clk_tck os), readClockTicksPerSecond := True\<rparr>)
        in if readable (procStat r) then
             read_lines (stat_line (clockTicksPerSecond r))
               (''Got bad_lexical_cast exception while parsing /proc/stat: '' @ bad_lexical_cast_what)
               PROC_STAT_PARSE_ERROR (stat_lines os) es r
           else
             let (failed, f) = hasOpenError (procStat r); r = r\<lparr>procStat := f\<rparr>;
                 (calls, r) = (if failed then cpu_error_report (file_error f) PROC_STAT_FILE_ERROR r else ([], r))
             in (calls, es, r)
      else ([], es, r))"

definition meminfo_line :: "bool \<Rightarrow> string list \<Rightarrow> string list \<Rightarrow> MetricListenerEntry list
    \<Rightarrow> parse_failure option \<times> MetricListenerEntry list" where
  "meminfo_line extended core result es =
     (case meminfo_fields extended core result of Inl e \<Rightarrow> (Some e, es) | Inr fs \<Rightarrow> addFields fs es)"

definition read_memory :: "os_sample \<Rightarrow> MetricListenerEntry list \<Rightarrow> CPUDataReader
    \<Rightarrow> metric_call list \<times> MetricListenerEntry list \<times> CPUDataReader" where
  "read_memory os es r =
     (if memCoreEnabled r then
        if readable (procMemInfo r) then
          read_lines (meminfo_line (memExtendedEnabled r) (procMemNames r))
            (''Got bad_lexical_cast exception while parsing /proc/meminfo: '' @ bad_lexical_cast_what)
            PROC_MEMINFO_PARSE_ERROR (meminfo_lines os) es r
        else
          let (failed, f) = hasOpenError (procMemInfo r); r = r\<lparr>procMemInfo := f\<rparr>;
              (calls, r) = (if failed then cpu_error_report (file_error f) PROC_MEMINFO_FILE_ERROR r else ([], r))
          in (calls, es, r)
      else ([], es, r))"

definition cpu_read :: "os_sample \<Rightarrow> int \<Rightarrow> CPUDataReader \<Rightarrow> metric_call list \<times> CPUDataReader" where
  "cpu_read os timestampInMs r =
     (let (es, r) = read_ncores os [] r;
          (calls1, es, r) = read_process os es r;
          (calls2, es, r) = read_system os es r;
          (calls3, es, r) = read_memory os es r
      in (calls1 @ calls2 @ calls3 @ (if es = [] then [] else [RecordEntries es timestampInMs]),
          r\<lparr>cpu_hasEmittedConstantMetrics := True\<rparr>))"

section \<open>The processor line of /proc/stat\<close>

definition cpu_names :: "string list" where
  "cpu_names = [''cpu.system.user'', ''cpu.system.nice'', ''cpu.system.system'', ''cpu.system.idle'', ''cpu.system.iowait'',
     ''cpu.system.irq'', ''cpu.system.softirq'', ''cpu.system.steal'', ''cpu.system.guest'', ''cpu.system.guest_nice'']"

text \<open>The kernel's line: the key, two spaces, the counters separated by one.\<close>

definition cpu_line :: "nat list \<Rightarrow> string" where
  "cpu_line vs = ''cpu  '' @ join_spaces (map show_nat vs)"

definition cpu_entry :: "nat \<Rightarrow> string \<Rightarrow> nat \<Rightarrow> MetricListenerEntry" where
  "cpu_entry clk name v = \<lparr>me_name = name, me_variability = Variability_VARIABLE, me_unit = Unit_MILLISECONDS,
     me_data = \<lparr>md_type = DataType_LONG, valueString = [], valueLong = word_of_nat (v * 1000 div clk)\<rparr>\<rparr>"

lemma split_cpu_line: "vs \<noteq> [] \<Longrightarrow> split_spaces (cpu_line vs) = ''cpu'' # map show_nat vs"
proof -
  assume vs: "vs \<noteq> []"
  have ok: "list_all token (map show_nat vs)" "map show_nat vs \<noteq> []"
    using vs by (simp_all add: token_show_nat list_all_iff)
  have "split_spaces (''cpu'' @ replicate (Suc 1) (CHR '' '') @ join_spaces (map show_nat vs)) =
      ''cpu'' # split_spaces (join_spaces (map show_nat vs))"
    using join_spaces_hd [OF ok(2,1)] by (intro split_token_Cons) (auto simp: token_def)
  then show ?thesis using split_join [OF ok(2,1)] by (simp add: cpu_line_def)
qed

lemma sint_word_of_nat_small: "n < 2 ^ 63 \<Longrightarrow> sint (word_of_nat n :: i64) = int n"
  by (subst signed_of_nat) (simp add: signed_take_bit_int_eq_self_iff)

lemma int64At_show_nat:
  "list_all (\<lambda>v. v < 2 ^ 63) vs \<Longrightarrow>
   int64At (k # map show_nat vs) (Suc i) = (if i < length vs then Inr (word_of_nat (vs ! i)) else Inl OutOfRange)"
  using lexical_cast_show_nat by (auto simp: int64At_def list_all_length)

lemma ticksAt_show_nat:
  assumes vs: "list_all (\<lambda>v. v * 1000 < 2 ^ 63) vs" and clk: "clk < 2 ^ 63"
  shows "ticksAt (word_of_nat clk) (k # map show_nat vs) (Suc i) =
     (if i < length vs then Inr (word_of_nat (vs ! i * 1000 div clk)) else Inl OutOfRange)"
proof -
  have small: "list_all (\<lambda>v. v < 2 ^ 63) vs" using vs by (auto simp: list_all_iff)
  have "sint (word_of_nat v * 1000 :: i64) sdiv sint (word_of_nat clk :: i64) = int (v * 1000 div clk)" if "v * 1000 < 2 ^ 63" for v
  proof -
    have "word_of_nat v * 1000 = (word_of_nat (v * 1000) :: i64)" by simp
    then show ?thesis using sint_word_of_nat_small [OF that] sint_word_of_nat_small [OF clk]
      by (simp add: signed_divide_int_def sgn_if of_nat_div)
  qed
  with vs show ?thesis by (auto simp: ticksAt_def int64At_show_nat [OF small] list_all_length)
qed

lemma addFields_range:
  assumes v: "\<And>i. tick (Suc i) = (if i < m then Inr (val i) else Inl OutOfRange)" and k: "k \<le> m" "k \<le> n"
  shows "addFields (map (\<lambda>i. (nm i, u, tick (Suc i))) [k..<n]) es =
    (if m < n then Some OutOfRange else None,
     es @ map (\<lambda>i. \<lparr>me_name = nm i, me_variability = Variability_VARIABLE, me_unit = u,
       me_data = \<lparr>md_type = DataType_LONG, valueString = [], valueLong = val i\<rparr>\<rparr>) [k..<min m n])"
  using k
proof (induction "n - k" arbitrary: k es)
  case (Suc d)
  then have kn: "k < n" and d: "d = n - Suc k" by simp_all
  show ?case
  proof (cases "k < m")
    case True
    have "[k..<n] = k # [Suc k..<n]" "[k..<min m n] = k # [Suc k..<min m n]" using kn True by (simp_all add: upt_conv_Cons)
    with Suc.hyps(1) [OF d] True kn v [of k] show ?thesis by (simp add: addLongVar_def addLongEntry_def)
  next
    case False
    with Suc.prems kn v [of k] show ?thesis by (simp add: upt_conv_Cons)
  qed
qed simp

lemma stat_fields_cpu:
  "stat_fields clk (''cpu'' # vs) = map (\<lambda>i. (cpu_names ! i, Unit_MILLISECONDS, ticksAt clk (''cpu'' # vs) (Suc i))) [0..<10]"
  by (simp add: stat_fields_def cpu_names_def upt_rec numeral_eq_Suc Let_def)

text \<open>C28: A processor line of the kernel, with any number of counters, is read as one entry per counter up to the tenth, in
  the order of the fields and in milliseconds of the system's clock tick; fewer than ten (older kernels) end the line
  without an error, keeping those that are there.\<close>

theorem stat_line_cpu:
  assumes "vs \<noteq> []" "list_all (\<lambda>v. v * 1000 < 2 ^ 63) vs" "clk < 2 ^ 63"
  shows "stat_line (word_of_nat clk) (split_spaces (cpu_line vs)) es =
    (if length vs < 10 then Some OutOfRange else None, es @ map2 (cpu_entry clk) cpu_names vs)"
proof -
  have "map (\<lambda>i. cpu_entry clk (cpu_names ! i) (vs ! i)) [0..<min (length vs) 10] = map2 (cpu_entry clk) cpu_names vs"
    by (rule nth_equalityI) (auto simp: cpu_names_def)
  then show ?thesis
    unfolding split_cpu_line [OF assms(1)] stat_line_def stat_fields_cpu
    using addFields_range [OF ticksAt_show_nat [OF assms(2,3), of "''cpu''"], of 0 10 "\<lambda>i. cpu_names ! i" Unit_MILLISECONDS es]
    by (simp add: cpu_entry_def)
qed

lemma stat_line_cpu_witness:
  "stat_line 100 (split_spaces ''cpu  250 0 31'') [] =
     (Some OutOfRange, [cpu_entry 100 ''cpu.system.user'' 250, cpu_entry 100 ''cpu.system.nice'' 0,
       cpu_entry 100 ''cpu.system.system'' 31])"
proof -
  have "cpu_line [250, 0, 31] = ''cpu  250 0 31''" by code_simp
  then show ?thesis using stat_line_cpu [of "[250, 0, 31]" 100 "[]"] by (simp add: cpu_names_def)
qed

section \<open>Errors and constants over the life of a reader\<close>

fun is_user_error :: "metric_call \<Rightarrow> bool" where
  "is_user_error (MetricNotification c t) = (c = USER_ERROR)"
| "is_user_error (RecordEntries es t) = False"

definition constants :: "MetricListenerEntry list \<Rightarrow> MetricListenerEntry list" where
  "constants es = filter (\<lambda>e. me_variability e = Variability_CONSTANT) es"

fun call_constants :: "metric_call \<Rightarrow> MetricListenerEntry list" where
  "call_constants (RecordEntries es t) = constants es"
| "call_constants (MetricNotification c t) = []"

text \<open>A reader's life: reads, and changes of the disabled prefixes.\<close>

datatype cpu_op = Read os_sample int | UpdatePrefixes "string list"

fun cpu_run :: "cpu_op list \<Rightarrow> CPUDataReader \<Rightarrow> metric_call list \<times> CPUDataReader" where
  "cpu_run [] r = ([], r)"
| "cpu_run (Read os t # ops) r =
     (let (calls, r) = cpu_read os t r; (calls', r) = cpu_run ops r in (calls @ calls', r))"
| "cpu_run (UpdatePrefixes ps # ops) r = cpu_run ops (updateEntryPrefixes ps r)"

text \<open>\<open>step\<close> relates a part of a read to the errors it newly reports, all of them variable entries or notifications.\<close>

definition quiet :: "CPUDataReader \<Rightarrow> metric_call list \<Rightarrow> CPUDataReader \<Rightarrow> bool" where
  "quiet r calls r' \<longleftrightarrow>
     (\<exists>new. sentErrors r' = new @ sentErrors r \<and> length (filter is_user_error calls) = length new) \<and>
     (distinct (sentErrors r) \<longrightarrow> distinct (sentErrors r')) \<and>
     readNCores r' = readNCores r \<and> cpuNCoresEnabled r' = cpuNCoresEnabled r \<and> list_all (\<lambda>c. call_constants c = []) calls"

lemma quiet_trans: "quiet r calls s \<Longrightarrow> quiet s calls' t \<Longrightarrow> quiet r (calls @ calls') t"
  by (auto simp: quiet_def)

lemma quiet_refl [intro]: "quiet r [] r"
  by (simp add: quiet_def)

lemma cpu_error_quiet: "cpu_error_report text status r = (calls, r') \<Longrightarrow> quiet r calls r'"
  by (auto simp: cpu_error_report_def quiet_def split: if_splits)

lemma addFields_constants: "addFields fs es = (f, es') \<Longrightarrow> constants es' = constants es"
  by (induction fs es rule: addFields.induct)
    (auto simp: constants_def addLongVar_def addLongEntry_def split: sum.splits)

lemma read_lines_quiet:
  assumes "\<And>result es f es'. line result es = (f, es') \<Longrightarrow> constants es' = constants es"
    and "read_lines line text status ls es r = (calls, es', r')"
  shows "quiet r calls r' \<and> constants es' = constants es"
  using assms(2)
proof (induction ls arbitrary: es r calls)
  case (Cons l ls)
  obtain f es1 where l: "line (split_spaces l) es = (f, es1)" by fastforce
  obtain c1 r1 where c: "(if f = Some BadLexicalCast then cpu_error_report text status r else ([], r)) = (c1, r1)" by fastforce
  obtain c2 es2 r2 where rest: "read_lines line text status ls es1 r1 = (c2, es2, r2)" by (metis prod_cases3)
  have out: "calls = c1 @ c2" "es' = es2" "r' = r2" using Cons.prems l c rest by simp_all
  have "quiet r c1 r1" using c cpu_error_quiet by (auto split: if_splits)
  moreover have "quiet r1 c2 r2 \<and> constants es2 = constants es1" using Cons.IH rest out by blast
  ultimately show ?case using out quiet_trans assms(1) [OF l] by metis
qed auto

lemma stat_line_constants: "stat_line clk result es = (f, es') \<Longrightarrow> constants es' = constants es"
  unfolding stat_line_def by (rule addFields_constants)

lemma meminfo_line_constants: "meminfo_line x core result es = (f, es') \<Longrightarrow> constants es' = constants es"
  by (auto simp: meminfo_line_def addFields_constants split: sum.splits)

lemma addRusage_constants: "constants (addRusage u es) = constants es"
  by (simp add: addRusage_def addLongVar_def addLongEntry_def constants_def Let_def)

lemma quiet_upd: "quiet (r\<lparr>procStat := f\<rparr>) calls r' = quiet r calls r'" "quiet (r\<lparr>procMemInfo := f\<rparr>) calls r' = quiet r calls r'"
  "quiet (r\<lparr>clockTicksPerSecond := x, readClockTicksPerSecond := b\<rparr>) calls r' = quiet r calls r'"
  by (simp_all add: quiet_def)

lemma read_process_quiet: "read_process os es r = (calls, es', r') \<Longrightarrow> quiet r calls r' \<and> constants es' = constants es"
  by (auto simp: read_process_def addRusage_constants dest: cpu_error_quiet split: if_splits sum.splits prod.splits)

lemma read_system_quiet:
  assumes "read_system os es r = (calls, es', r')"
  shows "quiet r calls r' \<and> constants es' = constants es"
proof (cases "cpuSystemEnabled r")
  case True
  define r1 where "r1 = (if readClockTicksPerSecond r then r
                 else r\<lparr>clockTicksPerSecond := word_of_int (clk_tck os), readClockTicksPerSecond := True\<rparr>)"
  have r1: "quiet r1 calls r' = quiet r calls r'" by (simp add: r1_def quiet_upd)
  show ?thesis
  proof (cases "readable (procStat r1)")
    case True
    with assms \<open>cpuSystemEnabled r\<close> have "read_lines (stat_line (clockTicksPerSecond r1))
               (''Got bad_lexical_cast exception while parsing /proc/stat: '' @ bad_lexical_cast_what)
               PROC_STAT_PARSE_ERROR (stat_lines os) es r1 = (calls, es', r')"
      unfolding read_system_def r1_def [symmetric] Let_def by simp
    from read_lines_quiet [OF stat_line_constants this] r1 show ?thesis by simp
  next
    case False
    obtain failed f where h: "hasOpenError (procStat r1) = (failed, f)" by fastforce
    from assms \<open>cpuSystemEnabled r\<close> False have
      "(if failed then cpu_error_report (file_error f) PROC_STAT_FILE_ERROR (r1\<lparr>procStat := f\<rparr>) else ([], r1\<lparr>procStat := f\<rparr>)) = (calls, r') \<and> es' = es"
      unfolding read_system_def r1_def [symmetric] Let_def h by (auto split: prod.splits)
    then have "quiet (r1\<lparr>procStat := f\<rparr>) calls r' \<and> es' = es" using cpu_error_quiet by (auto split: if_splits)
    then show ?thesis using r1 by (simp add: quiet_upd)
  qed
qed (use assms in \<open>auto simp: read_system_def\<close>)

lemma read_memory_quiet:
  assumes "read_memory os es r = (calls, es', r')"
  shows "quiet r calls r' \<and> constants es' = constants es"
proof (cases "memCoreEnabled r \<and> readable (procMemInfo r)")
  case True
  with assms show ?thesis unfolding read_memory_def using read_lines_quiet [OF meminfo_line_constants] by simp
next
  case False
  obtain failed f where h: "hasOpenError (procMemInfo r) = (failed, f)" by fastforce
  show ?thesis
  proof (cases "memCoreEnabled r")
    case True
    with assms False have
      "(if failed then cpu_error_report (file_error f) PROC_MEMINFO_FILE_ERROR (r\<lparr>procMemInfo := f\<rparr>) else ([], r\<lparr>procMemInfo := f\<rparr>)) = (calls, r') \<and> es' = es"
      unfolding read_memory_def Let_def h by (auto split: prod.splits)
    then have "quiet (r\<lparr>procMemInfo := f\<rparr>) calls r' \<and> es' = es" using cpu_error_quiet by (auto split: if_splits)
    then show ?thesis by (simp add: quiet_upd)
  qed (use assms in \<open>auto simp: read_memory_def\<close>)
qed


lemma cpu_read_errors:
  assumes "cpu_read os t r = (calls, r')"
  shows "(\<exists>new. sentErrors r' = new @ sentErrors r \<and> length (filter is_user_error calls) = length new) \<and>
    (distinct (sentErrors r) \<longrightarrow> distinct (sentErrors r')) \<and>
    concat (map call_constants calls) = constants (fst (read_ncores os [] r)) \<and>
    readNCores r' = (readNCores r \<or> cpuNCoresEnabled r)"
proof -
  obtain es1 r1 where 1: "read_ncores os [] r = (es1, r1)" by fastforce
  obtain c2 es2 r2 where 2: "read_process os es1 r1 = (c2, es2, r2)" by (metis prod_cases3)
  obtain c3 es3 r3 where 3: "read_system os es2 r2 = (c3, es3, r3)" by (metis prod_cases3)
  obtain c4 es4 r4 where 4: "read_memory os es3 r3 = (c4, es4, r4)" by (metis prod_cases3)
  have out: "calls = c2 @ c3 @ c4 @ (if es4 = [] then [] else [RecordEntries es4 t])"
      "r' = r4\<lparr>cpu_hasEmittedConstantMetrics := True\<rparr>"
    using assms 1 2 3 4 by (simp_all add: cpu_read_def)
  have q: "quiet r1 (c2 @ c3 @ c4) r4" "constants es4 = constants es1"
    using read_process_quiet [OF 2] read_system_quiet [OF 3] read_memory_quiet [OF 4] quiet_trans by metis+
  have r1: "sentErrors r1 = sentErrors r" "readNCores r1 = (readNCores r \<or> cpuNCoresEnabled r)"
    using 1 by (auto simp: read_ncores_def split: if_splits)
  have "concat (map call_constants (c2 @ c3 @ c4)) = []" using q(1) by (auto simp: quiet_def list_all_iff)
  then have "concat (map call_constants calls) = constants es1"
    using out(1) q(2) by (auto simp: constants_def)
  moreover have "length (filter is_user_error calls) = length (filter is_user_error (c2 @ c3 @ c4))" using out(1) by simp
  ultimately show ?thesis using q(1) r1 1 out(2) by (simp add: quiet_def)
qed

lemma cpu_run_errors:
  assumes "cpu_run ops r = (calls, r')" "distinct (sentErrors r)"
  shows "length (filter is_user_error calls) + length (sentErrors r) = length (sentErrors r') \<and> distinct (sentErrors r') \<and>
    length (concat (map call_constants calls)) \<le> of_bool (\<not> readNCores r)"
  using assms
proof (induction ops r arbitrary: calls rule: cpu_run.induct)
  case (2 os t ops r)
  obtain c1 r1 where 1: "cpu_read os t r = (c1, r1)" by fastforce
  obtain c2 where 2: "cpu_run ops r1 = (c2, r')" "calls = c1 @ c2" using "2.prems"(1) 1 by (auto split: prod.splits)
  note e = cpu_read_errors [OF 1]
  have "distinct (sentErrors r1)" using e "2.prems"(2) by blast
  from "2.IH" [OF 1 [symmetric] refl 2(1) this] e 2(2) show ?case
    by (auto simp: read_ncores_def addLongEntry_def constants_def split: if_splits)
next
  case (3 ps ops r)
  then show ?case by (simp add: updateEntryPrefixes_def)
qed simp

lemma cpu_error_count: "distinct es \<Longrightarrow> length es \<le> 5" for es :: "cpu_error list"
proof -
  have all: "(UNIV :: cpu_error set) = {RUSAGE_FAILURE, PROC_STAT_FILE_ERROR, PROC_STAT_PARSE_ERROR,
    PROC_MEMINFO_FILE_ERROR, PROC_MEMINFO_PARSE_ERROR}" using cpu_error.exhaust by blast
  have fin: "finite (UNIV :: cpu_error set)" by (simp add: all)
  assume "distinct es"
  then have "length es = card (set es)" by (simp add: distinct_card)
  also have "\<dots> \<le> card (UNIV :: cpu_error set)" by (rule card_mono [OF fin subset_UNIV])
  finally show ?thesis by (simp add: all)
qed

text \<open>C27: Over the whole life of a reader, whatever the system returns and however the disabled prefixes change, the
  user is told of an error once per kind, so at most five times, and the constant metric is offered to the listener at
  most once.\<close>

theorem cpu_reader_reports_once:
  assumes "cpu_run ops (newCPUDataReader meminfo stat errors ps) = (calls, r)"
  shows "distinct (sentErrors r) \<and> length (filter is_user_error calls) = length (sentErrors r) \<and>
    length (filter is_user_error calls) \<le> 5 \<and> length (concat (map call_constants calls)) \<le> 1"
  using cpu_run_errors [OF assms] cpu_error_count [of "sentErrors r"]
  by (auto simp: newCPUDataReader_def updateEntryPrefixes_def)

definition demo_os :: os_sample where
  "demo_os = \<lparr>nprocs = 4, getrusage = Inl 22, clk_tck = 100, stat_lines = [''ctxt x'', ''procs_running 3''], meminfo_lines = []\<rparr>"

definition demo_reader :: CPUDataReader where
  "demo_reader = newCPUDataReader (newSeekableFile False ''No such file or directory'') (newSeekableFile True []) 0 []"

lemma cpu_reader_reports_once_witness:
  "length (filter is_user_error (fst (cpu_run [Read demo_os 5, Read demo_os 6] demo_reader))) = 3 \<and>
   length (filter is_user_error (fst (cpu_run [Read demo_os 5, Read demo_os 6] demo_reader))) \<le> 5"
proof -
  have "length (filter is_user_error (fst (cpu_run [Read demo_os 5, Read demo_os 6] demo_reader))) = 3" by code_simp
  with cpu_reader_reports_once [of "[Read demo_os 5, Read demo_os 6]" "newSeekableFile False ''No such file or directory''"
      "newSeekableFile True []" 0 "[]"] show ?thesis by (metis demo_reader_def prod.collapse)
qed

end
