(* ===== verification/Event_Ring.thy ===== *)
theory Event_Ring
  imports Cpudata_Reader
begin

text \<open>
  \<^verbatim>\<open>src/lib/event_ring_reader.cpp\<close> with both implementations behind it, \<^verbatim>\<open>events.enabled.cpp\<close> (OCaml 5's runtime
  events) and \<^verbatim>\<open>events.disabled.cpp\<close>. The OCaml runtime is a parameter: the callbacks a poll makes, in order, are a
  list of \<open>ring_event\<close>s; the calls into the runtime are recorded.
\<close>

section \<open>State\<close>

datatype ev_runtime_phase = EV_MINOR | EV_MAJOR | OtherPhase nat

datatype ev_runtime_counter =
    EV_C_FORCE_MINOR_ALLOC_SMALL | EV_C_FORCE_MINOR_MAKE_VECT | EV_C_FORCE_MINOR_SET_MINOR_HEAP_SIZE
  | EV_C_FORCE_MINOR_WEAK | EV_C_FORCE_MINOR_MEMPROF | EV_C_MINOR_PROMOTED | EV_C_MINOR_ALLOCATED | OtherCounter nat

text \<open>The callbacks of the consumer API; the first component is the domain.\<close>

datatype ring_event =
    Begin int u64 ev_runtime_phase
  | End int u64 ev_runtime_phase
  | Counter int u64 ev_runtime_counter u64
  | Lost int i32

datatype runtime_call = RtStart | RtResume | RtPause | RtCreateCursor | RtFreeCursor

record EventState =
  beginTimestamp :: u64
  eventName :: string

record runtime_events =
  calledStart :: bool
  cursor :: bool
  adjustment :: int
  phaseToEventState :: "ev_runtime_phase \<Rightarrow> EventState option"
  rt_calls :: "runtime_call list"

definition runtime_events_init :: runtime_events where
  "runtime_events_init = \<lparr>calledStart = False, cursor = False, adjustment = 0, phaseToEventState = Map.empty, rt_calls = []\<rparr>"

definition LOST_EVENTS_NAME :: string where "LOST_EVENTS_NAME = ''ocaml.eventring.lost_events''"
definition NS_IN_MS :: u64 where "NS_IN_MS = 1000000"
definition WORD_SIZE :: u64 where "WORD_SIZE = 4"

fun REQUIRED_PHASES :: "ev_runtime_phase \<Rightarrow> string option" where
  "REQUIRED_PHASES EV_MINOR = Some ''ocaml.eventring.EV_MINOR''"
| "REQUIRED_PHASES EV_MAJOR = Some ''ocaml.eventring.EV_MAJOR''"
| "REQUIRED_PHASES (OtherPhase n) = None"

fun REQUIRED_COUNTERS :: "ev_runtime_counter \<Rightarrow> string option" where
  "REQUIRED_COUNTERS EV_C_FORCE_MINOR_ALLOC_SMALL = Some ''ocaml.eventring.EV_C_FORCE_MINOR_ALLOC_SMALL''"
| "REQUIRED_COUNTERS EV_C_FORCE_MINOR_MAKE_VECT = Some ''ocaml.eventring.EV_C_FORCE_MINOR_MAKE_VECT''"
| "REQUIRED_COUNTERS EV_C_FORCE_MINOR_SET_MINOR_HEAP_SIZE = Some ''ocaml.eventring.EV_C_FORCE_MINOR_SET_MINOR_HEAP_SIZE''"
| "REQUIRED_COUNTERS EV_C_FORCE_MINOR_WEAK = Some ''ocaml.eventring.EV_C_FORCE_MINOR_WEAK''"
| "REQUIRED_COUNTERS EV_C_FORCE_MINOR_MEMPROF = Some ''ocaml.eventring.EV_C_FORCE_MINOR_MEMPROF''"
| "REQUIRED_COUNTERS EV_C_MINOR_PROMOTED = Some ''ocaml.eventring.EV_C_MINOR_PROMOTED''"
| "REQUIRED_COUNTERS EV_C_MINOR_ALLOCATED = Some ''ocaml.eventring.EV_C_MINOR_ALLOCATED''"
| "REQUIRED_COUNTERS (OtherCounter n) = None"

definition long_entry :: "string \<Rightarrow> MetricUnit \<Rightarrow> MetricVariability \<Rightarrow> i64 \<Rightarrow> MetricListenerEntry" where
  "long_entry name unit variability v = \<lparr>me_name = name, me_variability = variability, me_unit = unit,
     me_data = \<lparr>md_type = DataType_LONG, valueString = [], valueLong = v\<rparr>\<rparr>"

definition string_entry :: "string \<Rightarrow> MetricUnit \<Rightarrow> string \<Rightarrow> MetricListenerEntry" where
  "string_entry name unit v = \<lparr>me_name = name, me_variability = Variability_CONSTANT, me_unit = unit,
     me_data = \<lparr>md_type = DataType_STRING, valueString = v, valueLong = 0\<rparr>\<rparr>"

section \<open>Polling\<close>

text \<open>The state of one poll; \<open>ps_calls\<close> records the calls of its listener.\<close>

record PollState =
  ps_entries :: "MetricListenerEntry list"
  ps_lostEvents :: i32
  lastTimestampInMs :: u64
  ps_calls :: "metric_call list"

definition newPollState :: PollState where
  "newPollState = \<lparr>ps_entries = [], ps_lostEvents = 0, lastTimestampInMs = 0, ps_calls = []\<rparr>"

definition push :: "int \<Rightarrow> PollState \<Rightarrow> PollState" where
  "push adj p =
     (if ps_entries p \<noteq> [] then
        let p = (if 0 <s ps_lostEvents p
              then p\<lparr>ps_entries := ps_entries p @
                       [long_entry LOST_EVENTS_NAME Unit_NONE Variability_VARIABLE (scast (ps_lostEvents p))],
                     ps_lostEvents := 0\<rparr>
              else p)
        in p\<lparr>ps_calls := ps_calls p @ [RecordEntries (ps_entries p) (adj + sint (lastTimestampInMs p))], ps_entries := []\<rparr>
      else p)"

definition addEntry :: "int \<Rightarrow> MetricListenerEntry \<Rightarrow> u64 \<Rightarrow> PollState \<Rightarrow> PollState" where
  "addEntry adj entry timestampInNs p =
     (let timestampInMs = timestampInNs div NS_IN_MS;
          p = (if lastTimestampInMs p = 0 then p\<lparr>lastTimestampInMs := timestampInMs\<rparr>
               else if lastTimestampInMs p \<noteq> timestampInMs then (push adj p)\<lparr>lastTimestampInMs := timestampInMs\<rparr>
               else p)
      in p\<lparr>ps_entries := ps_entries p @ [entry]\<rparr>)"

definition lostEvents :: "i32 \<Rightarrow> PollState \<Rightarrow> PollState" where
  "lostEvents n p = p\<lparr>ps_lostEvents := ps_lostEvents p + n\<rparr>"

text \<open>
  The callbacks. The ones that may add an entry return it with its timestamp; \<open>ring_callback\<close> adds it to the poll.
\<close>

definition eventRingBegin :: "u64 \<Rightarrow> ev_runtime_phase \<Rightarrow> runtime_events \<Rightarrow> runtime_events" where
  "eventRingBegin timestamp phase e =
     (case REQUIRED_PHASES phase of
        None \<Rightarrow> e
      | Some name \<Rightarrow>
          (case phaseToEventState e phase of
             None \<Rightarrow> e\<lparr>phaseToEventState := (phaseToEventState e)(phase \<mapsto> \<lparr>beginTimestamp = timestamp, eventName = name\<rparr>)\<rparr>
           | Some st \<Rightarrow> e\<lparr>phaseToEventState := (phaseToEventState e)(phase \<mapsto> st\<lparr>beginTimestamp := timestamp\<rparr>)\<rparr>))"

definition eventRingEnd :: "u64 \<Rightarrow> ev_runtime_phase \<Rightarrow> runtime_events
    \<Rightarrow> (MetricListenerEntry \<times> u64) option \<times> runtime_events" where
  "eventRingEnd timestamp phase e =
     (case REQUIRED_PHASES phase of
        None \<Rightarrow> (None, e)
      | Some _ \<Rightarrow>
          (case phaseToEventState e phase of
             None \<Rightarrow> (None, e)
           | Some st \<Rightarrow>
               (let duration = timestamp - beginTimestamp st
                in (Some (long_entry (eventName st) Unit_NANOSECONDS Variability_VARIABLE duration, timestamp),
                    e\<lparr>phaseToEventState := (phaseToEventState e)(phase := None)\<rparr>))))"

definition eventRingCounter :: "u64 \<Rightarrow> ev_runtime_counter \<Rightarrow> u64 \<Rightarrow> (MetricListenerEntry \<times> u64) option" where
  "eventRingCounter timestamp counter v =
     (case REQUIRED_COUNTERS counter of
        None \<Rightarrow> None
      | Some name \<Rightarrow>
          (let (v, unit) = (if counter = EV_C_MINOR_PROMOTED \<or> counter = EV_C_MINOR_ALLOCATED
                 then (v * WORD_SIZE, Unit_BYTES) else (v, Unit_EVENTS))
           in Some (long_entry name unit Variability_VARIABLE v, timestamp)))"

fun ring_entry :: "ring_event \<Rightarrow> runtime_events \<Rightarrow> (MetricListenerEntry \<times> u64) option \<times> runtime_events" where
  "ring_entry (Begin d t phase) e = (None, eventRingBegin t phase e)"
| "ring_entry (End d t phase) e = eventRingEnd t phase e"
| "ring_entry (Counter d t counter v) e = (eventRingCounter t counter v, e)"
| "ring_entry (Lost d n) e = (None, e)"

fun ring_callback :: "ring_event \<Rightarrow> runtime_events \<times> PollState \<Rightarrow> runtime_events \<times> PollState" where
  "ring_callback (Lost d n) (e, p) = (e, lostEvents n p)"
| "ring_callback ev (e, p) =
     (case ring_entry ev e of
        (None, e') \<Rightarrow> (e', p)
      | (Some (entry, timestamp), e') \<Rightarrow> (e', addEntry (adjustment e) entry timestamp p))"

definition read_runtime_events :: "ring_event list \<Rightarrow> u32 \<Rightarrow> runtime_events \<Rightarrow> metric_call list \<times> u32 \<times> runtime_events" where
  "read_runtime_events events eventsRead e =
     (if cursor e then
        let (e, p) = fold ring_callback events (e, newPollState) in (ps_calls (push (adjustment e) p), eventsRead, e)
      else ([], 0, e))"

section \<open>Switching\<close>

definition disable_runtime_events :: "runtime_events \<Rightarrow> runtime_events" where
  "disable_runtime_events e =
     (let e = (if calledStart e then e\<lparr>rt_calls := rt_calls e @ [RtPause]\<rparr> else e)
      in if cursor e then e\<lparr>rt_calls := rt_calls e @ [RtFreeCursor], cursor := False\<rparr> else e)"

text \<open>What the environment supplies: both clocks, and whether a cursor can be created.\<close>

record ring_env =
  realtime :: timespec
  monotonic :: timespec
  create_cursor_ok :: bool

definition enable_runtime_events :: "ring_env \<Rightarrow> bool \<Rightarrow> bool \<Rightarrow> runtime_events \<Rightarrow> bool \<times> runtime_events" where
  "enable_runtime_events env wasEnabled enable e =
     (if \<not> wasEnabled \<and> enable then
        let e = (if \<not> calledStart e
              then e\<lparr>phaseToEventState := Map.empty, rt_calls := rt_calls e @ [RtStart],
                     adjustment := toMillis (realtime env) - toMillis (monotonic env), calledStart := True\<rparr>
              else e\<lparr>rt_calls := rt_calls e @ [RtResume]\<rparr>);
            e = e\<lparr>rt_calls := rt_calls e @ [RtCreateCursor]\<rparr>
        in (create_cursor_ok env, e\<lparr>cursor := create_cursor_ok env\<rparr>)
      else (enable, if wasEnabled \<and> \<not> enable then disable_runtime_events e else e))"

text \<open>The build without runtime events.\<close>

datatype build = WithRuntimeEvents | WithoutRuntimeEvents

definition has_runtime_events :: "build \<Rightarrow> bool" where
  "has_runtime_events b = (case b of WithRuntimeEvents \<Rightarrow> True | WithoutRuntimeEvents \<Rightarrow> False)"

definition build_enable :: "build \<Rightarrow> ring_env \<Rightarrow> bool \<Rightarrow> bool \<Rightarrow> runtime_events \<Rightarrow> bool \<times> runtime_events" where
  "build_enable b env wasEnabled enable e =
     (case b of WithRuntimeEvents \<Rightarrow> enable_runtime_events env wasEnabled enable e | WithoutRuntimeEvents \<Rightarrow> (False, e))"

definition build_read :: "build \<Rightarrow> ring_event list \<Rightarrow> u32 \<Rightarrow> runtime_events \<Rightarrow> metric_call list \<times> u32 \<times> runtime_events" where
  "build_read b events eventsRead e =
     (case b of WithRuntimeEvents \<Rightarrow> read_runtime_events events eventsRead e | WithoutRuntimeEvents \<Rightarrow> ([], 0, e))"

definition build_disable :: "build \<Rightarrow> runtime_events \<Rightarrow> runtime_events" where
  "build_disable b e = (case b of WithRuntimeEvents \<Rightarrow> disable_runtime_events e | WithoutRuntimeEvents \<Rightarrow> e)"

section \<open>The reader\<close>

record EventRingReader =
  er_enabled :: bool
  er_hasEmittedConstantMetrics :: bool

definition er_updateEntryPrefixes :: "build \<Rightarrow> ring_env \<Rightarrow> string list \<Rightarrow> EventRingReader \<times> runtime_events
    \<Rightarrow> EventRingReader \<times> runtime_events" where
  "er_updateEntryPrefixes b env disabledPrefixes rs =
     (let (r, e) = rs; enable = (\<not> isPrefixDisabled ''ocaml.eventring'' disabledPrefixes);
          (enabled, e) = build_enable b env (er_enabled r) enable e
      in (r\<lparr>er_enabled := enabled\<rparr>, e))"

definition newEventRingReader :: "build \<Rightarrow> ring_env \<Rightarrow> string list \<Rightarrow> runtime_events \<Rightarrow> EventRingReader \<times> runtime_events" where
  "newEventRingReader b env disabledPrefixes e =
     er_updateEntryPrefixes b env disabledPrefixes (\<lparr>er_enabled = False, er_hasEmittedConstantMetrics = False\<rparr>, e)"

definition er_disable :: "build \<Rightarrow> EventRingReader \<times> runtime_events \<Rightarrow> EventRingReader \<times> runtime_events" where
  "er_disable b rs = (let (r, e) = rs in if er_enabled r then (r, build_disable b e) else (r, e))"

text \<open>What the reader takes from the process: two environment variables and the version it was built with.\<close>

record ocaml_env =
  OCAMLRUNPARAM :: "string option"
  CAMLRUNPARAM :: "string option"
  OCAML_VERSION_STRING :: string

definition emitConstantMetrics :: "build \<Rightarrow> ocaml_env \<Rightarrow> int \<Rightarrow> metric_call list" where
  "emitConstantMetrics b env timestampInMs =
     (let runParam = (case OCAMLRUNPARAM env of Some p \<Rightarrow> Some p | None \<Rightarrow> CAMLRUNPARAM env)
      in [RecordEntries
           ([long_entry ''ocaml.eventring.enabled'' Unit_NONE Variability_CONSTANT (of_bool (has_runtime_events b))] @
            (case runParam of None \<Rightarrow> [] | Some p \<Rightarrow> [string_entry ''ocaml.runparam'' Unit_STRING p]) @
            [string_entry ''ocaml.version'' Unit_NONE (OCAML_VERSION_STRING env)]) timestampInMs])"

definition er_read :: "build \<Rightarrow> ocaml_env \<Rightarrow> ring_event list \<Rightarrow> u32 \<Rightarrow> int \<Rightarrow> EventRingReader \<times> runtime_events
    \<Rightarrow> metric_call list \<times> u32 \<times> EventRingReader \<times> runtime_events" where
  "er_read b env events eventsRead timestampInMs rs =
     (let (r, e) = rs
      in if er_enabled r then
           let (calls, n, r) = (if \<not> er_hasEmittedConstantMetrics r
                 then (emitConstantMetrics b env timestampInMs, 1, r\<lparr>er_hasEmittedConstantMetrics := True\<rparr>)
                 else ([], 0, r));
               (calls', n', e) = build_read b events eventsRead e
           in (calls @ calls', n + n', r, e)
         else ([], 0, r, e))"

section \<open>What a poll reports\<close>

text \<open>The entries the callbacks of a poll produce, with their timestamps in milliseconds.\<close>

fun produced :: "ring_event list \<Rightarrow> runtime_events \<Rightarrow> (MetricListenerEntry \<times> u64) list" where
  "produced [] e = []"
| "produced (ev # evs) e =
     (case ring_entry ev e of
        (None, e) \<Rightarrow> produced evs e
      | (Some (entry, t), e) \<Rightarrow> (entry, t div NS_IN_MS) # produced evs e)"

fun lost_count :: "ring_event \<Rightarrow> int" where
  "lost_count (Lost d n) = sint n"
| "lost_count (Begin d t p) = 0"
| "lost_count (End d t p) = 0"
| "lost_count (Counter d t c v) = 0"

definition is_lost_entry :: "MetricListenerEntry \<Rightarrow> bool" where
  "is_lost_entry en = (me_name en = LOST_EVENTS_NAME)"

text \<open>What the listener is told: the entries with the time of their batch, and the number of lost events.\<close>

fun call_entries :: "metric_call \<Rightarrow> (MetricListenerEntry \<times> int) list" where
  "call_entries (RecordEntries es t) = map (\<lambda>en. (en, t)) (filter (\<lambda>en. \<not> is_lost_entry en) es)"
| "call_entries (MetricNotification c t) = []"

fun call_lost :: "metric_call \<Rightarrow> int" where
  "call_lost (RecordEntries es t) = (\<Sum>en \<leftarrow> filter is_lost_entry es. sint (valueLong (me_data en)))"
| "call_lost (MetricNotification c t) = 0"

fun call_time :: "metric_call \<Rightarrow> int" where
  "call_time (RecordEntries es t) = t"
| "call_time (MetricNotification c t) = 0"

text \<open>The names kept between a phase's begin and its end are the required ones.\<close>

definition phases_ok :: "runtime_events \<Rightarrow> bool" where
  "phases_ok e \<longleftrightarrow> (\<forall>ph st. phaseToEventState e ph = Some st \<longrightarrow> REQUIRED_PHASES ph = Some (eventName st))"

lemma ring_entry_keeps:
  "ring_entry ev e = (r, e') \<Longrightarrow> adjustment e' = adjustment e \<and> cursor e' = cursor e \<and> (phases_ok e \<longrightarrow> phases_ok e')"
  by (cases ev)
    (auto simp: eventRingBegin_def eventRingEnd_def phases_ok_def Let_def split: option.splits if_splits)

lemma required_not_lost: "REQUIRED_PHASES ph = Some n \<Longrightarrow> n \<noteq> LOST_EVENTS_NAME"
  "REQUIRED_COUNTERS c = Some n \<Longrightarrow> n \<noteq> LOST_EVENTS_NAME"
  by (cases ph, auto simp: LOST_EVENTS_NAME_def) (cases c, auto)

lemma phases_ok_not_lost: "phases_ok e \<Longrightarrow> phaseToEventState e ph = Some st \<Longrightarrow> eventName st \<noteq> LOST_EVENTS_NAME"
  unfolding phases_ok_def using required_not_lost(1) by blast

lemma ring_entry_not_lost:
  "phases_ok e \<Longrightarrow> ring_entry ev e = (Some (en, t), e') \<Longrightarrow> \<not> is_lost_entry en \<and> lost_count ev = 0"
  by (cases ev)
    (auto simp: eventRingEnd_def eventRingCounter_def is_lost_entry_def long_entry_def Let_def
      dest: required_not_lost phases_ok_not_lost split: option.splits prod.splits)

text \<open>
  During a poll: \<open>done\<close> is what has been produced so far, \<open>tot\<close> how many events were lost.
\<close>

definition poll_inv :: "int \<Rightarrow> (MetricListenerEntry \<times> u64) list \<Rightarrow> int \<Rightarrow> PollState \<Rightarrow> bool" where
  "poll_inv adj prd tot p \<longleftrightarrow>
     concat (map call_entries (ps_calls p)) @ map (\<lambda>en. (en, adj + sint (lastTimestampInMs p))) (ps_entries p) =
       map (\<lambda>(en, ms). (en, adj + sint ms)) prd \<and>
     list_all (\<lambda>en. \<not> is_lost_entry en) (ps_entries p) \<and>
     (prd = [] \<longrightarrow> ps_entries p = [] \<and> ps_calls p = [] \<and> lastTimestampInMs p = 0) \<and>
     (prd \<noteq> [] \<longrightarrow> ps_entries p \<noteq> [] \<and> lastTimestampInMs p \<noteq> 0) \<and>
     distinct_adj (map call_time (ps_calls p) @ [adj + sint (lastTimestampInMs p)]) \<and>
     sum_list (map call_lost (ps_calls p)) + sint (ps_lostEvents p) = tot \<and> 0 \<le> sint (ps_lostEvents p) \<and>
     0 \<le> sum_list (map call_lost (ps_calls p))"

lemma distinct_adj_snoc: "distinct_adj (xs @ [x]) \<Longrightarrow> x \<noteq> y \<Longrightarrow> distinct_adj (xs @ [x, y])"
  by (induction xs rule: induct_list012) auto

lemma scast_i32: "sint (scast (w :: i32) :: i64) = sint w"
  using sint_greater_eq [of w] sint_less [of w] by (simp add: signed_scast_eq signed_take_bit_int_eq_self)

lemma push_inv:
  assumes "poll_inv adj prd tot p" "prd \<noteq> []"
  shows "concat (map call_entries (ps_calls (push adj p))) = map (\<lambda>(en, ms). (en, adj + sint ms)) prd"
    and "map call_time (ps_calls (push adj p)) = map call_time (ps_calls p) @ [adj + sint (lastTimestampInMs p)]"
    and "sum_list (map call_lost (ps_calls (push adj p))) = tot" "ps_entries (push adj p) = []"
    and "ps_lostEvents (push adj p) = 0"
proof -
  have I: "ps_entries p \<noteq> []" "list_all (\<lambda>en. \<not> is_lost_entry en) (ps_entries p)" "0 \<le> sint (ps_lostEvents p)"
    using assms by (simp_all add: poll_inv_def)
  have f: "filter (\<lambda>en. \<not> is_lost_entry en) (ps_entries p) = ps_entries p" "filter is_lost_entry (ps_entries p) = []"
    using I(2) by (auto simp: list_all_iff filter_empty_conv intro: filter_True)
  let ?l = "long_entry LOST_EVENTS_NAME Unit_NONE Variability_VARIABLE (scast (ps_lostEvents p))"
  have l: "is_lost_entry ?l" "sint (valueLong (me_data ?l)) = sint (ps_lostEvents p)"
    by (simp_all add: is_lost_entry_def long_entry_def scast_i32)
  have z: "ps_lostEvents p = 0" if "\<not> 0 <s ps_lostEvents p"
  proof -
    have "sint (ps_lostEvents p) = 0" using that I(3) by (simp add: word_sless_alt)
    then show ?thesis by (simp add: signed_eq_0_iff)
  qed
  show "concat (map call_entries (ps_calls (push adj p))) = map (\<lambda>(en, ms). (en, adj + sint ms)) prd"
    "map call_time (ps_calls (push adj p)) = map call_time (ps_calls p) @ [adj + sint (lastTimestampInMs p)]"
    "sum_list (map call_lost (ps_calls (push adj p))) = tot" "ps_entries (push adj p) = []"
    "ps_lostEvents (push adj p) = 0"
    using assms I(1) f l z by (auto simp: push_def poll_inv_def Let_def)
qed

lemma sint_inj: "sint a = sint b \<Longrightarrow> a = b" for a b :: u64
proof -
  assume "sint a = sint b"
  then have "(of_int (sint a) :: u64) = of_int (sint b)" by simp
  then show ?thesis by simp
qed

lemma addEntry_inv:
  assumes inv: "poll_inv adj prd tot p" and en: "\<not> is_lost_entry en" and t: "t div NS_IN_MS \<noteq> 0" and tot: "tot < 2 ^ 31"
  shows "poll_inv adj (prd @ [(en, t div NS_IN_MS)]) tot (addEntry adj en t p)"
proof (cases "prd = []")
  case True
  with inv en t show ?thesis by (auto simp: poll_inv_def addEntry_def Let_def)
next
  case False
  then have l: "lastTimestampInMs p \<noteq> 0" using inv by (simp add: poll_inv_def)
  show ?thesis
  proof (cases "lastTimestampInMs p = t div NS_IN_MS")
    case True
    with inv en t l False show ?thesis by (simp add: poll_inv_def addEntry_def Let_def)
  next
    case ne: False
    note P = push_inv [OF inv False]
    have "distinct_adj (map call_time (ps_calls p) @ [adj + sint (lastTimestampInMs p)])" using inv by (simp add: poll_inv_def)
    moreover have "adj + sint (lastTimestampInMs p) \<noteq> adj + sint (t div NS_IN_MS)" using ne sint_inj [of "lastTimestampInMs p" "t div NS_IN_MS"] by auto
    ultimately have "distinct_adj (map call_time (ps_calls (push adj p)) @ [adj + sint (t div NS_IN_MS)])"
      by (auto simp: P(2) intro: distinct_adj_snoc)
    moreover have "0 \<le> tot" using inv by (simp add: poll_inv_def)
    ultimately show ?thesis using P en t l ne False by (simp add: poll_inv_def addEntry_def Let_def)
  qed
qed

lemma lostEvents_inv:
  assumes inv: "poll_inv adj prd tot p" and n: "0 \<le> sint n" and tot: "tot + sint n < 2 ^ 31"
  shows "poll_inv adj prd (tot + sint n) (lostEvents n p)"
proof -
  have b: "0 \<le> sint (ps_lostEvents p)" "sint (ps_lostEvents p) \<le> tot" using inv by (auto simp: poll_inv_def)
  have "sint (ps_lostEvents p + n) = signed_take_bit 31 (sint (ps_lostEvents p) + sint n)"
    by (simp add: sint_word_ariths)
  also have "\<dots> = sint (ps_lostEvents p) + sint n" using b n tot by (simp add: signed_take_bit_int_eq_self)
  finally show ?thesis using inv n by (simp add: poll_inv_def lostEvents_def)
qed

lemma lost_ring_entry: "lost_count ev \<noteq> 0 \<Longrightarrow> \<exists>d n. ev = Lost d n"
  by (cases ev) auto

lemma fold_callbacks_inv:
  assumes "poll_inv adj prd tot p" "phases_ok e" "adjustment e = adj"
    and "list_all (\<lambda>(en, ms). ms \<noteq> 0) (produced evs e)"
    and "list_all (\<lambda>ev. 0 \<le> lost_count ev) evs" "tot + sum_list (map lost_count evs) < 2 ^ 31"
    and "fold ring_callback evs (e, p) = (e', p')"
  shows "poll_inv adj (prd @ produced evs e) (tot + sum_list (map lost_count evs)) p'"
  using assms
proof (induction evs arbitrary: prd tot p e)
  case (Cons ev evs)
  have nn: "0 \<le> sum_list (map lost_count evs)" using Cons.prems(5) by (induction evs) auto
  obtain r e1 where r: "ring_entry ev e = (r, e1)" by fastforce
  note k = ring_entry_keeps [OF r]
  show ?case
  proof (cases "\<exists>d n. ev = Lost d n")
    case True
    then obtain d n where ev: "ev = Lost d n" by blast
    with r have "r = None" "e1 = e" by simp_all
    have "poll_inv adj prd (tot + sint n) (lostEvents n p)"
      using Cons.prems nn ev by (intro lostEvents_inv) auto
    from Cons.IH [OF this Cons.prems(2,3)] Cons.prems ev show ?thesis by (simp add: add.assoc)
  next
    case False
    then have l: "lost_count ev = 0" and cb: "ring_callback ev (e, p) =
        (case r of None \<Rightarrow> (e1, p) | Some (en, t) \<Rightarrow> (e1, addEntry adj en t p))"
      using r Cons.prems(3) by (cases ev; auto split: option.splits)+
    show ?thesis
    proof (cases r)
      case None
      from Cons.IH [OF Cons.prems(1)] Cons.prems k r None l cb show ?thesis by simp
    next
      case (Some et)
      then obtain en t where et: "r = Some (en, t)" by (cases et) auto
      have "poll_inv adj (prd @ [(en, t div NS_IN_MS)]) tot (addEntry adj en t p)"
        using Cons.prems r et ring_entry_not_lost nn l by (intro addEntry_inv) auto
      from Cons.IH [OF this] Cons.prems k r et l cb show ?thesis by simp
    qed
  qed
qed simp

lemma fold_callbacks_keep: "fold ring_callback evs (e, p) = (e', p') \<Longrightarrow> adjustment e' = adjustment e"
proof (induction evs arbitrary: e p)
  case (Cons ev evs)
  obtain e1 p1 where r: "ring_callback ev (e, p) = (e1, p1)" by fastforce
  then have "adjustment e1 = adjustment e"
    by (cases "(ev, e, p)" rule: ring_callback.cases) (auto split: prod.splits option.splits dest: ring_entry_keeps simp del: ring_entry.simps)
  with Cons r show ?case by simp
qed simp

lemma newPollState_inv: "poll_inv adj [] 0 newPollState"
  by (simp add: poll_inv_def newPollState_def)

text \<open>C20: A poll tells the listener every entry its callbacks produced, once, in order, under the wall-clock millisecond
  of its own timestamp, in batches of which two that follow each other differ in time; and it reports the number of lost
  events in full if it produced any entry, and nothing at all if it produced none.\<close>

theorem poll_reports_entries_in_order:
  assumes "cursor e" "phases_ok e" "list_all (\<lambda>(en, ms). ms \<noteq> 0) (produced evs e)"
    and "list_all (\<lambda>ev. 0 \<le> lost_count ev) evs" "sum_list (map lost_count evs) < 2 ^ 31"
    and "read_runtime_events evs n e = (calls, n', e')"
  shows "concat (map call_entries calls) = map (\<lambda>(en, ms). (en, adjustment e + sint ms)) (produced evs e) \<and>
    distinct_adj (map call_time calls) \<and>
    sum_list (map call_lost calls) = (if produced evs e = [] then 0 else sum_list (map lost_count evs))"
proof -
  obtain e1 p where f: "fold ring_callback evs (e, newPollState) = (e1, p)" by fastforce
  have calls: "calls = ps_calls (push (adjustment e) p)" using assms(1,6) f fold_callbacks_keep [OF f] by (auto simp: read_runtime_events_def)
  have inv: "poll_inv (adjustment e) (produced evs e) (sum_list (map lost_count evs)) p"
    using fold_callbacks_inv [OF newPollState_inv assms(2) refl assms(3,4) _ f] assms(5) by simp
  show ?thesis
  proof (cases "produced evs e = []")
    case True
    with inv show ?thesis by (simp add: calls poll_inv_def push_def)
  next
    case False
    from push_inv [OF inv False] inv False show ?thesis by (simp add: calls poll_inv_def)
  qed
qed

definition demo_ring :: runtime_events where
  "demo_ring = snd (enable_runtime_events \<lparr>realtime = \<lparr>tv_sec = 1000, tv_nsec = 0\<rparr>,
     monotonic = \<lparr>tv_sec = 1, tv_nsec = 0\<rparr>, create_cursor_ok = True\<rparr> False True runtime_events_init)"

definition demo_events :: "ring_event list" where
  "demo_events = [Begin 0 1000000 EV_MINOR, Lost 0 3, End 0 1500000 EV_MINOR, Counter 0 1600000 EV_C_MINOR_PROMOTED 10,
     Counter 0 2000000 (OtherCounter 1) 4, Counter 0 2000000 EV_C_FORCE_MINOR_WEAK 1, Lost 0 4]"

lemma poll_reports_entries_in_order_witness:
  "sum_list (map call_lost (fst (read_runtime_events demo_events 7 demo_ring))) = 7 \<and>
   map call_time (fst (read_runtime_events demo_events 7 demo_ring)) = [999001, 999002]"
proof -
  have h: "cursor demo_ring" "list_all (\<lambda>(en, ms). ms \<noteq> 0) (produced demo_events demo_ring)"
    "list_all (\<lambda>ev. 0 \<le> lost_count ev) demo_events" "sum_list (map lost_count demo_events) = 7"
    "produced demo_events demo_ring \<noteq> []"
    "map call_time (fst (read_runtime_events demo_events 7 demo_ring)) = [999001, 999002]" by code_simp+
  have p: "phases_ok demo_ring"
    by (simp add: phases_ok_def demo_ring_def enable_runtime_events_def runtime_events_init_def Let_def)
  obtain calls n e where r: "read_runtime_events demo_events 7 demo_ring = (calls, n, e)" by (metis prod_cases3)
  have "sum_list (map lost_count demo_events) < 2 ^ 31" using h(4) by simp
  from poll_reports_entries_in_order [OF h(1) p h(2,3) this r] h(4-6) r show ?thesis by simp
qed

section \<open>Phases\<close>








text \<open>The domain is not part of a phase's key: when a second domain enters the same phase before the first has left,
  the first end is measured from the second begin and the second end is not reported at all.\<close>

lemma parallel_domains_mix_phases:
  assumes "REQUIRED_PHASES ph = Some name" "phaseToEventState e ph = None"
  shows "produced [Begin d1 a ph, Begin d2 b ph, End d1 c ph, End d2 f ph] e =
    [(long_entry name Unit_NANOSECONDS Variability_VARIABLE (c - b), c div NS_IN_MS)]"
  using assms by (simp add: eventRingBegin_def eventRingEnd_def Let_def)

lemma parallel_domains_mix_phases_witness:
  "produced [Begin 0 1000000 EV_MINOR, Begin 1 2000000 EV_MINOR, End 0 3000000 EV_MINOR, End 1 4000000 EV_MINOR]
     runtime_events_init = [(long_entry ''ocaml.eventring.EV_MINOR'' Unit_NANOSECONDS Variability_VARIABLE 1000000, 3)]"
proof -
  have "phaseToEventState runtime_events_init EV_MINOR = None" by (simp add: runtime_events_init_def)
  from parallel_domains_mix_phases [OF _ this, of "''ocaml.eventring.EV_MINOR''" 0 1000000 1 2000000 3000000 4000000]
  show ?thesis by (simp add: NS_IN_MS_def)
qed

end
