(* ===== verification/Metrics.thy ===== *)
theory Metrics
  imports Circular_Queue Event_Ring Proc_Scanner
begin

text \<open>
  \<^verbatim>\<open>src/lib/metrics.cpp\<close>: the metrics thread. The two readers are driven once per sample window, their entries are
  numbered by name and pushed onto the main queue. \<open>enable\<close>, \<open>disable\<close> and \<open>setSampleRate\<close> run on the processor
  thread; the readers' mutex makes each of them, and each critical section of the loop, one step.
\<close>

section \<open>State\<close>

definition DURATION_NAME :: string where "DURATION_NAME = ''opsian.metrics.read_duration''"
definition DURATION_ID :: u32 where "DURATION_ID = 1"

definition DURATION_INFO :: MetricInformation where
  "DURATION_INFO = \<lparr>mi_name = DURATION_NAME, mi_id = DURATION_ID, mi_variability = Variability_VARIABLE,
     mi_dataType = DataType_LONG, mi_unit = Unit_NANOSECONDS\<rparr>"

definition DEFAULT_METRICS_SAMPLE_RATE_MILLIS :: u64 where "DEFAULT_METRICS_SAMPLE_RATE_MILLIS = 1000"

text \<open>
  \<open>retryEntries\<close> belongs to the listener the loop creates once, \<open>runtime\<close> and \<open>cpuErrors\<close> are static.
\<close>

record Metrics =
  mustSendDurationMetric :: bool
  mt_enabled :: bool
  sampleRateMillis :: u64
  eventRingReader :: "EventRingReader option"
  cpudataReader :: "CPUDataReader option"
  metricNameToId :: "(string \<times> u32) list"
  needsToSendConstantMetrics :: bool
  retryEntries :: "MetricListenerEntry list"
  runtime :: runtime_events
  cpuErrors :: u32

definition newMetrics :: "runtime_events \<Rightarrow> u32 \<Rightarrow> Metrics" where
  "newMetrics rt errors = \<lparr>mustSendDurationMetric = False, mt_enabled = False,
     sampleRateMillis = DEFAULT_METRICS_SAMPLE_RATE_MILLIS, eventRingReader = None, cpudataReader = None,
     metricNameToId = [], needsToSendConstantMetrics = False, retryEntries = [], runtime = rt, cpuErrors = errors\<rparr>"

text \<open>What creating the readers needs of the system.\<close>

record reader_env =
  env_meminfo :: SeekableFile
  env_stat :: SeekableFile
  env_ring :: ring_env

section \<open>Called on the processor thread\<close>

definition metrics_enable :: "build \<Rightarrow> reader_env \<Rightarrow> string list \<Rightarrow> Metrics \<Rightarrow> Metrics" where
  "metrics_enable b env disabledPrefixes m =
     (if \<not> mt_enabled m then
        let cpu = newCPUDataReader (env_meminfo env) (env_stat env) (cpuErrors m) disabledPrefixes;
            (er, rt) = newEventRingReader b (env_ring env) disabledPrefixes (runtime m)
        in m\<lparr>cpudataReader := Some cpu, eventRingReader := Some er, runtime := rt, mustSendDurationMetric := True,
             needsToSendConstantMetrics := True, mt_enabled := True\<rparr>
      else
        (case (cpudataReader m, eventRingReader m) of
           (Some cpu, Some er) \<Rightarrow>
             (let cpu = updateEntryPrefixes disabledPrefixes cpu;
                  (er, rt) = er_updateEntryPrefixes b (env_ring env) disabledPrefixes (er, runtime m)
              in m\<lparr>cpudataReader := Some cpu, eventRingReader := Some er, runtime := rt, mt_enabled := True\<rparr>)
         | _ \<Rightarrow> m))"

definition metrics_disable :: "build \<Rightarrow> Metrics \<Rightarrow> Metrics" where
  "metrics_disable b m =
     (let m = (if mt_enabled m then
            case eventRingReader m of
              Some er \<Rightarrow> m\<lparr>cpudataReader := None, runtime := snd (er_disable b (er, runtime m)), eventRingReader := None,
                         metricNameToId := []\<rparr>
            | None \<Rightarrow> m
          else m)
      in m\<lparr>mustSendDurationMetric := False, mt_enabled := False\<rparr>)"

definition setSampleRate :: "u64 \<Rightarrow> Metrics \<Rightarrow> Metrics" where
  "setSampleRate rate m = m\<lparr>sampleRateMillis := rate\<rparr>"

definition metrics_on_fork :: "Metrics \<Rightarrow> Metrics" where
  "metrics_on_fork m = m\<lparr>mustSendDurationMetric := False, mt_enabled := False,
     sampleRateMillis := DEFAULT_METRICS_SAMPLE_RATE_MILLIS, cpudataReader := None, eventRingReader := None,
     metricNameToId := [], needsToSendConstantMetrics := False\<rparr>"

section \<open>The listener\<close>

definition findOrCreateMetricId :: "QueueSizes \<Rightarrow> MetricListenerEntry \<Rightarrow> (string \<times> u32) list \<times> CircularQueue
    \<Rightarrow> u32 \<times> (string \<times> u32) list \<times> CircularQueue" where
  "findOrCreateMetricId sz entry iq =
     (let (ids, q) = iq
      in case map_of ids (me_name entry) of
           Some metricId \<Rightarrow> (metricId, ids, q)
         | None \<Rightarrow>
             (let metricId = word_of_nat (length ids) + 1;
                  info = \<lparr>mi_name = me_name entry, mi_id = metricId, mi_variability = me_variability entry,
                    mi_dataType = md_type (me_data entry), mi_unit = me_unit entry\<rparr>;
                  (pushed, q) = pushMetricInformation sz info q
              in if pushed then (metricId, (me_name entry, metricId) # ids, q) else (0, ids, q)))"

fun attemptRecordEntries :: "QueueSizes \<Rightarrow> MetricListenerEntry list
    \<Rightarrow> MetricSample list \<times> MetricListenerEntry list \<times> (string \<times> u32) list \<times> CircularQueue
    \<Rightarrow> MetricSample list \<times> MetricListenerEntry list \<times> (string \<times> u32) list \<times> CircularQueue" where
  "attemptRecordEntries sz [] st = st"
| "attemptRecordEntries sz (entry # entries) (samples, failed, ids, q) =
     (case findOrCreateMetricId sz entry (ids, q) of (metricId, ids, q) \<Rightarrow>
        if metricId = 0 then
          attemptRecordEntries sz entries
            (samples, if me_variability entry = Variability_CONSTANT then failed @ [entry] else failed, ids, q)
        else
          attemptRecordEntries sz entries (samples @ [\<lparr>ms_id = metricId, ms_data = me_data entry\<rparr>], failed, ids, q))"

text \<open>The result of pushing the samples is not looked at.\<close>

definition recordEntries :: "QueueSizes \<Rightarrow> MetricListenerEntry list \<Rightarrow> int \<Rightarrow> Metrics \<times> CircularQueue
    \<Rightarrow> Metrics \<times> CircularQueue" where
  "recordEntries sz entries timestampInMs mq =
     (let (m, q) = mq;
          st = attemptRecordEntries sz entries ([], [], metricNameToId m, q);
          (samples, failed, ids, q) = attemptRecordEntries sz (retryEntries m) st;
          (_, q) = pushMetricSamples sz samples timestampInMs q
      in (m\<lparr>metricNameToId := ids, retryEntries := failed\<rparr>, q))"

fun metric_listener :: "QueueSizes \<Rightarrow> metric_call \<Rightarrow> Metrics \<times> CircularQueue \<Rightarrow> Metrics \<times> CircularQueue" where
  "metric_listener sz (RecordEntries es t) mq = recordEntries sz es t mq"
| "metric_listener sz (MetricNotification c text) mq = (fst mq, snd (pushNotification2 sz c text (snd mq)))"

definition noRemainingConstantsToSend :: "Metrics \<Rightarrow> bool" where
  "noRemainingConstantsToSend m = (retryEntries m = [])"

definition sendDuration :: "QueueSizes \<Rightarrow> u64 \<Rightarrow> timespec \<Rightarrow> CircularQueue \<Rightarrow> CircularQueue" where
  "sendDuration sz durationInMs timestamp q =
     snd (pushMetricSamples sz
       [\<lparr>ms_id = DURATION_ID, ms_data = \<lparr>md_type = DataType_LONG, valueString = [], valueLong = durationInMs\<rparr>\<rparr>]
       (toMillis timestamp) q)"

section \<open>The loop of the metrics thread\<close>

text \<open>
  The retry loop of \<open>sendDurationMetricId\<close>; \<open>idle\<close> is what the other threads do to the queue during a
  \<open>sleep_ms(1)\<close>. It may never end, which is the value \<open>None\<close>.
\<close>

partial_function (option) push_until :: "QueueSizes \<Rightarrow> (CircularQueue \<Rightarrow> CircularQueue) \<Rightarrow> MetricInformation \<Rightarrow> CircularQueue
    \<Rightarrow> CircularQueue option" where
  "push_until sz idle info q =
     (case pushMetricInformation sz info q of (pushed, q) \<Rightarrow>
        if pushed then Some q else push_until sz idle info (idle q))"

definition insert_id :: "string \<Rightarrow> u32 \<Rightarrow> (string \<times> u32) list \<Rightarrow> (string \<times> u32) list" where
  "insert_id name i ids = (if map_of ids name = None then (name, i) # ids else ids)"

definition sendDurationMetricId :: "QueueSizes \<Rightarrow> (CircularQueue \<Rightarrow> CircularQueue) \<Rightarrow> Metrics \<times> CircularQueue
    \<Rightarrow> (Metrics \<times> CircularQueue) option" where
  "sendDurationMetricId sz idle mq =
     (let (m, q) = mq
      in if mustSendDurationMetric m then
           map_option (\<lambda>q. (m\<lparr>metricNameToId := insert_id DURATION_NAME DURATION_ID (metricNameToId m),
               mustSendDurationMetric := False\<rparr>, q)) (push_until sz idle DURATION_INFO q)
         else Some (m, q))"

text \<open>What one pass over the readers sees of the system.\<close>

record read_env =
  re_os :: os_sample
  re_ocaml :: ocaml_env
  re_events :: "ring_event list"
  re_count :: u32
  re_millis :: int

definition read_events :: "QueueSizes \<Rightarrow> build \<Rightarrow> read_env \<Rightarrow> EventRingReader \<Rightarrow> Metrics \<times> CircularQueue
    \<Rightarrow> bool \<times> Metrics \<times> CircularQueue" where
  "read_events sz b env er mq =
     (let (m, q) = mq;
          (calls, n, er, rt) = er_read b (re_ocaml env) (re_events env) (re_count env) (re_millis env) (er, runtime m);
          (m, q) = fold (metric_listener sz) calls (m\<lparr>eventRingReader := Some er, runtime := rt\<rparr>, q)
      in (0 < n, m, q))"

definition complete_constants :: "QueueSizes \<Rightarrow> Metrics \<times> CircularQueue \<Rightarrow> Metrics \<times> CircularQueue" where
  "complete_constants sz mq =
     (let (m, q) = mq
      in case (cpudataReader m, eventRingReader m) of
           (Some cpu, Some er) \<Rightarrow>
             if needsToSendConstantMetrics m \<and> cpu_hasEmittedConstantMetrics cpu \<and> er_hasEmittedConstantMetrics er \<and>
                noRemainingConstantsToSend m
             then (let (pushed, q) = pushConstantMetricsComplete sz q in (m\<lparr>needsToSendConstantMetrics := \<not> pushed\<rparr>, q))
             else (m, q)
         | _ \<Rightarrow> (m, q))"

text \<open>The critical section that reads everything.\<close>

definition read_all :: "QueueSizes \<Rightarrow> build \<Rightarrow> read_env \<Rightarrow> Metrics \<times> CircularQueue \<Rightarrow> bool \<times> Metrics \<times> CircularQueue" where
  "read_all sz b env mq =
     (let (m, q) = mq
      in if mt_enabled m then
           case (cpudataReader m, eventRingReader m) of
             (Some cpu, Some er) \<Rightarrow>
               (let (calls, cpu) = cpu_read (re_os env) (re_millis env) cpu;
                    mq = fold (metric_listener sz) calls (m\<lparr>cpudataReader := Some cpu, cpuErrors := cpu_errors cpu\<rparr>, q);
                    (remaining, mq) = read_events sz b env er mq
                in (remaining, complete_constants sz mq))
           | _ \<Rightarrow> (False, m, q)
         else (False, m, q))"

text \<open>
  The loop that drains the event ring in what is left of the window: one \<open>(read_env, start, end)\<close> per pass. The
  result is the window left; \<open>None\<close> when it is still draining after the last pass given.
\<close>

definition workInMs :: "timespec \<Rightarrow> timespec \<Rightarrow> u64" where
  "workInMs start finish = word_of_int (deltaInNs start finish sdiv 1000000)"

fun eliminate_events :: "QueueSizes \<Rightarrow> build \<Rightarrow> (read_env \<times> timespec \<times> timespec) list \<Rightarrow> bool \<Rightarrow> u64
    \<Rightarrow> Metrics \<times> CircularQueue \<Rightarrow> (u64 \<times> Metrics \<times> CircularQueue) option" where
  "eliminate_events sz b passes False window mq = Some (window, mq)"
| "eliminate_events sz b [] True window mq = None"
| "eliminate_events sz b ((env, start, finish) # passes) True window (m, q) =
     (if mt_enabled m then
        case eventRingReader m of
          Some er \<Rightarrow>
            (let (remaining, mq) = read_events sz b env er (m, q); work = workInMs start finish
             in eliminate_events sz b passes remaining (if window \<le> work then 0 else window - work) mq)
        | None \<Rightarrow> None
      else Some (window, m, q))"

record cycle_env =
  ce_start :: timespec
  ce_end :: timespec
  ce_read :: read_env
  ce_passes :: "(read_env \<times> timespec \<times> timespec) list"
  ce_last :: timespec
  ce_threads :: "string list option"

text \<open>
  One turn of \<open>run\<close>. The result is how long it sleeps, \<open>None\<close> inside when it starts over at once. \<open>ce_last\<close> is the time
  the last drained pass ended, \<open>ce_end\<close> itself when there was none.
\<close>

definition metrics_cycle :: "QueueSizes \<Rightarrow> build \<Rightarrow> kernel \<Rightarrow> (CircularQueue \<Rightarrow> CircularQueue) \<Rightarrow> cycle_env
    \<Rightarrow> scanner \<times> Metrics \<times> CircularQueue \<Rightarrow> (u64 option \<times> scanner \<times> Metrics \<times> CircularQueue) option" where
  "metrics_cycle sz b k idle env smq =
     (let (sc, mq) = smq
      in Option.bind (sendDurationMetricId sz idle mq) (\<lambda>mq.
         let sc = scan_threads k (ce_threads env) sc;
             (hasRemainingEvents, m, q) = read_all sz b (ce_read env) mq;
             work = workInMs (ce_start env) (ce_end env); rate = sampleRateMillis m
         in if work < rate then
              map_option (\<lambda>(window, m, q).
                (if 0 < window then Some window else None, sc, m, sendDuration sz (rate - window) (ce_last env) q))
                (eliminate_events sz b (ce_passes env) hasRemainingEvents (rate - work) (m, q))
            else Some (None, sc, m, q)))"

section \<open>What is pushed\<close>

text \<open>The events an operation has added behind those the queue held.\<close>

definition appended :: "QueueSizes \<Rightarrow> CircularQueue \<Rightarrow> CircularQueue \<Rightarrow> QueueEvent list" where
  "appended sz q q' = drop (length (main_events sz q)) (main_events sz q')"

definition adds :: "QueueSizes \<Rightarrow> nat \<Rightarrow> CircularQueue \<Rightarrow> QueueEvent list \<Rightarrow> CircularQueue \<Rightarrow> bool" where
  "adds sz mf q es q' \<longleftrightarrow> cq_inv sz mf q' \<and> main_events sz q' = main_events sz q @ es"

lemma adds_appended: "adds sz mf q es q' \<Longrightarrow> appended sz q q' = es"
  by (simp add: adds_def appended_def)

lemma adds_trans: "adds sz mf q es q' \<Longrightarrow> adds sz mf q' fs q'' \<Longrightarrow> adds sz mf q (es @ fs) q''"
  by (simp add: adds_def)

lemma adds_refl [simp]: "adds sz mf q [] q \<longleftrightarrow> cq_inv sz mf q"
  by (simp add: adds_def)

lemma adds_inv: "adds sz mf q es q' \<Longrightarrow> cq_inv sz mf q'"
  by (simp add: adds_def)

definition main_room :: "QueueSizes \<Rightarrow> CircularQueue \<Rightarrow> nat" where
  "main_room sz q = mainSize sz - length (main_events sz q)"

lemma push_main_adds:
  assumes "cq_inv sz mf q" "is_main_event e" "push_main sz e q = (b, q')"
  shows "b \<longleftrightarrow> 0 < main_room sz q" "adds sz mf q (if b then [e] else []) q'"
    "main_room sz q' = main_room sz q - of_bool b"
proof -
  note I = cq_invD(1) [OF assms(1)]
  show b: "b \<longleftrightarrow> 0 < main_room sz q"
    using mainq.enq_result [OF I assms(2)] assms(3) by (simp add: main_room_def)
  have "main_events sz q' = main_events sz q @ (if b then [e] else [])"
    using mainq.enq_room [OF I assms(2)] mainq.enq_full [OF I assms(2)] mainq.abs_bound [OF I] assms(3) b
    by (cases "length (main_events sz q) = mainSize sz") (auto simp: main_room_def)
  then show "adds sz mf q (if b then [e] else []) q'" "main_room sz q' = main_room sz q - of_bool b"
    using push_main_keeps(1) [OF assms(1,2)] assms(3) by (auto simp: adds_def main_room_def)
qed

lemmas push_info_adds = push_main_adds [of _ _ _ "RecordMetricInformation _", simplified]
lemmas push_samples_adds = push_main_adds [of _ _ _ "RecordMetricSamples _ _", simplified]
lemmas push_note_adds = push_main_adds [of _ _ _ "RecordNotification _ _ _", simplified]

text \<open>The names and ids a list of events announces; every sample is announced before it is used.\<close>

fun infos :: "QueueEvent list \<Rightarrow> (string \<times> u32) list" where
  "infos [] = []"
| "infos (RecordMetricInformation i # es) = (mi_name i, mi_id i) # infos es"
| "infos (e # es) = infos es"

fun samples_named :: "u32 set \<Rightarrow> QueueEvent list \<Rightarrow> bool" where
  "samples_named known [] = True"
| "samples_named known (RecordMetricInformation i # es) = samples_named (insert (mi_id i) known) es"
| "samples_named known (RecordMetricSamples t xs # es) = ((\<forall>x \<in> set xs. ms_id x \<in> known) \<and> samples_named known es)"
| "samples_named known (e # es) = samples_named known es"

lemma infos_append [simp]: "infos (es @ fs) = infos es @ infos fs"
  by (induction es rule: infos.induct) auto

lemma samples_named_append [simp]:
  "samples_named known (es @ fs) \<longleftrightarrow> samples_named known es \<and> samples_named (known \<union> snd ` set (infos es)) fs"
  by (induction known es rule: samples_named.induct) (auto simp: insert_commute)

text \<open>Ids are handed out in sequence, one per name.\<close>

definition ids_ok :: "(string \<times> u32) list \<Rightarrow> bool" where
  "ids_ok ids \<longleftrightarrow> distinct (map fst ids) \<and> map snd ids = map word_of_nat (rev [1..<Suc (length ids)])"

lemma ids_ok_Cons: "ids_ok ((n, i) # ids) \<longleftrightarrow> ids_ok ids \<and> n \<notin> fst ` set ids \<and> i = word_of_nat (Suc (length ids))"
  by (auto simp: ids_ok_def)

lemma ids_ok_distinct:
  assumes "ids_ok ids" "length ids < 2 ^ 32"
  shows "distinct (map snd ids)" "0 \<notin> snd ` set ids"
proof -
  have inj: "word_of_nat k \<noteq> (word_of_nat l :: u32)" if "k \<le> length ids" "l \<le> length ids" "k \<noteq> l" for k l
    using that assms(2) by (simp add: word_of_nat_eq_iff take_bit_nat_eq_self)
  have s: "snd ` set ids = word_of_nat ` {1..length ids}"
    using assms(1) by (metis ids_ok_def atLeastLessThanSuc_atLeastAtMost list.set_map set_rev set_upt)
  have "inj_on (word_of_nat :: nat \<Rightarrow> u32) {1..length ids}" by (rule inj_onI) (metis inj atLeastAtMost_iff)
  then have "distinct (map word_of_nat (rev [1..<Suc (length ids)]) :: u32 list)"
    unfolding distinct_map by (simp add: atLeastLessThanSuc_atLeastAtMost del: upt_Suc)
  then show "distinct (map snd ids)" using assms(1) by (simp only: ids_ok_def)
  show "0 \<notin> snd ` set ids"
  proof
    assume "0 \<in> snd ` set ids"
    then obtain k where k: "1 \<le> k" "k \<le> length ids" "word_of_nat k = (0 :: u32)" unfolding s by force
    with inj [of 0 k] show False by simp
  qed
qed

text \<open>\<open>names ids new ids'\<close>: the events \<open>new\<close> announce exactly what \<open>ids'\<close> has more than \<open>ids\<close>.\<close>

definition names :: "(string \<times> u32) list \<Rightarrow> QueueEvent list \<Rightarrow> (string \<times> u32) list \<Rightarrow> bool" where
  "names ids new ids' \<longleftrightarrow> ids' = rev (infos new) @ ids \<and> ids_ok ids' \<and> samples_named (snd ` set ids) new"

lemma names_trans: "names ids es ids' \<Longrightarrow> names ids' fs ids'' \<Longrightarrow> names ids (es @ fs) ids''"
  by (auto simp: names_def image_Un Un_commute)

lemma names_refl: "names ids [] ids \<longleftrightarrow> ids_ok ids"
  by (simp add: names_def)

lemma names_ok: "names ids new ids' \<Longrightarrow> ids_ok ids'"
  unfolding names_def by blast

lemma names_length: "names ids es ids' \<Longrightarrow> length ids \<le> length ids'"
  by (auto simp: names_def)

lemma findOrCreateMetricId_names:
  assumes inv: "cq_inv sz mf q" and ids: "ids_ok ids"
    and r: "findOrCreateMetricId sz entry (ids, q) = (i, ids', q')" and len: "length ids' < 2 ^ 32 - 1"
  shows "\<exists>new. adds sz mf q new q' \<and> names ids new ids' \<and> (i \<noteq> 0 \<longrightarrow> (me_name entry, i) \<in> set ids') \<and>
    (i = 0 \<longrightarrow> main_room sz q = 0)"
proof (cases "map_of ids (me_name entry)")
  case (Some j)
  then have "j \<noteq> 0" using ids_ok_distinct(2) [OF ids] map_of_SomeD [OF Some] r len
    by (auto simp: findOrCreateMetricId_def intro: rev_image_eqI)
  with Some r inv ids show ?thesis
    by (intro exI [of _ "[]"]) (auto simp: findOrCreateMetricId_def names_refl dest: map_of_SomeD)
next
  case None
  let ?i = "word_of_nat (length ids) + 1 :: u32"
  let ?info = "\<lparr>mi_name = me_name entry, mi_id = ?i, mi_variability = me_variability entry,
                    mi_dataType = md_type (me_data entry), mi_unit = me_unit entry\<rparr>"
  obtain b q1 where p: "pushMetricInformation sz ?info q = (b, q1)" by fastforce
  note P = push_info_adds [OF inv p]
  show ?thesis
  proof (cases b)
    case True
    then have e: "i = ?i" "ids' = (me_name entry, ?i) # ids" "q' = q1" using r None p by (auto simp: findOrCreateMetricId_def Let_def)
    have "?i = word_of_nat (Suc (length ids))" by simp
    then have "ids_ok ids'" using ids None by (simp add: e ids_ok_Cons map_of_eq_None_iff)
    moreover from this have "?i \<noteq> 0" using ids_ok_distinct(2) [of ids'] len e(2) by auto
    ultimately show ?thesis using P True by (intro exI [of _ "[RecordMetricInformation ?info]"]) (auto simp: e names_def ids_ok_distinct)
  next
    case False
    with r None p P inv ids show ?thesis
      by (intro exI [of _ "[]"]) (auto simp: findOrCreateMetricId_def Let_def names_refl)
  qed
qed


lemma attemptRecordEntries_length:
  "attemptRecordEntries sz es (samples, failed, ids, q) = (samples', failed', ids', q') \<Longrightarrow> length ids \<le> length ids'"
proof (induction es arbitrary: samples failed ids q)
  case (Cons e es)
  obtain i ids1 q1 where f: "findOrCreateMetricId sz e (ids, q) = (i, ids1, q1)" by (metis prod_cases3)
  then have "length ids \<le> length ids1"
    by (auto simp: findOrCreateMetricId_def Let_def split: option.splits prod.splits if_splits)
  moreover have "length ids1 \<le> length ids'" using Cons f by (auto split: if_splits)
  ultimately show ?case by simp
qed simp

text \<open>The samples taken so far stay announced, and every constant entry is sampled or kept for the next attempt.\<close>

lemma attemptRecordEntries_names:
  assumes "attemptRecordEntries sz es (samples, failed, ids, q) = (samples', failed', ids', q')"
    and "cq_inv sz mf q" "ids_ok ids" "length ids' < 2 ^ 32 - 1" "\<forall>x \<in> set samples. ms_id x \<in> snd ` set ids"
  shows "(\<exists>new. adds sz mf q new q' \<and> names ids new ids') \<and> (\<forall>x \<in> set samples'. ms_id x \<in> snd ` set ids') \<and>
    (\<exists>taken kept. samples' = samples @ taken \<and> failed' = failed @ kept \<and>
      (\<forall>e \<in> set es. me_variability e = Variability_CONSTANT \<longrightarrow> e \<in> set kept \<or>
        (\<exists>x \<in> set taken. (me_name e, ms_id x) \<in> set ids' \<and> ms_data x = me_data e)))"
  using assms
proof (induction es arbitrary: samples failed ids q)
  case Nil
  then show ?case by (auto simp: names_refl intro!: exI [of _ "[]"])
next
  case (Cons e es)
  obtain i ids1 q1 where f: "findOrCreateMetricId sz e (ids, q) = (i, ids1, q1)" by (metis prod_cases3)
  have "length ids1 \<le> length ids'" using Cons.prems(1) f by (auto split: if_splits dest: attemptRecordEntries_length)
  then have len: "length ids1 < 2 ^ 32 - 1" using Cons.prems(4) by simp
  from findOrCreateMetricId_names [OF Cons.prems(2,3) f len] obtain new where
    new: "adds sz mf q new q1" "names ids new ids1" "i \<noteq> 0 \<longrightarrow> (me_name e, i) \<in> set ids1" by blast
  have keep: "\<forall>x \<in> set samples. ms_id x \<in> snd ` set ids1" using Cons.prems(5) new(2) by (auto simp: names_def)
  note inv1 = adds_inv [OF new(1)] and ids1 = new(2) [unfolded names_def, THEN conjunct2, THEN conjunct1]
  show ?case
  proof (cases "i = 0")
    case True
    let ?failed = "if me_variability e = Variability_CONSTANT then failed @ [e] else failed"
    have r: "attemptRecordEntries sz es (samples, ?failed, ids1, q1) = (samples', failed', ids', q')"
      using Cons.prems(1) f True by simp
    from Cons.IH [OF r inv1 ids1 Cons.prems(4) keep] new(1,2) adds_trans names_trans True show ?thesis
      by (auto split: if_splits) blast+
  next
    case False
    let ?x = "\<lparr>ms_id = i, ms_data = me_data e\<rparr>"
    have r: "attemptRecordEntries sz es (samples @ [?x], failed, ids1, q1) = (samples', failed', ids', q')"
      using Cons.prems(1) f False by simp
    have k: "\<forall>x \<in> set (samples @ [?x]). ms_id x \<in> snd ` set ids1" using keep new(3) False by (auto intro: rev_image_eqI)
    from Cons.IH [OF r inv1 ids1 Cons.prems(4) k] obtain new2 taken kept where
      n: "adds sz mf q1 new2 q'" "names ids1 new2 ids'" "\<forall>x \<in> set samples'. ms_id x \<in> snd ` set ids'"
        "samples' = (samples @ [?x]) @ taken" "failed' = failed @ kept"
        "\<forall>e \<in> set es. me_variability e = Variability_CONSTANT \<longrightarrow> e \<in> set kept \<or>
          (\<exists>x \<in> set taken. (me_name e, ms_id x) \<in> set ids' \<and> ms_data x = me_data e)" by blast
    have "(me_name e, i) \<in> set ids'" using new(3) False n(2) by (auto simp: names_def)
    with n(6) have "\<forall>e' \<in> set (e # es). me_variability e' = Variability_CONSTANT \<longrightarrow> e' \<in> set kept \<or>
          (\<exists>x \<in> set (?x # taken). (me_name e', ms_id x) \<in> set ids' \<and> ms_data x = me_data e')" by auto
    moreover have "samples' = samples @ (?x # taken)" using n(4) by simp
    ultimately show ?thesis using n(3,5) adds_trans [OF new(1) n(1)] names_trans [OF new(2) n(2)] by blast
  qed
qed












lemma read_all_parts:
  assumes r: "read_all sz b env (m, q) = (r, m', q')"
  obtains (idle) "m' = m" "q' = q"
  | (reads) cpu er calls cpu' m1 q1 m2 q2 where "cpudataReader m = Some cpu" "eventRingReader m = Some er"
      "cpu_read (re_os env) (re_millis env) cpu = (calls, cpu')"
      "fold (metric_listener sz) calls (m\<lparr>cpudataReader := Some cpu', cpuErrors := cpu_errors cpu'\<rparr>, q) = (m1, q1)"
      "read_events sz b env er (m1, q1) = (r, m2, q2)" "complete_constants sz (m2, q2) = (m', q')"
      "metricNameToId m' = metricNameToId m2"
proof (cases "mt_enabled m \<and> cpudataReader m \<noteq> None \<and> eventRingReader m \<noteq> None")
  case True
  then obtain cpu er where c: "cpudataReader m = Some cpu" "eventRingReader m = Some er" by blast
  obtain calls cpu' where 1: "cpu_read (re_os env) (re_millis env) cpu = (calls, cpu')" by fastforce
  let ?m = "m\<lparr>cpudataReader := Some cpu', cpuErrors := cpu_errors cpu'\<rparr>"
  obtain m1 q1 where 2: "fold (metric_listener sz) calls (?m, q) = (m1, q1)" by fastforce
  obtain m2 q2 where 3: "read_events sz b env er (m1, q1) = (r, m2, q2)" and 4: "complete_constants sz (m2, q2) = (m', q')"
    using r True c 1 2 by (auto simp: read_all_def split: prod.splits)
  have "metricNameToId m' = metricNameToId m2"
    using 4 by (auto simp: complete_constants_def Let_def split: option.splits if_splits prod.splits)
  with reads [OF c 1 2 3 4] show thesis .
next
  case False
  then have "q' = q" "m' = m" using r by (auto simp: read_all_def split: option.splits if_splits)
  then show thesis by (intro idle)
qed



section \<open>A period in which metrics are on\<close>

text \<open>
  The steps between switching metrics on and off: the metrics thread's reads and duration samples, changed prefixes,
  and what other threads do to the main queue. Each step returns the events the queue accepted.
\<close>

datatype metrics_op =
    StepRead read_env
  | StepDrain read_env
  | StepDuration u64 timespec
  | StepUpdate reader_env "string list"
  | StepNotify NotificationCategory string int
  | StepPop

definition pop_once :: "QueueSizes \<Rightarrow> CircularQueue \<Rightarrow> CircularQueue" where
  "pop_once sz q = (case pop sz recorder ([], q) of Inl _ \<Rightarrow> q | Inr (_, _, q) \<Rightarrow> q)"

fun metrics_op_step :: "QueueSizes \<Rightarrow> build \<Rightarrow> metrics_op \<Rightarrow> Metrics \<times> CircularQueue \<Rightarrow> QueueEvent list \<times> Metrics \<times> CircularQueue" where
  "metrics_op_step sz b (StepRead env) (m, q) = (let (_, m', q') = read_all sz b env (m, q) in (appended sz q q', m', q'))"
| "metrics_op_step sz b (StepDrain env) (m, q) =
     (case eventRingReader m of
        Some er \<Rightarrow> (let (_, m', q') = read_events sz b env er (m, q) in (appended sz q q', m', q'))
      | None \<Rightarrow> ([], m, q))"
| "metrics_op_step sz b (StepDuration ms t) (m, q) = (let q' = sendDuration sz ms t q in (appended sz q q', m, q'))"
| "metrics_op_step sz b (StepUpdate env ps) (m, q) = ([], (if mt_enabled m then metrics_enable b env ps m else m), q)"
| "metrics_op_step sz b (StepNotify c t v) (m, q) = (let q' = snd (pushNotification sz c t v q) in (appended sz q q', m, q'))"
| "metrics_op_step sz b StepPop (m, q) = ([], m, pop_once sz q)"

fun metrics_run :: "QueueSizes \<Rightarrow> build \<Rightarrow> metrics_op list \<Rightarrow> Metrics \<times> CircularQueue \<Rightarrow> QueueEvent list \<times> Metrics \<times> CircularQueue" where
  "metrics_run sz b [] mq = ([], mq)"
| "metrics_run sz b (op # ops) mq =
     (let (es, mq) = metrics_op_step sz b op mq; (fs, mq) = metrics_run sz b ops mq in (es @ fs, mq))"

lemma pop_once_inv: "cq_inv sz mf q \<Longrightarrow> cq_inv sz mf (pop_once sz q)"
  unfolding pop_once_def by (rule recorder.pop_keeps [of sz mf q "[]"]) auto





section \<open>The retry loop\<close>

abbreviation retry :: "QueueSizes \<Rightarrow> (CircularQueue \<Rightarrow> CircularQueue) \<Rightarrow> MetricInformation \<Rightarrow> CircularQueue \<Rightarrow> CircularQueue" where
  "retry sz idle info q \<equiv> idle (snd (pushMetricInformation sz info q))"

lemma retry_Suc:
  "pushMetricInformation sz info q = (p, q1) \<Longrightarrow> (retry sz idle info ^^ Suc n) q = (retry sz idle info ^^ n) (idle q1)"
  by (simp del: funpow.simps add: funpow_Suc_right)

lemma push_until_some:
  assumes "push_until sz idle info q = Some q'"
  shows "\<exists>n. fst (pushMetricInformation sz info ((retry sz idle info ^^ n) q)) \<and>
     q' = snd (pushMetricInformation sz info ((retry sz idle info ^^ n) q))"
proof (rule push_until.raw_induct [OF _ assms, where P = "\<lambda>sz idle info q q'.
    \<exists>n. fst (pushMetricInformation sz info ((retry sz idle info ^^ n) q)) \<and>
     q' = snd (pushMetricInformation sz info ((retry sz idle info ^^ n) q))"])
  fix loop sz idle info q q'
  assume IH: "\<And>sz idle info q q'. loop sz idle info q = Some q' \<Longrightarrow>
      \<exists>n. fst (pushMetricInformation sz info ((retry sz idle info ^^ n) q)) \<and>
       q' = snd (pushMetricInformation sz info ((retry sz idle info ^^ n) q))"
    and step: "(case pushMetricInformation sz info q of (pushed, q) \<Rightarrow>
        if pushed then Some q else loop sz idle info (idle q)) = Some q'"
  obtain p q1 where r: "pushMetricInformation sz info q = (p, q1)" by fastforce
  show "\<exists>n. fst (pushMetricInformation sz info ((retry sz idle info ^^ n) q)) \<and>
       q' = snd (pushMetricInformation sz info ((retry sz idle info ^^ n) q))"
  proof (cases p)
    case True
    with step r show ?thesis by (intro exI [of _ 0]) simp
  next
    case False
    with step r have "loop sz idle info (idle q1) = Some q'" by simp
    from IH [OF this] obtain n where
      "fst (pushMetricInformation sz info ((retry sz idle info ^^ n) (idle q1)))"
      "q' = snd (pushMetricInformation sz info ((retry sz idle info ^^ n) (idle q1)))" by blast
    then show ?thesis by (intro exI [of _ "Suc n"]) (simp only: retry_Suc [OF r])
  qed
qed

lemma push_until_returns:
  "fst (pushMetricInformation sz info ((retry sz idle info ^^ n) q)) \<Longrightarrow> \<exists>q'. push_until sz idle info q = Some q'"
proof (induction n arbitrary: q)
  case 0
  then show ?case by (subst push_until.simps) (auto split: prod.splits)
next
  case (Suc n)
  obtain p q1 where r: "pushMetricInformation sz info q = (p, q1)" by fastforce
  show ?case
  proof (cases p)
    case False
    have "fst (pushMetricInformation sz info ((retry sz idle info ^^ n) (idle q1)))"
      using Suc.prems by (simp only: retry_Suc [OF r])
    from Suc.IH [OF this] False r show ?thesis by (subst push_until.simps) simp
  qed (use r in \<open>subst push_until.simps, simp\<close>)
qed

lemma retry_inv:
  assumes "\<And>q. cq_inv sz mf q \<Longrightarrow> cq_inv sz mf (idle q)" "cq_inv sz mf q"
  shows "cq_inv sz mf ((retry sz idle info ^^ n) q)"
proof (induction n)
  case (Suc n)
  show ?case using assms(1) [OF adds_inv [OF push_info_adds(2) [OF Suc prod.collapse [symmetric]]]] by simp
qed (use assms in simp)

text \<open>C30: Announcing the duration metric returns exactly when, after some number of retries, the other threads have made
  room in the main queue; while they make none it keeps trying for ever, whatever else happens (also when the process is
  exiting and joins this thread).\<close>

theorem push_until_terminates_iff:
  assumes "cq_inv sz mf q" "\<And>q. cq_inv sz mf q \<Longrightarrow> cq_inv sz mf (idle q)"
  shows "(\<exists>q'. push_until sz idle info q = Some q') \<longleftrightarrow> (\<exists>n. 0 < main_room sz ((retry sz idle info ^^ n) q))"
proof -
  have "fst (pushMetricInformation sz info ((retry sz idle info ^^ n) q)) \<longleftrightarrow>
      0 < main_room sz ((retry sz idle info ^^ n) q)" for n
    using push_info_adds(1) [OF retry_inv [OF assms(2,1)] prod.collapse [symmetric]] .
  then show ?thesis using push_until_some push_until_returns by meson
qed


definition demo_metric_sizes :: QueueSizes where "demo_metric_sizes = \<lparr>mainSize = 3, allocSize = 1, stackSize = 1\<rparr>"

definition demo_queue :: CircularQueue where
  "demo_queue = (case newCircularQueue demo_metric_sizes 4 of Inr q \<Rightarrow> q | Inl _ \<Rightarrow> undefined)"

lemma demo_queue_inv: "cq_inv demo_metric_sizes 4 demo_queue"
  using newCircularQueue_inv [of demo_metric_sizes 4] by (simp add: demo_queue_def newCircularQueue_def)

lemma demo_queue_facts: "cq_inv demo_metric_sizes 4 demo_queue" "main_events demo_metric_sizes demo_queue = []"
  using newCircularQueue_inv [of demo_metric_sizes 4] by (simp_all add: demo_queue_def newCircularQueue_def)

lemma demo_room: "main_room demo_metric_sizes demo_queue = 3"
  by (simp add: main_room_def demo_queue_facts) (simp add: demo_metric_sizes_def)


lemma push_until_terminates_iff_witness:
  "\<exists>q'. push_until demo_metric_sizes (pop_once demo_metric_sizes) DURATION_INFO demo_queue = Some q'"
proof -
  have "0 < main_room demo_metric_sizes
      ((retry demo_metric_sizes (pop_once demo_metric_sizes) DURATION_INFO ^^ 0) demo_queue)"
    by (simp add: demo_room)
  then show ?thesis
    using push_until_terminates_iff [OF demo_queue_facts(1), of "pop_once demo_metric_sizes" DURATION_INFO] pop_once_inv by blast
qed

section \<open>Samples and their names\<close>




text \<open>While metrics are off the loop still sends a duration sample in every window it has time left in, and nothing
  else: a sample with the id 1, which no event has announced.\<close>

lemma disabled_metrics_send_durations:
  assumes inv: "cq_inv sz mf q" and room: "0 < main_room sz q" and off: "\<not> mt_enabled m" "\<not> mustSendDurationMetric m"
    and window: "workInMs (ce_start env) (ce_end env) < sampleRateMillis m"
    and cycle: "metrics_cycle sz b k idle env (sc, m, q) = Some (sleep, sc', m', q')"
  shows "\<exists>d. appended sz q q' = [RecordMetricSamples (toMillis (ce_last env))
      [\<lparr>ms_id = DURATION_ID, ms_data = \<lparr>md_type = DataType_LONG, valueString = [], valueLong = d\<rparr>\<rparr>]] \<and>
    \<not> samples_named {} (appended sz q q')"
proof -
  let ?x = "\<lambda>d. [\<lparr>ms_id = DURATION_ID, ms_data = \<lparr>md_type = DataType_LONG, valueString = [], valueLong = d\<rparr>\<rparr>]"
  obtain d where d: "q' = sendDuration sz d (ce_last env) q"
    using cycle off window by (auto simp: metrics_cycle_def sendDurationMetricId_def read_all_def Let_def split: if_splits)
  obtain p q1 where p: "pushMetricSamples sz (?x d) (toMillis (ce_last env)) q = (p, q1)" by fastforce
  note P = push_samples_adds [OF inv p]
  have "q' = q1" using d p by (simp add: sendDuration_def)
  then have "appended sz q q' = [RecordMetricSamples (toMillis (ce_last env)) (?x d)]"
    using adds_appended [OF P(2)] P(1) room by simp
  then show ?thesis by simp
qed


section \<open>Constant metrics\<close>

text \<open>C26: As long as the queue still has room afterwards, recording entries loses no constant metric: each one offered or
  kept from before is in the batch of samples pushed, under the id announced for its name, or kept for the next attempt.\<close>

theorem constants_sent_or_kept:
  assumes r: "recordEntries sz es t (m, q) = (m', q')" and inv: "cq_inv sz mf q" "ids_ok (metricNameToId m)"
    and len: "length (metricNameToId m') < 2 ^ 32 - 1" and room: "0 < main_room sz q'"
  shows "\<exists>pre samples. appended sz q q' = pre @ [RecordMetricSamples t samples] \<and>
    (\<forall>e \<in> set es \<union> set (retryEntries m). me_variability e = Variability_CONSTANT \<longrightarrow> e \<in> set (retryEntries m') \<or>
      (\<exists>x \<in> set samples. (me_name e, ms_id x) \<in> set (metricNameToId m') \<and> ms_data x = me_data e))"
proof -
  obtain s1 f1 i1 q1 where 1: "attemptRecordEntries sz es ([], [], metricNameToId m, q) = (s1, f1, i1, q1)" by (metis prod_cases4)
  obtain s2 f2 i2 q2 where 2: "attemptRecordEntries sz (retryEntries m) (s1, f1, i1, q1) = (s2, f2, i2, q2)" by (metis prod_cases4)
  obtain b where 3: "pushMetricSamples sz s2 t q2 = (b, q')" "m' = m\<lparr>metricNameToId := i2, retryEntries := f2\<rparr>"
    using r 1 2 by (auto simp: recordEntries_def split: prod.splits)
  have len2: "length i2 < 2 ^ 32 - 1" using len 3 by simp
  then have len1: "length i1 < 2 ^ 32 - 1" using attemptRecordEntries_length [OF 2] by simp
  from attemptRecordEntries_names [OF 1 inv len1] obtain n1 where
    n1: "adds sz mf q n1 q1" "names (metricNameToId m) n1 i1" "\<forall>x \<in> set s1. ms_id x \<in> snd ` set i1"
      "\<forall>e \<in> set es. me_variability e = Variability_CONSTANT \<longrightarrow> e \<in> set f1 \<or>
        (\<exists>x \<in> set s1. (me_name e, ms_id x) \<in> set i1 \<and> ms_data x = me_data e)" by auto
  from attemptRecordEntries_names [OF 2 adds_inv [OF n1(1)] names_ok [OF n1(2)] len2 n1(3)] obtain n2 taken kept where
    n2: "adds sz mf q1 n2 q2" "names i1 n2 i2" "s2 = s1 @ taken" "f2 = f1 @ kept"
      "\<forall>e \<in> set (retryEntries m). me_variability e = Variability_CONSTANT \<longrightarrow> e \<in> set kept \<or>
        (\<exists>x \<in> set taken. (me_name e, ms_id x) \<in> set i2 \<and> ms_data x = me_data e)" by blast
  note P = push_samples_adds [OF adds_inv [OF n2(1)] 3(1)]
  have b using P room by auto
  then have "adds sz mf q ((n1 @ n2) @ [RecordMetricSamples t s2]) q'"
    using adds_trans [OF adds_trans [OF n1(1) n2(1)] P(2)] by simp
  moreover have "set i1 \<subseteq> set i2" using n2(2) by (auto simp: names_def)
  ultimately show ?thesis using n1(4) n2(3-5) 3(2) adds_appended
    by (intro exI [of _ "n1 @ n2"] exI [of _ s2]) fastforce
qed

text \<open>When the queue takes a constant metric's announcement and is full for the sample, the metric is neither sent nor
  kept, and counts as sent: once a read has emitted the constants, their end is announced all the same.\<close>

lemma constant_lost_when_full:
  assumes inv: "cq_inv sz mf q" and room: "main_room sz q = 1" and const: "me_variability e = Variability_CONSTANT"
    and new: "metricNameToId m = []" "retryEntries m = []" and r: "recordEntries sz [e] t (m, q) = (m', q')"
  shows "infos (appended sz q q') = [(me_name e, 1)] \<and> length (appended sz q q') = 1 \<and>
    retryEntries m' = [] \<and> noRemainingConstantsToSend m' \<and> map_of (metricNameToId m') (me_name e) = Some 1"
proof -
  let ?info = "\<lparr>mi_name = me_name e, mi_id = 1, mi_variability = me_variability e, mi_dataType = md_type (me_data e),
    mi_unit = me_unit e\<rparr>"
  obtain p1 qa where a: "pushMetricInformation sz ?info q = (p1, qa)" by fastforce
  note A = push_info_adds [OF inv a]
  obtain p2 where b: "pushMetricSamples sz [\<lparr>ms_id = 1, ms_data = me_data e\<rparr>] t qa = (p2, q')"
    and m': "m' = m\<lparr>metricNameToId := [(me_name e, 1)], retryEntries := []\<rparr>"
    using r a A(1) room new by (auto simp: recordEntries_def findOrCreateMetricId_def Let_def split: prod.splits)
  note B = push_samples_adds [OF adds_inv [OF A(2)] b]
  have "p1" "\<not> p2" using A B room by simp_all
  with adds_appended [OF adds_trans [OF A(2) B(2)]] m' show ?thesis by (simp add: noRemainingConstantsToSend_def)
qed

text \<open>The listener changes only the ids and what is kept for later.\<close>

definition control :: "Metrics \<Rightarrow> bool \<times> EventRingReader option \<times> bool" where
  "control m = (mt_enabled m, eventRingReader m, needsToSendConstantMetrics m)"

lemma fold_listener_control: "control (fst (fold (metric_listener sz) cs (m, q))) = control m"
proof (induction cs arbitrary: m q)
  case (Cons c cs)
  have "control (fst (metric_listener sz c (m, q))) = control m"
    by (cases c) (simp_all add: recordEntries_def control_def case_prod_beta Let_def)
  with Cons show ?case by (metis fold_simps(2) prod.collapse)
qed simp

definition never_complete :: "Metrics \<Rightarrow> bool" where
  "never_complete m \<longleftrightarrow> mt_enabled m \<and> needsToSendConstantMetrics m \<and>
     (\<exists>er. eventRingReader m = Some er \<and> \<not> er_enabled er \<and> \<not> er_hasEmittedConstantMetrics er)"

lemma never_complete_control: "control m = control m' \<Longrightarrow> never_complete m = never_complete m'"
  by (simp add: never_complete_def control_def)

lemma read_events_never_complete:
  assumes "never_complete m" "eventRingReader m = Some er"
  shows "never_complete (fst (snd (read_events sz b env er (m, q))))"
  using assms never_complete_control [OF fold_listener_control [of sz "[]" m q]]
  by (simp add: read_events_def er_read_def never_complete_def)

lemma metrics_op_never_complete:
  assumes "never_complete m"
  shows "never_complete (fst (snd (metrics_op_step sz WithoutRuntimeEvents op (m, q))))"
proof (cases op)
  case (StepRead env)
  obtain r m' q' where r: "read_all sz WithoutRuntimeEvents env (m, q) = (r, m', q')" by (metis prod_cases3)
  from r have "never_complete m'"
  proof (cases rule: read_all_parts)
    case (reads cpu er calls cpu' m1 q1 m2 q2)
    have c: "control m1 = control m"
      using fold_listener_control [of sz calls "m\<lparr>cpudataReader := Some cpu', cpuErrors := cpu_errors cpu'\<rparr>" q] reads(4)
      by (simp add: control_def)
    have m1: "never_complete m1" "eventRingReader m1 = Some er"
      using assms never_complete_control [OF c] c reads(2) by (simp_all add: control_def)
    have m2: "never_complete m2" using read_events_never_complete [OF m1, of sz WithoutRuntimeEvents env q1] reads(5) by simp
    then have "m' = m2" using reads(6)
      by (auto simp: complete_constants_def never_complete_def Let_def split: option.splits)
    with m2 show ?thesis by simp
  qed (use assms in simp)
  with StepRead r show ?thesis by simp
next
  case (StepDrain env)
  with assms read_events_never_complete [OF assms] show ?thesis
    by (auto simp: case_prod_beta Let_def split: option.split)
next
  case (StepUpdate env ps)
  with assms show ?thesis
    by (auto simp: never_complete_def metrics_enable_def er_updateEntryPrefixes_def build_enable_def Let_def split: option.split)
qed (use assms in \<open>simp_all add: Let_def\<close>)

text \<open>C39: In the build without runtime events (OCaml before 5) the end of the constant metrics is never announced: from
  switching metrics on, whatever is read, it stays to be sent, because the event reader counts as not having emitted its
  constants for as long as it is not enabled, which it never is.\<close>

theorem constants_never_complete_without_events:
  assumes "\<not> mt_enabled m" and "metrics_enable WithoutRuntimeEvents env ps m = m1"
    and "metrics_run sz WithoutRuntimeEvents ops (m1, q) = (es, m2, q2)"
  shows "needsToSendConstantMetrics m2 \<and> (\<exists>er. eventRingReader m2 = Some er \<and> \<not> er_hasEmittedConstantMetrics er)"
proof -
  have "never_complete m1" using assms(1,2)
    by (auto simp: never_complete_def metrics_enable_def newEventRingReader_def er_updateEntryPrefixes_def build_enable_def Let_def)
  then have "never_complete m2" using assms(3)
  proof (induction ops arbitrary: m1 q es)
    case (Cons op ops)
    obtain e1 m3 q3 where s: "metrics_op_step sz WithoutRuntimeEvents op (m1, q) = (e1, m3, q3)" by (metis prod_cases3)
    then have "never_complete m3" using metrics_op_never_complete [OF Cons.prems(1), of sz op q] by simp
    with Cons.IH Cons.prems(2) s show ?case by (auto split: prod.splits)
  qed simp
  then show ?thesis by (auto simp: never_complete_def)
qed

section \<open>Examples\<close>

definition demo_reader_env :: reader_env where
  "demo_reader_env = \<lparr>env_meminfo = newSeekableFile True [], env_stat = newSeekableFile True [],
     env_ring = \<lparr>realtime = demo_time, monotonic = demo_time, create_cursor_ok = True\<rparr>\<rparr>"

definition demo_read_env :: read_env where
  "demo_read_env = \<lparr>re_os = demo_os, re_ocaml = \<lparr>OCAMLRUNPARAM = None, CAMLRUNPARAM = None, OCAML_VERSION_STRING = ''5.0.0''\<rparr>,
     re_events = [], re_count = 0, re_millis = 7\<rparr>"

definition demo_metrics :: Metrics where "demo_metrics = newMetrics runtime_events_init 0"

definition demo_constant :: MetricListenerEntry where
  "demo_constant = string_entry ''ocaml.version'' Unit_NONE ''5.0.0''"






lemma constants_sent_or_kept_witness:
  "demo_constant \<in> set [demo_constant] \<and>
   (\<exists>pre samples. appended demo_metric_sizes demo_queue (snd (recordEntries demo_metric_sizes [demo_constant] 7 (demo_metrics, demo_queue))) =
     pre @ [RecordMetricSamples 7 samples])"
proof -
  obtain m1 q1 where 1: "recordEntries demo_metric_sizes [demo_constant] 7 (demo_metrics, demo_queue) = (m1, q1)" by fastforce
  have "length (metricNameToId (fst (recordEntries demo_metric_sizes [demo_constant] 7 (demo_metrics, demo_queue)))) = 1"
    "main_room demo_metric_sizes (snd (recordEntries demo_metric_sizes [demo_constant] 7 (demo_metrics, demo_queue))) = 1" by code_simp+
  then have n: "length (metricNameToId m1) < 2 ^ 32 - 1" "0 < main_room demo_metric_sizes q1" using 1 by simp_all
  have "ids_ok (metricNameToId demo_metrics)" by (simp add: demo_metrics_def newMetrics_def ids_ok_def)
  from constants_sent_or_kept [OF 1 demo_queue_facts(1) this n] show ?thesis by (auto simp: 1)
qed

lemma constant_lost_when_full_witness:
  "\<exists>q m' q'. main_room demo_metric_sizes q = 1 \<and>
     recordEntries demo_metric_sizes [demo_constant] 7 (demo_metrics, q) = (m', q') \<and> noRemainingConstantsToSend m'"
proof -
  let ?note = "\<lambda>q. snd (pushNotification demo_metric_sizes USER_ERROR ''e'' 0 q)"
  let ?q = "?note (?note demo_queue)"
  note p = push_note_adds(2,3) [OF _ prod.collapse [symmetric], of demo_metric_sizes 4]
  have inv: "cq_inv demo_metric_sizes 4 ?q" using adds_inv [OF p(1) [OF adds_inv [OF p(1) [OF demo_queue_facts(1)]]]] by simp
  have room: "main_room demo_metric_sizes ?q = 1" by code_simp
  have m: "me_variability demo_constant = Variability_CONSTANT" "metricNameToId demo_metrics = []" "retryEntries demo_metrics = []"
    by (simp_all add: demo_constant_def string_entry_def demo_metrics_def newMetrics_def)
  obtain m' q' where r: "recordEntries demo_metric_sizes [demo_constant] 7 (demo_metrics, ?q) = (m', q')" by fastforce
  from constant_lost_when_full [OF inv room m r] room r show ?thesis by blast
qed

definition demo_cycle :: cycle_env where
  "demo_cycle = \<lparr>ce_start = demo_time, ce_end = demo_time, ce_read = demo_read_env, ce_passes = [], ce_last = demo_time,
     ce_threads = None\<rparr>"

lemma disabled_metrics_send_durations_witness:
  "\<exists>sleep sc m q. metrics_cycle demo_metric_sizes WithRuntimeEvents (\<lambda>_ _. None) (\<lambda>q. q) demo_cycle
      (scanner_init, demo_metrics, demo_queue) = Some (sleep, sc, m, q) \<and>
     \<not> samples_named {} (appended demo_metric_sizes demo_queue q)"
proof -
  have off: "\<not> mt_enabled demo_metrics" "\<not> mustSendDurationMetric demo_metrics"
    "workInMs (ce_start demo_cycle) (ce_end demo_cycle) < sampleRateMillis demo_metrics" by code_simp+
  then obtain sleep sc m q where c: "metrics_cycle demo_metric_sizes WithRuntimeEvents (\<lambda>_ _. None) (\<lambda>q. q) demo_cycle
      (scanner_init, demo_metrics, demo_queue) = Some (sleep, sc, m, q)"
    by (auto simp: metrics_cycle_def sendDurationMetricId_def read_all_def Let_def)
  have "0 < main_room demo_metric_sizes demo_queue" by (simp add: demo_room)
  from disabled_metrics_send_durations [OF demo_queue_facts(1) this off c] c show ?thesis by blast
qed

lemma constants_never_complete_without_events_witness:
  "\<exists>es m q. metrics_run demo_metric_sizes WithoutRuntimeEvents [StepRead demo_read_env, StepPop]
      (metrics_enable WithoutRuntimeEvents demo_reader_env [] demo_metrics, demo_queue) = (es, m, q) \<and> needsToSendConstantMetrics m"
proof -
  obtain es m q where r: "metrics_run demo_metric_sizes WithoutRuntimeEvents [StepRead demo_read_env, StepPop]
      (metrics_enable WithoutRuntimeEvents demo_reader_env [] demo_metrics, demo_queue) = (es, m, q)"
    by (metis prod_cases3)
  have "\<not> mt_enabled demo_metrics" by (simp add: demo_metrics_def newMetrics_def)
  from constants_never_complete_without_events [OF this refl r] r show ?thesis by blast
qed

end
