(* ===== verification/Messages.thy ===== *)
theory Messages
  imports Metric_Types
begin

text \<open>
  The messages of \<^verbatim>\<open>src/lib/data.proto\<close> the agent sends and receives, and the length-prefixed framing both directions use.
  How protobuf lays out a message's body is a parameter (\<open>codec\<close>); the varint prefix is the documented one.
\<close>

section \<open>Sent to the collector\<close>

datatype SampleTimeType = ELAPSED_TIME | PROCESS_TIME | ALLOCATION

record CompressedFrameEntry =
  fe_methodId :: u64
  fe_line :: u32

record StackSample =
  ss_type :: SampleTimeType
  sample_rate_millis :: u64
  ss_time_epoch_millis :: u64
  thread_id :: i32
  thread_name :: string
  has_max_frames :: bool
  error_code :: int
  compressedFrames :: "CompressedFrameEntry list"
  thread_state :: int

record AllocationRowMessage =
  row_symbol :: u64
  number_of_allocations :: u32
  total_bytes_allocated :: u64
  row_outside_tlab :: bool

record AgentStatistics =
  allocation_enqueue_failures :: u32
  cputime_enqueue_failures :: u32
  wallclock_enqueue_failures :: u32
  thread_id_denials :: u32
  cpu_metric_errors :: u32
  cpu_metric_warnings :: u32
  metric_enqueue_failures :: u32
  allocation_stack_trace_enqueue_failures :: u32

record Context =
  ctx_agent_id :: string
  host_name :: string
  platform_version :: string
  application_version :: string
  agent_version :: u32
  hardware_thread_count :: u32
  agent_git_string :: string
  build_type :: string
  timezone_name :: string
  timezone_offset_seconds :: int

record Hello =
  api_key :: string
  process_id :: int
  hello_context :: Context

datatype ProtoDataType = PROTO_UNKNOWN_TYPE | PROTO_STRING | PROTO_LONG
datatype ProtoVariability = PROTO_UNKNOWN_VARIABILITY | PROTO_CONSTANT | PROTO_VARIABLE | PROTO_COUNTER
datatype ProtoUnit =
    PROTO_UNKNOWN_UNIT | PROTO_NONE | PROTO_BYTES | PROTO_TICKS | PROTO_EVENTS | PROTO_UNIT_STRING | PROTO_HERTZ
  | PROTO_MILLISECONDS | PROTO_NANOSECONDS

datatype sample_value = LongValue i64 | StringValue string | NoValue

text \<open>The alternatives of the \<open>oneof\<close> in \<open>AgentEnvelope\<close> the agent uses.\<close>

datatype AgentEnvelope =
    HelloMessage Hello
  | StackSampleMessage StackSample
  | HeartbeatMessage u64
  | MethodInformation u64 u64 string
  | ModuleInformation u64 string string
  | AllocationTable u64 "AllocationRowMessage list"
  | AgentStatisticsMessage AgentStatistics
  | NotificationMessage string NotificationCategory
  | MetricInformationMessage u32 string ProtoDataType ProtoVariability ProtoUnit
  | MetricSamplesMessage u64 "(u32 \<times> sample_value) list"
  | ConstantMetricsCompleteMessage

section \<open>Received from the collector\<close>

record SampleRate =
  process_time_stack_sample_rate_millis :: u64
  elapsed_time_stack_sample_rate_millis :: u64
  switch_process_time_profiling_on :: bool
  switch_elapsed_time_profiling_on :: bool
  thread_state_on :: bool
  switch_memory_profiling_on :: bool
  memory_profiling_push_rate_millis :: u64
  switch_memory_profiling_stacktrace_on :: bool
  memory_profiling_stack_sample_rate_samples :: u32
  switch_metrics_on :: bool
  metrics_sample_rate_millis :: u64
  metrics_prefixes :: "string list"

datatype CollectorEnvelope = Terminate | SampleRateMessage SampleRate | CollectorHeartbeat u64 | UnknownMessage

section \<open>Framing\<close>

record codec =
  serialize :: "AgentEnvelope \<Rightarrow> u8 list"
  parse :: "u8 list \<Rightarrow> CollectorEnvelope option"

definition MAX_HEADER_SIZE :: nat where "MAX_HEADER_SIZE = 5"

fun varint :: "nat \<Rightarrow> u8 list" where
  "varint n = (if n < 128 then [word_of_nat n] else word_of_nat (128 + n mod 128) # varint (n div 128))"

declare varint.simps [simp del]

definition delimited :: "u8 list \<Rightarrow> u8 list" where
  "delimited body = varint (length body) @ body"

text \<open>
  \<open>CodedInputStream::ReadVarint32\<close> over the bytes of a buffer: the value, cut to 32 bits, and the position behind it;
  \<open>None\<close> when the bytes end inside it.
\<close>

fun read_varint :: "u8 list \<Rightarrow> (nat \<times> nat) option" where
  "read_varint [] = None"
| "read_varint (b # bs) =
     (if b < 128 then Some (unat b, 1)
      else map_option (\<lambda>(v, n). (unat b - 128 + 128 * v, Suc n)) (read_varint bs))"

definition ReadVarint32 :: "u8 list \<Rightarrow> (u32 \<times> nat) option" where
  "ReadVarint32 bs = map_option (\<lambda>(v, n). (word_of_nat v, n)) (read_varint bs)"

lemma read_varint_varint: "read_varint (varint n @ bs) = Some (n, length (varint n))"
proof (induction n rule: varint.induct)
  case (1 n)
  show ?case
  proof (cases "n < 128")
    case True
    then show ?thesis by (simp add: varint.simps [of n] word_less_nat_alt unat_of_nat)
  next
    case False
    have small: "unat (word_of_nat m :: u8) = m" if "m < 256" for m using that by (simp add: unat_of_nat)
    have u: "unat (word_of_nat (128 + n mod 128) :: u8) = 128 + n mod 128" by (rule small) simp
    then have "\<not> (word_of_nat (128 + n mod 128) :: u8) < 128" by (simp only: word_less_nat_alt unat_numeral) simp
    with 1 False u show ?thesis by (simp add: varint.simps [of n])
  qed
qed

lemma varint_length: "n < 2 ^ (7 * k) \<Longrightarrow> 0 < k \<Longrightarrow> length (varint n) \<le> k"
proof (induction k arbitrary: n)
  case (Suc k)
  show ?case
  proof (cases "n < 128")
    case False
    then have "0 < k" using Suc.prems(1) by (cases k) auto
    moreover have "n div 128 < 2 ^ (7 * k)" using Suc.prems(1) by (simp add: less_mult_imp_div_less power_add)
    ultimately show ?thesis using Suc.IH [of "n div 128"] False by (simp add: varint.simps [of n])
  qed (simp add: varint.simps [of n])
qed simp

lemma varint_not_empty [simp]: "varint n \<noteq> []" "0 < length (varint n)"
  by (simp_all add: varint.simps [of n])

end
