(* ===== verification/Network.thy ===== *)
theory Network
  imports Messages
begin

text \<open>
  \<^verbatim>\<open>src/lib/network.cpp\<close>: the TLS connection and the blocking run loops around boost's asynchronous operations. What the
  io service will run is a list of \<open>io_event\<close>s, in order. The handlers of the timers and of the outstanding read are
  the controller's and the protocol handler's; they are the argument \<open>h\<close> here.
\<close>

section \<open>State and events\<close>

datatype errc =
    NO_ERROR | WOULD_BLOCK | OPERATION_ABORTED | END_OF_FILE | CONNECTION_RESET | BROKEN_PIPE | IO_ERROR | NETWORK_DOWN
  | NETWORK_RESET | NETWORK_UNREACHABLE | OTHER_ERROR int

datatype timer = SendTimer | ReceiveTimer | AllocationTimer | AgentStatisticsTimer

text \<open>
  The operation a run loop waits for completes; its timer expires; the synchronous TLS handshake returns; a timer of
  the controller expires; the outstanding read completes.
\<close>

datatype io_event =
    Done errc
  | Timeout
  | Handshake errc
  | Expired timer
  | ReadDone "errc + u8 list"

datatype read_op = HeaderRead | BodyRead nat

text \<open>
  \<open>sock\<close> says whether the pointer is set, \<open>wire\<close> what has been written in full to the present connection. The
  io service's outstanding work is the read (\<open>reading\<close>) and the timers (\<open>armed\<close>); \<open>io\<close> is what it will run.
\<close>

record network =
  isConnected :: bool
  isSending :: bool
  sock :: bool
  nw_prometheusEnabled :: bool
  reading :: "read_op option"
  armed :: "timer set"
  wire :: "AgentEnvelope list"
  io :: "io_event list"
  net_codec :: codec

text \<open>
  What stops the agent: a run loop that waits for ever, a read beyond the protocol handler's buffer, an overflow of a
  signed multiplication, the error callback of a symbol lookup.
\<close>

datatype agent_fault = Blocked | ReadOverflow | IntOverflow | CallbackFault

definition bind_result :: "'e + 'a \<Rightarrow> ('a \<Rightarrow> 'e + 'b) \<Rightarrow> 'e + 'b" where
  "bind_result r f = (case r of Inl e \<Rightarrow> Inl e | Inr x \<Rightarrow> f x)"

lemma bind_result_simps [simp]: "bind_result (Inl e) f = Inl e" "bind_result (Inr x) f = f x"
  by (simp_all add: bind_result_def)

lemma map_sum_Inr [simp]: "map_sum f id r = Inr x \<longleftrightarrow> r = Inr x"
  by (cases r) simp_all

lemma bind_result_Inr: "bind_result r f = Inr y \<longleftrightarrow> (\<exists>x. r = Inr x \<and> f x = Inr y)"
  by (cases r) auto

lemma bind_result_Inl: "bind_result r f = Inl e \<longleftrightarrow> r = Inl e \<or> (\<exists>x. r = Inr x \<and> f x = Inl e)"
  by (cases r) auto

definition Network_init :: "bool \<Rightarrow> codec \<Rightarrow> network" where
  "Network_init prometheusEnabled c = \<lparr>isConnected = False, isSending = False, sock = False,
     nw_prometheusEnabled = prometheusEnabled, reading = None, armed = {}, wire = [], io = [], net_codec = c\<rparr>"

section \<open>Closing\<close>

text \<open>
  Cancelling the outstanding read runs its handler with \<open>operation_aborted\<close>, which does nothing once the connection
  is marked closed.
\<close>

definition closeSocket :: "'a network_scheme \<Rightarrow> 'a network_scheme" where
  "closeSocket n = (if sock n then n\<lparr>isConnected := False, reading := None\<rparr> else n)"

definition network_close :: "'a network_scheme \<Rightarrow> 'a network_scheme" where
  "network_close n = (closeSocket n)\<lparr>sock := False\<rparr>"

text \<open>
  \<open>setupTimeout\<close> binds the error code by value, so all \<open>onTimerRun\<close> does to the operation is to close its socket.
\<close>

definition onTimerRun :: "bool \<Rightarrow> 'a network_scheme \<Rightarrow> 'a network_scheme" where
  "onTimerRun doClose n = (if doClose then closeSocket n else n)"

section \<open>Waiting\<close>

text \<open>
  \<open>awaitCompletionOrTimeout\<close> over the events to come. A timeout leaves the code's error code alone: it ends the wait only
  by closing the socket, which completes the operation with \<open>operation_aborted\<close>. So does a handler that deletes the
  socket of a \<open>cancellable\<close> operation. The second component says whether the timer fired.
\<close>

fun awaitCompletion ::
  "(io_event \<Rightarrow> 'a network_scheme \<Rightarrow> agent_fault + 'a network_scheme) \<Rightarrow> bool \<Rightarrow> bool \<Rightarrow> bool \<Rightarrow> io_event list \<Rightarrow> 'a network_scheme
    \<Rightarrow> agent_fault + errc \<times> bool \<times> io_event list \<times> 'a network_scheme" where
  "awaitCompletion h doClose cancellable fired [] n = Inl Blocked"
| "awaitCompletion h doClose cancellable fired (Done ec # es) n = Inr (ec, fired, es, n)"
| "awaitCompletion h doClose cancellable fired (Timeout # es) n =
     (let n = onTimerRun doClose n
      in if doClose then Inr (OPERATION_ABORTED, True, es, n) else awaitCompletion h doClose cancellable True es n)"
| "awaitCompletion h doClose cancellable fired (e # es) n =
     bind_result (h e n) (\<lambda>n.
       if cancellable \<and> \<not> sock n then Inr (OPERATION_ABORTED, fired, es, n)
       else awaitCompletion h doClose cancellable fired es n)"

text \<open>The handlers run inside the loop; the events it has not consumed stay for the caller.\<close>

definition await ::
  "(io_event \<Rightarrow> 'a network_scheme \<Rightarrow> agent_fault + 'a network_scheme) \<Rightarrow> bool \<Rightarrow> bool \<Rightarrow> 'a network_scheme
    \<Rightarrow> agent_fault + errc \<times> bool \<times> 'a network_scheme" where
  "await h doClose cancellable n =
     bind_result (awaitCompletion h doClose cancellable False (io n) (n\<lparr>io := []\<rparr>))
       (\<lambda>(ec, fired, es, n). Inr (ec, fired, n\<lparr>io := es\<rparr>))"

text \<open>One handler of the io service: it waits for one as long as work is outstanding.\<close>

definition run_one ::
  "(io_event \<Rightarrow> 'a network_scheme \<Rightarrow> agent_fault + 'a network_scheme) \<Rightarrow> 'a network_scheme \<Rightarrow> agent_fault + 'a network_scheme" where
  "run_one h n =
     (if armed n = {} \<and> reading n = None then Inr n
      else case io n of [] \<Rightarrow> Inl Blocked | e # es \<Rightarrow> h e (n\<lparr>io := es\<rparr>))"

section \<open>Connecting\<close>

fun take_handshake :: "io_event list \<Rightarrow> (errc \<times> io_event list) option" where
  "take_handshake (Handshake ec # es) = Some (ec, es)"
| "take_handshake es = None"

text \<open>
  After a failed resolution \<open>run_one\<close> runs the cancelled timer's handler, which does nothing, unless the timer had
  already run.
\<close>

definition connect ::
  "(io_event \<Rightarrow> 'a network_scheme \<Rightarrow> agent_fault + 'a network_scheme) \<Rightarrow> 'a network_scheme \<Rightarrow> agent_fault + bool \<times> 'a network_scheme" where
  "connect h n =
     (if nw_prometheusEnabled n then Inr (True, n)
      else
        bind_result (await h False False n) (\<lambda>(resolveErrorCode, fired, n).
          if resolveErrorCode \<noteq> NO_ERROR then
            bind_result (if fired then run_one h n else Inr n) (\<lambda>n. Inr (False, network_close n))
          else
            bind_result (await h True True (n\<lparr>sock := True\<rparr>)) (\<lambda>(connectErrorCode, _, n).
              if connectErrorCode \<noteq> NO_ERROR then Inr (False, network_close n)
              else
                case take_handshake (io n) of
                  None \<Rightarrow> Inl Blocked
                | Some (sslErrorCode, es) \<Rightarrow>
                    if sslErrorCode \<noteq> NO_ERROR then Inr (False, network_close (n\<lparr>io := es\<rparr>))
                    else Inr (True, n\<lparr>io := es, isConnected := True, wire := []\<rparr>))))"

section \<open>Sending\<close>

definition is_disconnect :: "errc \<Rightarrow> bool" where
  "is_disconnect ec = (ec \<in> {CONNECTION_RESET, BROKEN_PIPE, IO_ERROR, NETWORK_DOWN, NETWORK_RESET, NETWORK_UNREACHABLE})"

text \<open>\<open>onDisconnect\<close> is the controller's.\<close>

definition sendWithSize ::
  "(io_event \<Rightarrow> 'a network_scheme \<Rightarrow> agent_fault + 'a network_scheme) \<Rightarrow> ('a network_scheme \<Rightarrow> agent_fault + 'a network_scheme)
    \<Rightarrow> AgentEnvelope \<Rightarrow> 'a network_scheme \<Rightarrow> agent_fault + bool \<times> 'a network_scheme" where
  "sendWithSize h onDisconnect agentEnvelope n =
     (if isConnected n then
        if isSending n then Inr (False, n)
        else
          bind_result (await h True True (n\<lparr>isSending := True\<rparr>)) (\<lambda>(ec, _, n).
            let n = (if ec = NO_ERROR then n\<lparr>wire := wire n @ [agentEnvelope]\<rparr> else n)
            in bind_result (if is_disconnect ec then onDisconnect (network_close n) else Inr n) (\<lambda>n.
                 Inr (ec = NO_ERROR, n\<lparr>isSending := False\<rparr>)))
      else Inr (False, n\<lparr>isSending := False\<rparr>))"

text \<open>The bytes one message puts on the wire.\<close>

definition message_bytes :: "codec \<Rightarrow> AgentEnvelope \<Rightarrow> u8 list" where
  "message_bytes c agentEnvelope = delimited (serialize c agentEnvelope)"

section \<open>Polling\<close>

definition MAX_POLLS :: nat where "MAX_POLLS = 10"

text \<open>At most \<open>MAX_POLLS\<close> ready handlers; events that complete an operation nobody waits for are dropped.\<close>

fun poll_loop ::
  "(io_event \<Rightarrow> 'a network_scheme \<Rightarrow> agent_fault + 'a network_scheme) \<Rightarrow> nat \<Rightarrow> nat \<Rightarrow> 'a network_scheme
    \<Rightarrow> agent_fault + nat \<times> 'a network_scheme" where
  "poll_loop h 0 work n = Inr (work, n)"
| "poll_loop h (Suc i) work n =
     (case io n of
        [] \<Rightarrow> Inr (work, n)
      | e # es \<Rightarrow> bind_result (h e (n\<lparr>io := es\<rparr>)) (\<lambda>n. poll_loop h i (Suc work) n))"

definition network_poll ::
  "(io_event \<Rightarrow> 'a network_scheme \<Rightarrow> agent_fault + 'a network_scheme) \<Rightarrow> 'a network_scheme \<Rightarrow> agent_fault + bool \<times> 'a network_scheme" where
  "network_poll h n = bind_result (poll_loop h MAX_POLLS 0 n) (\<lambda>(work, n). Inr (0 < work, n))"

definition network_on_fork :: "'a network_scheme \<Rightarrow> 'a network_scheme" where
  "network_on_fork n = network_close n"

section \<open>What a run loop keeps\<close>

text \<open>
  The run loops run whatever handlers are ready. What a caller may rely on afterwards is a relation \<open>keeps\<close> between the
  states before and after that every handler, closing the socket and taking events off the queue respect.
\<close>

locale run_loop =
  fixes h :: "io_event \<Rightarrow> 'a network_scheme \<Rightarrow> agent_fault + 'a network_scheme"
    and keeps :: "'a network_scheme \<Rightarrow> 'a network_scheme \<Rightarrow> bool"
  assumes refl: "keeps n n"
    and trans: "keeps n m \<Longrightarrow> keeps m k \<Longrightarrow> keeps n k"
    and handler: "h e n = Inr n' \<Longrightarrow> keeps n n'"
    and closes: "keeps n (closeSocket n)"
    and takes: "keeps n (n\<lparr>io := es\<rparr>)"
begin

lemma awaitCompletion_keeps:
  "awaitCompletion h doClose cancellable fired es n = Inr (ec, fired', es', n') \<Longrightarrow>
   keeps n n' \<and> set es' \<subseteq> set es \<and>
   (Done ec \<in> set es \<or> ec = OPERATION_ABORTED \<and> (cancellable \<and> \<not> sock n' \<or> doClose \<and> (\<exists>m. keeps n m \<and> n' = closeSocket m)))"
proof (induction es arbitrary: fired n)
  case (Cons e es)
  have other: ?case if other: "awaitCompletion h doClose cancellable fired (e # es) n = bind_result (h e n) (\<lambda>n.
       if cancellable \<and> \<not> sock n then Inr (OPERATION_ABORTED, fired, es, n)
       else awaitCompletion h doClose cancellable fired es n)"
  proof -
    obtain m where m: "h e n = Inr m" "(if cancellable \<and> \<not> sock m then Inr (OPERATION_ABORTED, fired, es, m)
        else awaitCompletion h doClose cancellable fired es m) = Inr (ec, fired', es', n')"
      using Cons.prems other by (auto simp: bind_result_Inr)
    note k = handler [OF m(1)]
    show ?thesis
    proof (cases "cancellable \<and> \<not> sock m")
      case True
      with m k show ?thesis by auto
    next
      case False
      then have "awaitCompletion h doClose cancellable fired es m = Inr (ec, fired', es', n')" using m by auto
      from Cons.IH [OF this] show ?thesis using trans [OF k] by (auto 4 4)
    qed
  qed
  show ?case
  proof (cases e)
    case Timeout
    show ?thesis
    proof (cases doClose)
      case True
      with Timeout Cons.prems show ?thesis using closes refl by (auto simp: onTimerRun_def)
    next
      case False
      then have "awaitCompletion h doClose cancellable True es n = Inr (ec, fired', es', n')"
        using Timeout Cons.prems by (simp add: onTimerRun_def)
      from Cons.IH [OF this] show ?thesis by auto
    qed
  next
    case (Done ec1)
    with Cons.prems refl show ?thesis by auto
  qed (use other in simp_all)
qed simp

lemma await_keeps:
  assumes "await h doClose cancellable n = Inr (ec, fired, n')"
  shows "keeps n n' \<and> set (io n') \<subseteq> set (io n) \<and>
    (Done ec \<in> set (io n) \<or> ec = OPERATION_ABORTED \<and>
      (cancellable \<and> \<not> sock n' \<or> doClose \<and> (\<exists>m es. keeps n m \<and> n' = (closeSocket m)\<lparr>io := es\<rparr>)))"
proof -
  obtain es m where m: "awaitCompletion h doClose cancellable False (io n) (n\<lparr>io := []\<rparr>) = Inr (ec, fired, es, m)"
      "n' = m\<lparr>io := es\<rparr>"
    using assms by (auto simp: await_def bind_result_Inr)
  note a = awaitCompletion_keeps [OF m(1)]
  have "keeps n m" using trans [OF takes] a by blast
  then have "keeps n n'" using trans takes m(2) by blast
  moreover have "\<exists>k es. keeps n k \<and> n' = (closeSocket k)\<lparr>io := es\<rparr>" if "\<exists>k. keeps (n\<lparr>io := []\<rparr>) k \<and> m = closeSocket k"
    using that trans [OF takes] m(2) by blast
  ultimately show ?thesis using a m(2) by auto
qed

text \<open>An operation that completes without being cancelled still has its socket.\<close>

lemma awaitCompletion_sock:
  "awaitCompletion h True True fired es n = Inr (ec, fired', es', n') \<Longrightarrow> sock n \<Longrightarrow> ec \<noteq> OPERATION_ABORTED \<Longrightarrow> sock n'"
proof (induction es arbitrary: fired n)
  case (Cons e es)
  then show ?case
    by (cases e) (auto simp: bind_result_Inr onTimerRun_def closeSocket_def Let_def split: if_splits)
qed simp

lemma await_sock:
  "await h True True n = Inr (ec, fired, n') \<Longrightarrow> sock n \<Longrightarrow> ec \<noteq> OPERATION_ABORTED \<Longrightarrow> sock n'"
  by (auto simp: await_def bind_result_Inr dest: awaitCompletion_sock)

text \<open>A send that goes ahead: how the wait ends decides everything else.\<close>

lemma send_keeps:
  assumes "sendWithSize h onDisconnect m n = Inr (ok, n')" "isConnected n" "\<not> isSending n"
  obtains ec k where "keeps (n\<lparr>isSending := True\<rparr>) k" "set (io k) \<subseteq> set (io n)" "ok = (ec = NO_ERROR)"
    "Done ec \<in> set (io n) \<or> ec = OPERATION_ABORTED \<and> (\<not> sock k \<or> (\<exists>m es. keeps (n\<lparr>isSending := True\<rparr>) m \<and> k = (closeSocket m)\<lparr>io := es\<rparr>))"
    "if ok then n' = k\<lparr>wire := wire k @ [m], isSending := False\<rparr>
     else if is_disconnect ec then (\<exists>d. onDisconnect (network_close k) = Inr d \<and> n' = d\<lparr>isSending := False\<rparr>)
     else n' = k\<lparr>isSending := False\<rparr>"
    "sock n \<longrightarrow> ec \<noteq> OPERATION_ABORTED \<longrightarrow> sock k"
proof -
  obtain ec fired k where k: "await h True True (n\<lparr>isSending := True\<rparr>) = Inr (ec, fired, k)"
    and r: "(let k = (if ec = NO_ERROR then k\<lparr>wire := wire k @ [m]\<rparr> else k)
             in bind_result (if is_disconnect ec then onDisconnect (network_close k) else Inr k)
                  (\<lambda>k. Inr (ec = NO_ERROR, k\<lparr>isSending := False\<rparr>))) = Inr (ok, n')"
    using assms by (auto simp: sendWithSize_def bind_result_Inr)
  have "\<not> is_disconnect NO_ERROR" by (simp add: is_disconnect_def)
  with r have "ok = (ec = NO_ERROR)" "if ok then n' = k\<lparr>wire := wire k @ [m], isSending := False\<rparr>
     else if is_disconnect ec then (\<exists>d. onDisconnect (network_close k) = Inr d \<and> n' = d\<lparr>isSending := False\<rparr>)
     else n' = k\<lparr>isSending := False\<rparr>"
    by (auto simp: Let_def bind_result_Inr split: if_splits)
  with await_keeps [OF k] await_sock [OF k] show thesis by (intro that [of k ec]) auto
qed

text \<open>A connection attempt: the socket appears between two waits, and is connected only if nothing took it away.\<close>

lemma connect_keeps:
  assumes "connect h n = Inr (ok, n')" "\<not> nw_prometheusEnabled n"
  obtains (failed) k where "\<not> ok" "keeps n k" "n' = network_close k"
    | (broken) k k2 where "\<not> ok" "keeps n k" "keeps (k\<lparr>sock := True\<rparr>) k2" "n' = network_close k2"
    | (connected) k k2 where "ok" "keeps n k" "keeps (k\<lparr>sock := True\<rparr>) k2" "sock k2" "n' = k2\<lparr>isConnected := True, wire := []\<rparr>"
        "set (io n') \<subseteq> set (io n)"
proof -
  obtain ec fired k where k: "await h False False n = Inr (ec, fired, k)"
      "(if ec \<noteq> NO_ERROR then bind_result (if fired then run_one h k else Inr k) (\<lambda>n. Inr (False, network_close n))
        else bind_result (await h True True (k\<lparr>sock := True\<rparr>)) (\<lambda>(connectErrorCode, _, n).
              if connectErrorCode \<noteq> NO_ERROR then Inr (False, network_close n)
              else
                case take_handshake (io n) of
                  None \<Rightarrow> Inl Blocked
                | Some (sslErrorCode, es) \<Rightarrow>
                    if sslErrorCode \<noteq> NO_ERROR then Inr (False, network_close (n\<lparr>io := es\<rparr>))
                    else Inr (True, n\<lparr>io := es, isConnected := True, wire := []\<rparr>))) = Inr (ok, n')"
    using assms by (auto simp: connect_def bind_result_Inr)
  have nk: "keeps n k" "set (io k) \<subseteq> set (io n)" using await_keeps [OF k(1)] by blast+
  show thesis
  proof (cases "ec = NO_ERROR")
    case False
    then obtain k1 where "(if fired then run_one h k else Inr k) = Inr k1" "\<not> ok" "n' = network_close k1"
      using k(2) by (auto simp: bind_result_Inr)
    moreover from this have "keeps k k1"
      using refl trans [OF takes handler] by (auto simp: run_one_def split: if_splits list.splits)
    ultimately show thesis using failed trans [OF nk(1)] by blast
  next
    case True
    then obtain ec2 fired2 k2 where k2: "await h True True (k\<lparr>sock := True\<rparr>) = Inr (ec2, fired2, k2)"
        "(if ec2 \<noteq> NO_ERROR then Inr (False, network_close k2)
              else
                case take_handshake (io k2) of
                  None \<Rightarrow> Inl Blocked
                | Some (sslErrorCode, es) \<Rightarrow>
                    if sslErrorCode \<noteq> NO_ERROR then Inr (False, network_close (k2\<lparr>io := es\<rparr>))
                    else Inr (True, k2\<lparr>io := es, isConnected := True, wire := []\<rparr>)) = Inr (ok, n')"
      using k(2) by (auto simp: bind_result_Inr)
    have k2k: "keeps (k\<lparr>sock := True\<rparr>) k2" "set (io k2) \<subseteq> set (io k)" using await_keeps [OF k2(1)] by auto
    show thesis
    proof (cases "ec2 = NO_ERROR")
      case False
      then show thesis using k2 broken [OF _ nk(1) k2k(1)] by auto
    next
      case True
      then have s: "sock k2" using await_sock [OF k2(1)] by simp
      obtain ssl es where h: "take_handshake (io k2) = Some (ssl, es)" using k2(2) True by (auto split: option.splits)
      note keep = trans [OF k2k(1) takes [of k2 es]]
      have "set es \<subseteq> set (io k2)" using h by (cases "io k2" rule: take_handshake.cases) auto
      then have sub: "set es \<subseteq> set (io n)" using nk(2) k2k(2) by blast
      show thesis
      proof (cases "ssl = NO_ERROR")
        case True
        with h k2(2) \<open>ec2 = NO_ERROR\<close> show thesis using connected [OF _ nk(1) keep] s sub by auto
      next
        case False
        with h k2(2) \<open>ec2 = NO_ERROR\<close> show thesis using broken [OF _ nk(1) keep] by auto
      qed
    qed
  qed
qed

lemma poll_loop_keeps: "poll_loop h i work n = Inr (work', n') \<Longrightarrow> keeps n n'"
proof (induction i arbitrary: work n)
  case (Suc i)
  show ?case
  proof (cases "io n")
    case (Cons e es)
    then obtain m where m: "h e (n\<lparr>io := es\<rparr>) = Inr m" "poll_loop h i (Suc work) m = Inr (work', n')"
      using Suc.prems by (auto simp: bind_result_Inr)
    from trans [OF trans [OF takes handler [OF m(1)]] Suc.IH [OF m(2)]] show ?thesis .
  qed (use Suc.prems refl in simp)
qed (simp add: refl)

lemma network_poll_keeps: "network_poll h n = Inr (work, n') \<Longrightarrow> keeps n n'"
  by (auto simp: network_poll_def bind_result_Inr dest: poll_loop_keeps)

end

end
