(* ===== verification/Protocol_Handler.thy ===== *)
theory Protocol_Handler
  imports Network
begin

text \<open>
  \<^verbatim>\<open>src/lib/protocol_handler.h\<close> and \<^verbatim>\<open>src/lib/protocol_handler.cpp\<close>: the chain of asynchronous reads that takes the
  collector's length-prefixed messages off the connection and calls the listener, here the record \<open>message_listener\<close>.
\<close>

section \<open>State\<close>

definition MAX_BUFFER_SIZE :: nat where "MAX_BUFFER_SIZE = 1024"

record protocol = network +
  ph_buffer :: "u8 list"
  ph_size :: u32
  ph_offset :: nat

record 's message_listener =
  ml_onTerminate :: "'s \<Rightarrow> agent_fault + 's"
  ml_onSampleRate :: "SampleRate \<Rightarrow> 's \<Rightarrow> agent_fault + 's"
  ml_onHeartbeat :: "'s \<Rightarrow> agent_fault + 's"

section \<open>Reads\<close>

definition attemptRead :: "'a protocol_scheme \<Rightarrow> 'a protocol_scheme" where
  "attemptRead p = (if isConnected p then p\<lparr>reading := Some HeaderRead\<rparr> else p)"

text \<open>
  The subtraction is on 32-bit unsigned integers and widened to \<open>size_t\<close>; the test for a negative result is never true.
  A failed \<open>ReadVarint32\<close> stores the cast of -1.
\<close>

definition onReadHeader :: "errc + u8 list \<Rightarrow> 'a protocol_scheme \<Rightarrow> 'a protocol_scheme" where
  "onReadHeader r p =
     (case r of
        Inl ec \<Rightarrow> p
      | Inr bytes \<Rightarrow>
          (let p = p\<lparr>ph_buffer := bytes @ drop MAX_HEADER_SIZE (ph_buffer p)\<rparr>
           in case ReadVarint32 (take MAX_HEADER_SIZE (ph_buffer p)) of
                None \<Rightarrow> attemptRead (p\<lparr>ph_size := - 1\<rparr>)
              | Some (message_size, offset) \<Rightarrow>
                  (let p = p\<lparr>ph_size := message_size, ph_offset := offset\<rparr>;
                       messagePrefixRead = MAX_HEADER_SIZE - offset;
                       remaining = unat (message_size - word_of_nat messagePrefixRead)
                   in if isConnected p then p\<lparr>reading := Some (BodyRead remaining)\<rparr> else p)))"

definition dispatch :: "'a protocol_scheme message_listener \<Rightarrow> CollectorEnvelope \<Rightarrow> 'a protocol_scheme
    \<Rightarrow> agent_fault + 'a protocol_scheme" where
  "dispatch l collectorEnvelope p =
     (case collectorEnvelope of
        Terminate \<Rightarrow> ml_onTerminate l p
      | SampleRateMessage sampleRate \<Rightarrow> ml_onSampleRate l sampleRate p
      | CollectorHeartbeat _ \<Rightarrow> ml_onHeartbeat l p
      | UnknownMessage \<Rightarrow> Inr p)"

text \<open>
  The bytes have been stored behind the header by the time the handler runs; storing them past the end of the buffer is
  undefined behaviour.
\<close>

definition onReadBody :: "'a protocol_scheme message_listener \<Rightarrow> errc + u8 list \<Rightarrow> 'a protocol_scheme
    \<Rightarrow> agent_fault + 'a protocol_scheme" where
  "onReadBody l r p =
     (case r of
        Inl ec \<Rightarrow> Inr (attemptRead p)
      | Inr bytes \<Rightarrow>
          if MAX_BUFFER_SIZE < MAX_HEADER_SIZE + length bytes then Inl ReadOverflow
          else
            (let p = p\<lparr>ph_buffer := take MAX_HEADER_SIZE (ph_buffer p) @ bytes @ drop (MAX_HEADER_SIZE + length bytes) (ph_buffer p)\<rparr>
             in bind_result
                  (case parse (net_codec p) (take (unat (ph_size p)) (drop (ph_offset p) (ph_buffer p))) of
                     None \<Rightarrow> Inr p
                   | Some collectorEnvelope \<Rightarrow> dispatch l collectorEnvelope p)
                  (\<lambda>p. Inr (attemptRead p))))"

text \<open>An \<open>async_read\<close> completes with exactly the bytes asked for, or with an error.\<close>

fun wanted :: "read_op \<Rightarrow> nat" where
  "wanted HeaderRead = MAX_HEADER_SIZE"
| "wanted (BodyRead remaining) = remaining"

definition onRead :: "'a protocol_scheme message_listener \<Rightarrow> errc + u8 list \<Rightarrow> 'a protocol_scheme
    \<Rightarrow> agent_fault + 'a protocol_scheme" where
  "onRead l r p =
     (case reading p of
        None \<Rightarrow> Inr p
      | Some op \<Rightarrow>
          if (case r of Inl ec \<Rightarrow> False | Inr bytes \<Rightarrow> length bytes \<noteq> wanted op) then Inr p
          else case op of
            HeaderRead \<Rightarrow> Inr (onReadHeader r (p\<lparr>reading := None\<rparr>))
          | BodyRead remaining \<Rightarrow> onReadBody l r (p\<lparr>reading := None\<rparr>))"

section \<open>A stream of bytes\<close>

text \<open>
  What the handler makes of the bytes that arrive on the connection: at most \<open>n\<close> reads are given what they ask for, as
  long as there is enough. The result holds the bytes left.
\<close>

fun deliver :: "'a protocol_scheme message_listener \<Rightarrow> nat \<Rightarrow> u8 list \<Rightarrow> 'a protocol_scheme
    \<Rightarrow> agent_fault + u8 list \<times> 'a protocol_scheme" where
  "deliver l 0 bs p = Inr (bs, p)"
| "deliver l (Suc n) bs p =
     (case reading p of
        None \<Rightarrow> Inr (bs, p)
      | Some op \<Rightarrow>
          if length bs < wanted op then Inr (bs, p)
          else bind_result (onRead l (Inr (take (wanted op) bs)) p) (deliver l n (drop (wanted op) bs)))"

definition frame_fits :: "u8 list \<Rightarrow> bool" where
  "frame_fits body \<longleftrightarrow> MAX_HEADER_SIZE \<le> length (delimited body) \<and> length (delimited body) \<le> MAX_BUFFER_SIZE"

lemma varint_short: "n < 2 ^ 32 \<Longrightarrow> length (varint n) \<le> MAX_HEADER_SIZE"
  using varint_length [of n 5] by (simp add: MAX_HEADER_SIZE_def)

lemma read_varint_prefix: "read_varint bs = Some (v, n) \<Longrightarrow> n \<le> k \<Longrightarrow> read_varint (take k bs) = Some (v, n)"
proof (induction bs arbitrary: v n k)
  case (Cons b bs)
  then obtain k' where k: "k = Suc k'" by (cases k) (auto split: if_splits)
  show ?case using Cons k by (auto split: if_splits)
qed simp

lemma read_frame_header:
  assumes "length body < 2 ^ 32"
  shows "ReadVarint32 (take MAX_HEADER_SIZE (delimited body @ rest)) = Some (word_of_nat (length body), length (varint (length body)))"
proof -
  have "read_varint (delimited body @ rest) = Some (length body, length (varint (length body)))"
    using read_varint_varint [of "length body" "body @ rest"] by (simp add: delimited_def)
  from read_varint_prefix [OF this varint_short [OF assms]] show ?thesis by (simp add: ReadVarint32_def)
qed

text \<open>The header of a frame: how much of the stream the body's read will ask for.\<close>

lemma header_of_frame:
  assumes "reading p = Some HeaderRead" "isConnected p" "length body < 2 ^ 32" "MAX_HEADER_SIZE \<le> length (delimited body @ rest)"
  shows "onRead l (Inr (take MAX_HEADER_SIZE (delimited body @ rest))) p = Inr (p\<lparr>
     reading := Some (BodyRead (unat (word_of_nat (length body) - word_of_nat (MAX_HEADER_SIZE - length (varint (length body))) :: u32))),
     ph_buffer := take MAX_HEADER_SIZE (delimited body @ rest) @ drop MAX_HEADER_SIZE (ph_buffer p),
     ph_size := word_of_nat (length body), ph_offset := length (varint (length body))\<rparr>)"
proof -
  have l: "length (take MAX_HEADER_SIZE (delimited body @ rest)) = MAX_HEADER_SIZE" using assms(4) by simp
  then have t: "take MAX_HEADER_SIZE (take MAX_HEADER_SIZE (delimited body @ rest) @ xs) = take MAX_HEADER_SIZE (delimited body @ rest)" for xs
    by (metis append_eq_conv_conj)
  show ?thesis using assms(1,2) read_frame_header [OF assms(3), of rest] l t
    by (simp add: onRead_def onReadHeader_def Let_def del: length_take take_append)
qed

lemma body_read_size:
  assumes "length body < 2 ^ 32"
  shows "unat (word_of_nat (length body) - word_of_nat (MAX_HEADER_SIZE - length (varint (length body))) :: u32) =
    (if MAX_HEADER_SIZE \<le> length (delimited body) then length (delimited body) - MAX_HEADER_SIZE
     else 2 ^ 32 - (MAX_HEADER_SIZE - length (delimited body)))"
proof -
  let ?n = "length body" and ?h = "length (varint (length body))"
  have h: "?h \<le> 5" using varint_short [OF assms] by (simp add: MAX_HEADER_SIZE_def)
  have u: "unat (word_of_nat ?n :: u32) = ?n" using assms by (simp add: unat_of_nat)
  have v: "unat (word_of_nat (5 - ?h) :: u32) = 5 - ?h" by (simp add: unat_of_nat)
  show ?thesis
  proof (cases "5 \<le> ?h + ?n")
    case True
    then have "(word_of_nat (5 - ?h) :: u32) \<le> word_of_nat ?n" using h by (simp only: word_le_nat_alt u v)
    then have "unat (word_of_nat ?n - word_of_nat (5 - ?h) :: u32) = ?n - (5 - ?h)" by (simp only: unat_sub u v)
    then show ?thesis using True h by (simp add: MAX_HEADER_SIZE_def delimited_def)
  next
    case False
    then have lt: "?n < 5 - ?h" by simp
    have "unat (word_of_nat ?n - word_of_nat (5 - ?h) :: u32) = ?n + 2 ^ 32 - (5 - ?h)"
      unfolding unat_sub_if' u v using lt by simp
    then show ?thesis using False h by (simp add: MAX_HEADER_SIZE_def delimited_def)
  qed
qed

section \<open>Properties\<close>

lemma frame_length: "length (delimited body) = length (varint (length body)) + length body"
  by (simp add: delimited_def)

lemma frame_fits_size: "frame_fits body \<Longrightarrow> length body < 2 ^ 32"
  by (simp add: frame_fits_def frame_length MAX_BUFFER_SIZE_def)

text \<open>C15: One message of a stream: when the handler waits for a header and the next bytes are the frame of \<open>body\<close>, at least
  as long as a header and no longer than the buffer, it makes exactly two reads, hands exactly the parsed \<open>body\<close> to the
  listener (nothing when it does not parse), and then goes on with the bytes behind the frame.\<close>

theorem frame_delivered:
  assumes "reading p = Some HeaderRead" "isConnected p" "frame_fits body"
  shows "deliver l (Suc (Suc n)) (delimited body @ rest) p =
    (let p' = p\<lparr>ph_size := word_of_nat (length body), ph_offset := length (varint (length body)), reading := None,
         ph_buffer := delimited body @ drop (length (delimited body)) (ph_buffer p)\<rparr>
     in bind_result (case parse (net_codec p) body of None \<Rightarrow> Inr p' | Some e \<Rightarrow> dispatch l e p')
          (\<lambda>p. deliver l n rest (attemptRead p)))"
proof -
  let ?f = "delimited body" and ?h = "length (varint (length body))"
  let ?k = "length ?f - MAX_HEADER_SIZE"
  have len: "length body < 2 ^ 32" by (rule frame_fits_size [OF assms(3)])
  have hs: "MAX_HEADER_SIZE \<le> length ?f" and ms: "length ?f \<le> MAX_BUFFER_SIZE" using assms(3) by (simp_all add: frame_fits_def)
  have hl: "?h \<le> MAX_HEADER_SIZE" by (rule varint_short [OF len])
  let ?p1 = "p\<lparr>reading := Some (BodyRead ?k), ph_buffer := take MAX_HEADER_SIZE ?f @ drop MAX_HEADER_SIZE (ph_buffer p),
     ph_size := word_of_nat (length body), ph_offset := ?h\<rparr>"
  let ?p2 = "p\<lparr>ph_size := word_of_nat (length body), ph_offset := ?h, reading := None,
     ph_buffer := ?f @ drop (length ?f) (ph_buffer p)\<rparr>"
  have one: "onRead l (Inr (take MAX_HEADER_SIZE (?f @ rest))) p = Inr ?p1"
    using header_of_frame [OF assms(1,2) len, of rest l] body_read_size [OF len] hs by simp
  have d: "drop MAX_HEADER_SIZE (?f @ rest) = drop MAX_HEADER_SIZE ?f @ rest" using hs by simp
  have sz: "unat (word_of_nat (length body) :: u32) = length body" using len by (simp add: unat_of_nat)
  have buf: "take MAX_HEADER_SIZE (take MAX_HEADER_SIZE ?f @ drop MAX_HEADER_SIZE B) @ drop MAX_HEADER_SIZE ?f @
      drop (length ?f) (take MAX_HEADER_SIZE ?f @ drop MAX_HEADER_SIZE B) = ?f @ drop (length ?f) B" for B :: "u8 list"
    using hs by simp
  have body: "take (length body) (drop ?h (?f @ xs)) = body" for xs by (simp add: delimited_def)
  have two: "onRead l (Inr (drop MAX_HEADER_SIZE ?f)) ?p1 =
      bind_result (case parse (net_codec p) body of None \<Rightarrow> Inr ?p2 | Some e \<Rightarrow> dispatch l e ?p2) (\<lambda>p. Inr (attemptRead p))"
    using hs ms buf by (simp add: onRead_def onReadBody_def Let_def sz body del: drop_append take_append)
  have enough: "\<not> length ?f + length rest - MAX_HEADER_SIZE < ?k" using hs by arith
  have "deliver l (Suc (Suc n)) (?f @ rest) p = bind_result (onRead l (Inr (drop MAX_HEADER_SIZE ?f)) ?p1) (deliver l n rest)"
    using hs one d assms(1) enough by simp
  then show ?thesis unfolding two Let_def by (auto simp: bind_result_def split: option.split sum.split)
qed

text \<open>A codec whose four-byte bodies are messages.\<close>

definition demo_codec :: codec where
  "demo_codec = \<lparr>serialize = \<lambda>_. replicate 4 0, parse = \<lambda>bs.
     if bs = [1, 0, 0, 0] then Some Terminate else if bs = [2, 0, 0, 0] then Some (CollectorHeartbeat 0) else None\<rparr>"

definition demo_protocol :: protocol where
  "demo_protocol = \<lparr>isConnected = True, isSending = False, sock = True, nw_prometheusEnabled = False,
     reading = Some HeaderRead, armed = {}, wire = [], io = [], net_codec = demo_codec,
     ph_buffer = replicate MAX_BUFFER_SIZE 0, ph_size = 0, ph_offset = 0\<rparr>"

definition demo_listener :: "protocol message_listener" where
  "demo_listener = \<lparr>ml_onTerminate = \<lambda>p. Inr (network_close p), ml_onSampleRate = \<lambda>_ p. Inr p, ml_onHeartbeat = Inr\<rparr>"

lemma frame_delivered_witness:
  "\<exists>p. deliver demo_listener (Suc (Suc 0)) (delimited [1, 0, 0, 0] @ [7, 7]) demo_protocol = Inr ([7, 7], p) \<and> \<not> isConnected p"
proof -
  have "frame_fits [1, 0, 0, 0]" by code_simp
  moreover have "reading demo_protocol = Some HeaderRead" "isConnected demo_protocol" "sock demo_protocol"
      "parse (net_codec demo_protocol) [1, 0, 0, 0] = Some Terminate" by code_simp+
  ultimately show ?thesis using frame_delivered [of demo_protocol "[1, 0, 0, 0]" demo_listener 0 "[7, 7]"]
    by (simp add: Let_def demo_listener_def dispatch_def network_close_def closeSocket_def attemptRead_def)
qed

text \<open>C33: A frame shorter than a header (a body of at most three bytes, such as an empty \<open>Terminate\<close>) makes the handler ask for
  almost \<open>2 ^ 32\<close> bytes, one longer than the buffer for more than the buffer holds; either way, when the read it asked for
  completes, it has written past the end of the buffer.\<close>

theorem frame_overflows:
  assumes "reading p = Some HeaderRead" "isConnected p" "length body < 2 ^ 32" "\<not> frame_fits body"
    and "MAX_HEADER_SIZE \<le> length (delimited body @ rest)"
  shows "\<exists>p1 remaining. onRead l (Inr (take MAX_HEADER_SIZE (delimited body @ rest))) p = Inr p1 \<and>
    reading p1 = Some (BodyRead remaining) \<and>
    remaining = (if length body \<le> 3 then 2 ^ 32 - (4 - length body) else length (delimited body) - MAX_HEADER_SIZE) \<and>
    (\<forall>bytes. length bytes = remaining \<longrightarrow> onRead l (Inr bytes) p1 = Inl ReadOverflow)"
proof -
  let ?k = "unat (word_of_nat (length body) - word_of_nat (MAX_HEADER_SIZE - length (varint (length body))) :: u32)"
  note k = body_read_size [OF assms(3)] and h = header_of_frame [OF assms(1-3,5), of l]
  have short: "length (delimited body) = Suc (length body)" if "length body \<le> 3"
    using that by (simp add: frame_length varint.simps [of "length body"])
  have "?k = (if length body \<le> 3 then 2 ^ 32 - (4 - length body) else length (delimited body) - MAX_HEADER_SIZE) \<and>
      MAX_BUFFER_SIZE < MAX_HEADER_SIZE + ?k"
  proof (cases "length body \<le> 3")
    case True
    then have "?k = 2 ^ 32 - (4 - length body)" using short k by (simp add: MAX_HEADER_SIZE_def)
    with True show ?thesis by (simp add: MAX_BUFFER_SIZE_def)
  next
    case False
    have "0 < length (varint (length body))" by simp
    then have "MAX_HEADER_SIZE \<le> length (delimited body)" using False by (simp only: MAX_HEADER_SIZE_def frame_length)
    then show ?thesis using k False assms(4) by (auto simp: frame_fits_def)
  qed
  moreover have "onRead l (Inr bytes) (p\<lparr>reading := Some (BodyRead n), ph_buffer := b, ph_size := s, ph_offset := off\<rparr>) = Inl ReadOverflow"
    if "length bytes = n" "MAX_BUFFER_SIZE < MAX_HEADER_SIZE + n" for bytes n b s off
    using that by (simp add: onRead_def onReadBody_def)
  ultimately show ?thesis unfolding h by auto
qed

lemma frame_overflows_witness:
  "\<exists>p. onRead demo_listener (Inr [2, 1, 0, 5, 1]) demo_protocol = Inr p \<and> reading p = Some (BodyRead (2 ^ 32 - 2)) \<and>
    (\<forall>bytes. length bytes = 2 ^ 32 - 2 \<longrightarrow> onRead demo_listener (Inr bytes) p = Inl ReadOverflow)"
proof -
  have "\<not> frame_fits [1, 0]" "take MAX_HEADER_SIZE (delimited [1, 0] @ [5, 1, 1]) = [2, 1, 0, 5, 1]"
      "MAX_HEADER_SIZE \<le> length (delimited [1, 0] @ [5, 1, 1])" "reading demo_protocol = Some HeaderRead"
      "isConnected demo_protocol" by code_simp+
  then show ?thesis using frame_overflows [of demo_protocol "[1, 0]" "[5, 1, 1]" demo_listener]
    by (simp del: take_append length_append)
qed

end
