(* ===== verification/Collector_Controller.thy ===== *)
theory Collector_Controller
  imports Protocol_Handler Signal_Handler Metrics
begin

text \<open>
  \<^verbatim>\<open>src/lib/collector_controller.h\<close> and \<^verbatim>\<open>src/lib/collector_controller.cpp\<close>: the life of the connection to the collector.
  It is connected, greeted, told what to sample, kept alive by heartbeats, watched by the receive timer, and
  reconnected after a back-off. Everything runs on the processor thread.
\<close>

section \<open>State\<close>

datatype State = SOCKET_CONNECTED | SENT_HELLO | CONNECTED | DISCONNECTED | PROMETHEUS_MODE

text \<open>The numbers of the source's enumeration order the states.\<close>

fun state_number :: "State \<Rightarrow> nat" where
  "state_number SOCKET_CONNECTED = 1"
| "state_number SENT_HELLO = 2"
| "state_number CONNECTED = 3"
| "state_number DISCONNECTED = 4"
| "state_number PROMETHEUS_MODE = 5"

instantiation State :: linorder
begin

definition less_eq_State :: "State \<Rightarrow> State \<Rightarrow> bool" where
  "less_eq_State s t = (state_number s \<le> state_number t)"

definition less_State :: "State \<Rightarrow> State \<Rightarrow> bool" where
  "less_State s t = (state_number s < state_number t)"

instance
proof
  fix s t u :: State
  show "s < t \<longleftrightarrow> s \<le> t \<and> \<not> t \<le> s" by (auto simp: less_State_def less_eq_State_def)
  show "s \<le> s" by (simp add: less_eq_State_def)
  show "s \<le> t \<Longrightarrow> t \<le> u \<Longrightarrow> s \<le> u" by (simp add: less_eq_State_def)
  show "s \<le> t \<Longrightarrow> t \<le> s \<Longrightarrow> s = t" by (cases s; cases t) (simp_all add: less_eq_State_def)
  show "s \<le> t \<or> t \<le> s" by (auto simp: less_eq_State_def)
qed

end

text \<open>The states in which the collector has been greeted and may answer.\<close>

definition greeted :: "State \<Rightarrow> bool" where
  "greeted s \<longleftrightarrow> SENT_HELLO \<le> s \<and> s \<le> CONNECTED"

lemma greeted_simps [simp]:
  "greeted SENT_HELLO" "greeted CONNECTED" "\<not> greeted SOCKET_CONNECTED" "\<not> greeted DISCONNECTED" "\<not> greeted PROMETHEUS_MODE"
  by (simp_all add: greeted_def less_eq_State_def)

definition TIMEOUT_IN_MS :: nat where "TIMEOUT_IN_MS = 10000"
definition AGENT_STATISTICS_TIMEOUT_IN_MS :: nat where "AGENT_STATISTICS_TIMEOUT_IN_MS = 5000"
definition SEND_TIMEOUT_IN_MS :: nat where "SEND_TIMEOUT_IN_MS = TIMEOUT_IN_MS div 4"
definition MAX_BACKOFF_TIME_IN_MS :: u32 where "MAX_BACKOFF_TIME_IN_MS = 60 * 1000"
definition MIN_BACKOFF_TIME_IN_MS :: u32 where "MIN_BACKOFF_TIME_IN_MS = 1000"
definition RANDOMISATION_RANGE_IN_MS :: u32 where "RANDOMISATION_RANGE_IN_MS = 1000"
definition DONT_CHANGE_SAMPLE_RATE :: u64 where "DONT_CHANGE_SAMPLE_RATE = 0"
definition DEFAULT_METRICS_SAMPLE_RATE :: u64 where "DEFAULT_METRICS_SAMPLE_RATE = 1000"

text \<open>
  The counters the agent statistics report are the queue's, the CPU reader's and the two here; the signal handler, the thread
  scanner, the metrics and the queue are the components the controller drives or shares.
\<close>

record controller = protocol +
  notifications :: "(NotificationCategory \<times> string) list"
  backoffTimeInMs :: u32
  cc_state :: State
  cc_on :: bool
  processTimeStackSampleIntervalMillis :: u64
  elapsedTimeStackSampleIntervalMillis :: u64
  memoryProfilingPushRateMillis :: u64
  threadStateOn :: bool
  memoryProfilingOn :: bool
  metricsOn :: bool
  metricsSampleRateMillis :: u64
  threadIdDenials :: u32
  cpu_reader_warnings :: u32
  signalHandler :: SignalHandler
  cc_scanner :: scanner
  cc_metrics :: Metrics
  cc_queue :: CircularQueue

text \<open>
  What the controller is constructed with and what it asks the system: the identity it sends, the clock, the random
  numbers of the back-off, the outcome of \<open>setitimer\<close>, whether the metrics thread runs, and the two callbacks.
\<close>

type_synonym 's sender = "AgentEnvelope \<Rightarrow> 's \<Rightarrow> agent_fault + bool \<times> 's"

record 's controller_env =
  ce_apiKey :: string
  ce_agentId :: string
  ce_hostname :: string
  ce_applicationVersion :: string
  ce_ocamlVersion :: string
  ce_processorCount :: u32
  ce_AGENT_VERSION :: u32
  ce_GIT_STR :: string
  ce_BUILD_TYPE :: string
  ce_getpid :: int
  ce_timezone :: "string \<times> int"
  ce_configuration :: ConfigurationOptions
  ce_millis :: "'s \<Rightarrow> u64"
  ce_dist :: "'s \<Rightarrow> u32"
  ce_setitimer :: "timeval \<Rightarrow> bool"
  ce_metrics_thread_running :: bool
  ce_build :: build
  ce_reader_env :: reader_env
  socketConnectHandler :: "'s \<Rightarrow> 's"
  recordAllocationTableHandler :: "'s sender \<Rightarrow> 's \<Rightarrow> agent_fault + 's"

definition CollectorController_init ::
  "bool \<Rightarrow> bool \<Rightarrow> codec \<Rightarrow> Metrics \<Rightarrow> CircularQueue \<Rightarrow> controller" where
  "CollectorController_init prometheus on c m q =
     network.extend (Network_init prometheus c)
       \<lparr>ph_buffer = replicate MAX_BUFFER_SIZE 0, ph_size = 0, ph_offset = 0, notifications = [], backoffTimeInMs = 0,
        cc_state = (if prometheus then PROMETHEUS_MODE else DISCONNECTED), cc_on = on,
        processTimeStackSampleIntervalMillis = 0, elapsedTimeStackSampleIntervalMillis = 0,
        memoryProfilingPushRateMillis = 0, threadStateOn = False, memoryProfilingOn = False, metricsOn = False,
        metricsSampleRateMillis = DEFAULT_METRICS_SAMPLE_RATE, threadIdDenials = 0, cpu_reader_warnings = 0,
         signalHandler = newSignalHandler, cc_scanner = scanner_init, cc_metrics = m,
        cc_queue = q\<rparr>"

section \<open>Timers\<close>

text \<open>Setting a timer's expiry cancels the wait it had; the times are the constants above.\<close>

definition schedule :: "timer \<Rightarrow> 'a controller_scheme \<Rightarrow> 'a controller_scheme" where
  "schedule t c = c\<lparr>armed := insert t (armed c)\<rparr>"

definition scheduleSendTimer :: "'a controller_scheme \<Rightarrow> 'a controller_scheme" where
  "scheduleSendTimer c = schedule SendTimer c"

definition scheduleReceiveTimer :: "'a controller_scheme \<Rightarrow> 'a controller_scheme" where
  "scheduleReceiveTimer c = schedule ReceiveTimer c"

definition scheduleAllocationTimer :: "'a controller_scheme \<Rightarrow> 'a controller_scheme" where
  "scheduleAllocationTimer c = schedule AllocationTimer c"

definition scheduleAgentStatisticsTimer :: "'a controller_scheme \<Rightarrow> 'a controller_scheme" where
  "scheduleAgentStatisticsTimer c = schedule AgentStatisticsTimer c"

section \<open>Profiling\<close>

definition update_signal_handler :: "(bool \<times> SignalHandler) option \<Rightarrow> 'a controller_scheme \<Rightarrow> agent_fault + 'a controller_scheme" where
  "update_signal_handler r c = (case r of None \<Rightarrow> Inl IntOverflow | Some (_, h) \<Rightarrow> Inr (c\<lparr>signalHandler := h\<rparr>))"

text \<open>\<open>static_cast<int>\<close> keeps the low 32 bits; the result of the update is not looked at.\<close>

definition startProcessProfiling :: "'a controller_scheme controller_env \<Rightarrow> u64 \<Rightarrow> bool \<Rightarrow> 'a controller_scheme
    \<Rightarrow> agent_fault + 'a controller_scheme" where
  "startProcessProfiling env rate on c =
     (if on then
        if rate \<noteq> DONT_CHANGE_SAMPLE_RATE then
          map_sum id (\<lambda>c. c\<lparr>processTimeStackSampleIntervalMillis := rate\<rparr>)
            (update_signal_handler (updateProcessInterval (ce_setitimer env) (sint (ucast rate :: i32)) (signalHandler c)) c)
        else Inr c
      else if isProcessProfiling (signalHandler c) then
        update_signal_handler (stopProcessProfiling (ce_setitimer env) (signalHandler c)) c
      else Inr c)"

definition startElapsedProfiling :: "u64 \<Rightarrow> bool \<Rightarrow> 'a controller_scheme \<Rightarrow> 'a controller_scheme" where
  "startElapsedProfiling rate on c =
     (if on then
        if rate \<noteq> DONT_CHANGE_SAMPLE_RATE then
          c\<lparr>cc_scanner := update_scanning_threads_interval rate (cc_scanner c), elapsedTimeStackSampleIntervalMillis := rate\<rparr>
        else c
      else if is_scanning_threads (cc_scanner c) then c\<lparr>cc_scanner := stop_scanning_threads (cc_scanner c)\<rparr>
      else c)"

definition startProfiling :: "'a controller_scheme controller_env \<Rightarrow> u64 \<Rightarrow> u64 \<Rightarrow> bool \<Rightarrow> bool \<Rightarrow> 'a controller_scheme
    \<Rightarrow> agent_fault + 'a controller_scheme" where
  "startProfiling env processRate elapsedRate processOn elapsedOn c =
     map_sum id (startElapsedProfiling elapsedRate elapsedOn) (startProcessProfiling env processRate processOn c)"

section \<open>Messages\<close>

definition recordWithSize :: "'a controller_scheme sender \<Rightarrow> AgentEnvelope \<Rightarrow> 'a controller_scheme \<Rightarrow> agent_fault + 'a controller_scheme" where
  "recordWithSize send agentEnvelope c = bind_result (send agentEnvelope c) (\<lambda>(_, c). Inr c)"

text \<open>A field that is not set reads as the empty string.\<close>

definition hello_message :: "'a controller_scheme controller_env \<Rightarrow> Hello" where
  "hello_message env = \<lparr>api_key = ce_apiKey env, process_id = ce_getpid env, hello_context =
     \<lparr>ctx_agent_id = ce_agentId env, host_name = ce_hostname env, platform_version = ce_ocamlVersion env,
      application_version = ce_applicationVersion env, agent_version = ce_AGENT_VERSION env,
      hardware_thread_count = ce_processorCount env, agent_git_string = ce_GIT_STR env, build_type = ce_BUILD_TYPE env,
      timezone_name = fst (ce_timezone env), timezone_offset_seconds = snd (ce_timezone env)\<rparr>\<rparr>"

definition sendHello :: "'a controller_scheme controller_env \<Rightarrow> 'a controller_scheme sender \<Rightarrow> 'a controller_scheme
    \<Rightarrow> agent_fault + 'a controller_scheme" where
  "sendHello env send c = recordWithSize send (HelloMessage (hello_message env)) c"

definition sendHeartbeat :: "'a controller_scheme controller_env \<Rightarrow> 'a controller_scheme sender \<Rightarrow> 'a controller_scheme
    \<Rightarrow> agent_fault + 'a controller_scheme" where
  "sendHeartbeat env send c = recordWithSize send (HeartbeatMessage (ce_millis env c)) c"

fun send_each :: "'a controller_scheme sender \<Rightarrow> (NotificationCategory \<times> string) list \<Rightarrow> 'a controller_scheme
    \<Rightarrow> agent_fault + 'a controller_scheme" where
  "send_each send [] c = Inr c"
| "send_each send ((cat, msg) # ns) c =
     bind_result (recordWithSize send (NotificationMessage msg cat) c) (send_each send ns)"

definition sendStashedNotifications :: "'a controller_scheme sender \<Rightarrow> 'a controller_scheme \<Rightarrow> agent_fault + 'a controller_scheme" where
  "sendStashedNotifications send c =
     bind_result (send_each send (notifications c) c) (\<lambda>c. Inr (c\<lparr>notifications := []\<rparr>))"

definition stashNotification :: "NotificationCategory \<Rightarrow> string \<Rightarrow> 'a controller_scheme \<Rightarrow> 'a controller_scheme" where
  "stashNotification cat msg c = c\<lparr>notifications := notifications c @ [(cat, msg)]\<rparr>"

definition agent_statistics :: "'a controller_scheme \<Rightarrow> AgentStatistics" where
  "agent_statistics c =
     \<lparr>allocation_enqueue_failures = allocationFailures (cc_queue c), cputime_enqueue_failures = cputimeFailures (cc_queue c),
      wallclock_enqueue_failures = wallclockFailures (cc_queue c), thread_id_denials = threadIdDenials c,
      cpu_metric_errors = cpuErrors (cc_metrics c), cpu_metric_warnings = cpu_reader_warnings c,
      metric_enqueue_failures = metricFailures (cc_queue c),
      allocation_stack_trace_enqueue_failures = allocationStackTraceFailures (cc_queue c)\<rparr>"

definition resetAgentStatisticsCounters :: "'a controller_scheme \<Rightarrow> 'a controller_scheme" where
  "resetAgentStatisticsCounters c =
     c\<lparr>cc_queue := (cc_queue c)\<lparr>allocationFailures := 0, allocationStackTraceFailures := 0, cputimeFailures := 0,
         wallclockFailures := 0, metricFailures := 0\<rparr>,
       threadIdDenials := 0,
       cc_metrics := (cc_metrics c)\<lparr>cpuErrors := 0,
         cpudataReader := map_option (\<lambda>r. r\<lparr>cpu_errors := 0\<rparr>) (cpudataReader (cc_metrics c))\<rparr>,
       cpu_reader_warnings := 0\<rparr>"

section \<open>Events of the connection\<close>

definition onDisconnect :: "'a controller_scheme controller_env \<Rightarrow> 'a controller_scheme \<Rightarrow> 'a controller_scheme" where
  "onDisconnect env c =
     (let c = c\<lparr>cc_state := DISCONNECTED, armed := armed c - {SendTimer, ReceiveTimer, AllocationTimer, AgentStatisticsTimer}\<rparr>;
          c = (if metricsOn c then
                 (if ce_metrics_thread_running env
                  then c\<lparr>cc_metrics := metrics_disable (ce_build env) (cc_metrics c)\<rparr> else c)\<lparr>metricsOn := False\<rparr>
               else c)
      in network_close c)"

definition onTerminate :: "'a controller_scheme \<Rightarrow> 'a controller_scheme" where
  "onTerminate c = c\<lparr>cc_on := False\<rparr>"

definition onHeartbeat :: "'a controller_scheme \<Rightarrow> 'a controller_scheme" where
  "onHeartbeat c = scheduleReceiveTimer c"

definition onFirstSampleRate :: "'a controller_scheme sender \<Rightarrow> 'a controller_scheme \<Rightarrow> agent_fault + 'a controller_scheme" where
  "onFirstSampleRate send c =
     bind_result (sendStashedNotifications send (c\<lparr>cc_state := CONNECTED\<rparr>)) (\<lambda>c.
       Inr (scheduleAgentStatisticsTimer (scheduleReceiveTimer (scheduleSendTimer c))))"

definition onSampleRate :: "'a controller_scheme controller_env \<Rightarrow> 'a controller_scheme sender \<Rightarrow> SampleRate \<Rightarrow> 'a controller_scheme
    \<Rightarrow> agent_fault + 'a controller_scheme" where
  "onSampleRate env send sr c =
     bind_result
       (startProfiling env (process_time_stack_sample_rate_millis sr) (elapsed_time_stack_sample_rate_millis sr)
          (switch_process_time_profiling_on sr) (switch_elapsed_time_profiling_on sr) c)
       (\<lambda>c.
         let m = cc_metrics c;
             m = (if switch_metrics_on sr then
                    metrics_enable (ce_build env) (ce_reader_env env) (metrics_prefixes sr)
                      (if metrics_sample_rate_millis sr \<noteq> DONT_CHANGE_SAMPLE_RATE
                       then setSampleRate (metrics_sample_rate_millis sr) m else m)
                  else metrics_disable (ce_build env) m);
             c = c\<lparr>cc_metrics := m, memoryProfilingOn := switch_memory_profiling_on sr,
                   threadStateOn := thread_state_on sr, metricsOn := switch_metrics_on sr\<rparr>
         in if cc_state c = SENT_HELLO then onFirstSampleRate send c else Inr c)"

definition onSentHello :: "'a controller_scheme \<Rightarrow> 'a controller_scheme" where
  "onSentHello c = scheduleReceiveTimer (resetAgentStatisticsCounters (c\<lparr>cc_state := SENT_HELLO\<rparr>))"

definition onSocketConnect :: "'a controller_scheme controller_env \<Rightarrow> 'a controller_scheme sender \<Rightarrow> 'a controller_scheme
    \<Rightarrow> agent_fault + 'a controller_scheme" where
  "onSocketConnect env send c =
     bind_result (sendHello env send (socketConnectHandler env (c\<lparr>cc_state := SOCKET_CONNECTED, backoffTimeInMs := 0\<rparr>)))
       (\<lambda>c. Inr (onSentHello c))"

section \<open>Timer handlers\<close>

text \<open>The handlers ignore a wait that was cancelled; these are the waits that expire.\<close>

definition onSendTimer :: "'a controller_scheme controller_env \<Rightarrow> 'a controller_scheme sender \<Rightarrow> 'a controller_scheme
    \<Rightarrow> agent_fault + 'a controller_scheme" where
  "onSendTimer env send c = bind_result (sendHeartbeat env send c) (\<lambda>c. Inr (scheduleSendTimer c))"

definition onReceiveTimer :: "'a controller_scheme controller_env \<Rightarrow> 'a controller_scheme \<Rightarrow> 'a controller_scheme" where
  "onReceiveTimer env c = scheduleReceiveTimer (onDisconnect env c)"

definition onAllocationTimer :: "'a controller_scheme controller_env \<Rightarrow> 'a controller_scheme sender \<Rightarrow> 'a controller_scheme
    \<Rightarrow> agent_fault + 'a controller_scheme" where
  "onAllocationTimer env send c =
     bind_result (recordAllocationTableHandler env send c) (\<lambda>c. Inr (scheduleAllocationTimer c))"

definition onAgentStatisticsTimer :: "'a controller_scheme sender \<Rightarrow> 'a controller_scheme \<Rightarrow> agent_fault + 'a controller_scheme" where
  "onAgentStatisticsTimer send c =
     bind_result (recordWithSize send (AgentStatisticsMessage (agent_statistics c)) c) (\<lambda>c.
       Inr (scheduleAgentStatisticsTimer c))"

definition onTimer :: "'a controller_scheme controller_env \<Rightarrow> 'a controller_scheme sender \<Rightarrow> timer \<Rightarrow> 'a controller_scheme
    \<Rightarrow> agent_fault + 'a controller_scheme" where
  "onTimer env send t c =
     (case t of
        SendTimer \<Rightarrow> onSendTimer env send c
      | ReceiveTimer \<Rightarrow> Inr (onReceiveTimer env c)
      | AllocationTimer \<Rightarrow> onAllocationTimer env send c
      | AgentStatisticsTimer \<Rightarrow> onAgentStatisticsTimer send c)"

section \<open>The io service's handlers\<close>

definition controller_listener :: "'a controller_scheme controller_env \<Rightarrow> 'a controller_scheme sender
    \<Rightarrow> 'a controller_scheme message_listener" where
  "controller_listener env send =
     \<lparr>ml_onTerminate = \<lambda>c. Inr (onTerminate c), ml_onSampleRate = onSampleRate env send, ml_onHeartbeat = \<lambda>c. Inr (onHeartbeat c)\<rparr>"

text \<open>Only a timer that is armed expires, only an outstanding read completes.\<close>

definition io_handler :: "'a controller_scheme controller_env \<Rightarrow> 'a controller_scheme sender \<Rightarrow> io_event \<Rightarrow> 'a controller_scheme
    \<Rightarrow> agent_fault + 'a controller_scheme" where
  "io_handler env send e c =
     (case e of
        Expired t \<Rightarrow> if t \<in> armed c then onTimer env send t (c\<lparr>armed := armed c - {t}\<rparr>) else Inr c
      | ReadDone r \<Rightarrow> onRead (controller_listener env send) r c
      | _ \<Rightarrow> Inr c)"

text \<open>
  Inside a run loop the connection is either sending already or not connected, and \<open>sendWithSize\<close> does no more than this
  (lemma \<open>sendWithSize_refused\<close>).
\<close>

definition refuse_send :: "'a network_scheme sender" where
  "refuse_send agentEnvelope n = Inr (False, if isConnected n then n else n\<lparr>isSending := False\<rparr>)"

lemma sendWithSize_refused:
  "isSending n \<or> \<not> isConnected n \<Longrightarrow> sendWithSize h d m n = refuse_send m n"
  by (auto simp: sendWithSize_def refuse_send_def)

definition nested_handler :: "'a controller_scheme controller_env \<Rightarrow> io_event \<Rightarrow> 'a controller_scheme \<Rightarrow> agent_fault + 'a controller_scheme" where
  "nested_handler env = io_handler env refuse_send"

definition send_message :: "'a controller_scheme controller_env \<Rightarrow> 'a controller_scheme sender" where
  "send_message env = sendWithSize (nested_handler env) (\<lambda>c. Inr (onDisconnect env c))"

definition poll_handler :: "'a controller_scheme controller_env \<Rightarrow> io_event \<Rightarrow> 'a controller_scheme \<Rightarrow> agent_fault + 'a controller_scheme" where
  "poll_handler env = io_handler env (send_message env)"

section \<open>Called by the processor\<close>

text \<open>The milliseconds slept, if any. Multiplying by 1.5 and truncating is \<open>3 div 2\<close> on the values that occur.\<close>

definition backoff :: "'a controller_scheme controller_env \<Rightarrow> 'a controller_scheme \<Rightarrow> u32 option \<times> 'a controller_scheme" where
  "backoff env c =
     (if backoffTimeInMs c = 0 then (None, c\<lparr>backoffTimeInMs := MIN_BACKOFF_TIME_IN_MS\<rparr>)
      else
        (let b = min (word_of_nat (unat (backoffTimeInMs c) * 3 div 2)) MAX_BACKOFF_TIME_IN_MS;
             c = c\<lparr>backoffTimeInMs := b\<rparr>;
             randomNumber = ce_dist env c
         in (Some (b + randomNumber), c)))"

definition attemptConnect :: "'a controller_scheme controller_env \<Rightarrow> 'a controller_scheme \<Rightarrow> agent_fault + bool \<times> 'a controller_scheme" where
  "attemptConnect env c =
     bind_result (connect (nested_handler env) c) (\<lambda>(connected, c).
       if connected then bind_result (onSocketConnect env (send_message env) c) (\<lambda>c. Inr (True, c))
       else Inr (False, c))"

definition controller_poll :: "'a controller_scheme controller_env \<Rightarrow> 'a controller_scheme \<Rightarrow> agent_fault + bool \<times> 'a controller_scheme" where
  "controller_poll env c =
     (if cc_state c = DISCONNECTED then attemptConnect env (snd (backoff env c)) else Inr (False, c))"

definition onStart :: "'a controller_scheme controller_env \<Rightarrow> 'a controller_scheme \<Rightarrow> agent_fault + 'a controller_scheme" where
  "onStart env c =
     (if cc_on c \<and> cc_state c = SOCKET_CONNECTED then onSocketConnect env (send_message env) c
      else if cc_state c = PROMETHEUS_MODE then
        startProfiling env (word_of_int (prometheusProcessSampleRate (ce_configuration env)))
          (word_of_int (prometheusElapsedSampleRate (ce_configuration env))) True True c
      else Inr c)"

definition onEnd :: "'a controller_scheme controller_env \<Rightarrow> 'a controller_scheme \<Rightarrow> agent_fault + 'a controller_scheme" where
  "onEnd env c =
     bind_result (update_signal_handler (stopProcessProfiling (ce_setitimer env) (signalHandler c)) c) (\<lambda>c.
       Inr (onDisconnect env c))"

definition isOn :: "'a controller_scheme \<Rightarrow> bool" where "isOn c = cc_on c"

definition controller_isConnected :: "'a controller_scheme \<Rightarrow> bool" where
  "controller_isConnected c = (cc_state c = CONNECTED)"

definition isActive :: "'a controller_scheme \<Rightarrow> bool" where
  "isActive c = (controller_isConnected c \<or> cc_state c = PROMETHEUS_MODE)"

definition controller_on_fork :: "'a controller_scheme \<Rightarrow> 'a controller_scheme" where
  "controller_on_fork c =
     c\<lparr>notifications := [], backoffTimeInMs := 0, cc_state := DISCONNECTED, processTimeStackSampleIntervalMillis := 0,
       elapsedTimeStackSampleIntervalMillis := 0, memoryProfilingPushRateMillis := 0, threadStateOn := False,
       memoryProfilingOn := False, metricsOn := False, metricsSampleRateMillis := DEFAULT_METRICS_SAMPLE_RATE\<rparr>"

section \<open>The invariant of the connection\<close>

text \<open>
  A connected socket exists and belongs to a state that may use it; a read is outstanding only while connected; the
  receive timer runs in every state in which the collector has been greeted; the allocation timer never does.
\<close>

definition backoff_ok :: "u32 \<Rightarrow> bool" where
  "backoff_ok b \<longleftrightarrow> b = 0 \<or> MIN_BACKOFF_TIME_IN_MS \<le> b \<and> b \<le> MAX_BACKOFF_TIME_IN_MS"

lemma backoff_ok_simps [simp]: "backoff_ok 0" "backoff_ok MIN_BACKOFF_TIME_IN_MS"
  by (simp_all add: backoff_ok_def MIN_BACKOFF_TIME_IN_MS_def MAX_BACKOFF_TIME_IN_MS_def)

definition conn_ok :: "'a controller_scheme \<Rightarrow> bool" where
  "conn_ok c \<longleftrightarrow>
     (isConnected c \<longrightarrow> sock c \<and> cc_state c \<noteq> DISCONNECTED \<and> cc_state c \<noteq> PROMETHEUS_MODE) \<and>
     (nw_prometheusEnabled c \<longrightarrow> \<not> sock c) \<and> (reading c \<noteq> None \<longrightarrow> isConnected c) \<and>
     (greeted (cc_state c) \<longrightarrow> ReceiveTimer \<in> armed c) \<and> AllocationTimer \<notin> armed c \<and>
     backoff_ok (backoffTimeInMs c)"

text \<open>Events whose write errors are all ones the agent takes for a disconnection.\<close>

definition io_plain :: "io_event list \<Rightarrow> bool" where
  "io_plain es \<longleftrightarrow> (\<forall>ec. Done ec \<in> set es \<longrightarrow> ec = NO_ERROR \<or> is_disconnect ec)"

lemma io_plain_simps [simp]: "io_plain []" "io_plain (xs @ ys) \<longleftrightarrow> io_plain xs \<and> io_plain ys"
  by (auto simp: io_plain_def)

lemma io_plain_subset: "io_plain es \<Longrightarrow> set es' \<subseteq> set es \<Longrightarrow> io_plain es'"
  by (auto simp: io_plain_def)

definition state_moves :: "'a controller_scheme \<Rightarrow> 'a controller_scheme \<Rightarrow> bool" where
  "state_moves c c' \<longleftrightarrow> cc_state c' = cc_state c \<or> cc_state c = SENT_HELLO \<and> cc_state c' = CONNECTED \<and> isConnected c \<or>
     cc_state c' = DISCONNECTED \<and> \<not> isConnected c'"

text \<open>What the handlers may do: \<open>W\<close> relates what is on the wire before and after.\<close>

definition handled :: "(AgentEnvelope list \<Rightarrow> AgentEnvelope list \<Rightarrow> bool) \<Rightarrow> 'a controller_scheme \<Rightarrow> 'a controller_scheme \<Rightarrow> bool" where
  "handled W c c' \<longleftrightarrow> (conn_ok c \<longrightarrow>
     conn_ok c' \<and> W (wire c) (wire c') \<and> state_moves c c' \<and> (isConnected c' \<longrightarrow> isConnected c) \<and>
     (isSending c' \<longrightarrow> isSending c) \<and> (\<not> isConnected c \<or> isSending c \<longrightarrow> \<not> isConnected c' \<or> isSending c') \<and>
     nw_prometheusEnabled c' = nw_prometheusEnabled c \<and> net_codec c' = net_codec c \<and>
     backoffTimeInMs c' = backoffTimeInMs c \<and> (cc_on c' \<longrightarrow> cc_on c) \<and> controller.more c' = controller.more c)"

lemma handled_refl: "W (wire c) (wire c) \<Longrightarrow> handled W c c"
  by (simp add: handled_def state_moves_def)

lemma handledD:
  assumes "handled W c c'" "conn_ok c"
  shows "conn_ok c'" "W (wire c) (wire c')" "state_moves c c'" "isConnected c' \<Longrightarrow> isConnected c" "isSending c' \<Longrightarrow> isSending c"
    "\<not> isConnected c \<or> isSending c \<Longrightarrow> \<not> isConnected c' \<or> isSending c'" "nw_prometheusEnabled c' = nw_prometheusEnabled c"
    "net_codec c' = net_codec c" "backoffTimeInMs c' = backoffTimeInMs c" "cc_on c' \<Longrightarrow> cc_on c"
    "controller.more c' = controller.more c"
  using assms unfolding handled_def by argo+

lemma handled_trans:
  assumes W: "\<And>u v w. W u v \<Longrightarrow> W v w \<Longrightarrow> W u w" and h: "handled W c d" "handled W d e"
  shows "handled W c e"
proof (cases "conn_ok c")
  case True
  note c = h(1) [unfolded handled_def, rule_format, OF True]
  note d = h(2) [unfolded handled_def, rule_format, OF conjunct1 [OF c]]
  have m: "state_moves c d" "state_moves d e" "isConnected e \<longrightarrow> isConnected d" "isConnected d \<longrightarrow> isConnected c" using c d by blast+
  have "state_moves c e" using m by (auto simp: state_moves_def)
  moreover have "W (wire c) (wire e)" using c d W by blast
  ultimately show ?thesis unfolding handled_def using c d by argo
qed (simp add: handled_def)

text \<open>Steps that leave the connection, its state and its timers alone.\<close>

definition aside :: "'a controller_scheme \<Rightarrow> 'a controller_scheme \<Rightarrow> bool" where
  "aside c c' \<longleftrightarrow> isConnected c' = isConnected c \<and> isSending c' = isSending c \<and> sock c' = sock c \<and>
     nw_prometheusEnabled c' = nw_prometheusEnabled c \<and> reading c' = reading c \<and> armed c' = armed c \<and> wire c' = wire c \<and>
     net_codec c' = net_codec c \<and> backoffTimeInMs c' = backoffTimeInMs c \<and> cc_state c' = cc_state c \<and>
     (cc_on c' \<longrightarrow> cc_on c) \<and> controller.more c' = controller.more c"

lemma aside_handled: "aside c c' \<Longrightarrow> W (wire c) (wire c) \<Longrightarrow> handled W c c'"
  by (simp add: aside_def handled_def conn_ok_def state_moves_def)

lemma aside_trans: "aside c d \<Longrightarrow> aside d e \<Longrightarrow> aside c e"
  by (simp add: aside_def)

lemma update_signal_handler_aside: "update_signal_handler r c = Inr c' \<Longrightarrow> aside c c'"
  by (auto simp: update_signal_handler_def aside_def split: option.splits)

lemma startProfiling_aside: "startProfiling env pr er po eo c = Inr c' \<Longrightarrow> aside c c'"
proof -
  have "aside c d" if "startProcessProfiling env pr po c = Inr d" for d
    using that by (auto simp: startProcessProfiling_def update_signal_handler_def aside_def split: if_splits option.splits)
  moreover have "aside d (startElapsedProfiling er eo d)" for d by (simp add: startElapsedProfiling_def aside_def)
  ultimately have "aside c (startElapsedProfiling er eo d)" if "startProcessProfiling env pr po c = Inr d" for d
    using that by (blast intro: aside_trans)
  then show "startProfiling env pr er po eo c = Inr c' \<Longrightarrow> aside c c'"
    by (cases "startProcessProfiling env pr po c") (auto simp: startProfiling_def)
qed

text \<open>Closing, and what the controller does on a disconnection.\<close>

lemma network_close_handled: "W (wire c) (wire c) \<Longrightarrow> conn_ok c \<Longrightarrow>
    isConnected (network_close c) = False \<and> handled W c (onDisconnect env c) \<and> cc_state (onDisconnect env c) = DISCONNECTED"
  by (auto simp: handled_def conn_ok_def state_moves_def onDisconnect_def network_close_def closeSocket_def Let_def)

lemma onDisconnect_fields:
  assumes "conn_ok c"
  shows "conn_ok (onDisconnect env c)" "\<not> isConnected (onDisconnect env c)" "cc_state (onDisconnect env c) = DISCONNECTED"
    "sock (onDisconnect env c) = False"
    "wire (onDisconnect env c) = wire c" "io (onDisconnect env c) = io c" "isSending (onDisconnect env c) = isSending c"
    "nw_prometheusEnabled (onDisconnect env c) = nw_prometheusEnabled c" "net_codec (onDisconnect env c) = net_codec c"
    "backoffTimeInMs (onDisconnect env c) = backoffTimeInMs c" "cc_on (onDisconnect env c) = cc_on c"
    "controller.more (onDisconnect env c) = controller.more c" "notifications (onDisconnect env c) = notifications c"
  using assms by (auto simp: conn_ok_def onDisconnect_def network_close_def closeSocket_def Let_def)

lemma network_close_fields:
  assumes "\<not> isConnected c \<or> sock c"
  shows "\<not> isConnected (network_close c)" "wire (network_close c) = wire c" "io (network_close c) = io c"
    "nw_prometheusEnabled (network_close c) = nw_prometheusEnabled c" "net_codec (network_close c) = net_codec c"
    "sock (network_close c) = False" "isSending (network_close c) = isSending c"
  using assms by (auto simp: network_close_def closeSocket_def)

lemma network_close_ok: "conn_ok c \<Longrightarrow> conn_ok (network_close c)"
  by (auto simp: conn_ok_def network_close_def closeSocket_def)

lemma network_close_controller [simp]:
  "cc_state (network_close c) = cc_state c" "armed (network_close c) = armed c" "cc_on (network_close c) = cc_on c"
  "backoffTimeInMs (network_close c) = backoffTimeInMs c" "controller.more (network_close c) = controller.more c"
  "notifications (network_close c) = notifications c"
  by (simp_all add: network_close_def closeSocket_def)

lemma closeSocket_handled: "W (wire c) (wire c) \<Longrightarrow> handled W c (closeSocket c)"
  by (auto simp: handled_def conn_ok_def state_moves_def closeSocket_def)

lemma schedule_handled: "t \<noteq> AllocationTimer \<Longrightarrow> W (wire c) (wire c) \<Longrightarrow> handled W c (schedule t c)"
  by (auto simp: handled_def conn_ok_def state_moves_def schedule_def)

lemma attemptRead_handled: "W (wire c) (wire c) \<Longrightarrow> handled W c (attemptRead c)"
  by (auto simp: handled_def conn_ok_def state_moves_def attemptRead_def)

text \<open>What the handlers send. The allocation table is not among it: its timer is never armed.\<close>

fun handler_message :: "AgentEnvelope \<Rightarrow> bool" where
  "handler_message (HeartbeatMessage _) = True"
| "handler_message (NotificationMessage _ _) = True"
| "handler_message (AgentStatisticsMessage _) = True"
| "handler_message _ = False"

text \<open>The handlers, over any way of sending that itself only does what handlers may do.\<close>

locale handled_sender =
  fixes env :: "'a controller_scheme controller_env"
    and send :: "'a controller_scheme sender"
    and W :: "AgentEnvelope list \<Rightarrow> AgentEnvelope list \<Rightarrow> bool"
  assumes W_refl: "W w w"
    and W_trans: "W u v \<Longrightarrow> W v w \<Longrightarrow> W u w"
    and sends: "handler_message m \<Longrightarrow> send m c = Inr (ok, c') \<Longrightarrow> handled W c c'"
begin

lemma step: "handled W c d \<Longrightarrow> handled W d e \<Longrightarrow> handled W c e"
  using handled_trans [of W c d e] W_trans by blast

lemma recordWithSize_handled: "recordWithSize send m c = Inr c' \<Longrightarrow> handler_message m \<Longrightarrow> handled W c c'"
  using sends by (auto simp: recordWithSize_def bind_result_Inr)

lemma send_each_handled: "send_each send ns c = Inr c' \<Longrightarrow> handled W c c'"
proof (induction ns arbitrary: c)
  case (Cons n ns)
  obtain cat msg where n: "n = (cat, msg)" by (cases n)
  then obtain d where d: "recordWithSize send (NotificationMessage msg cat) c = Inr d" "send_each send ns d = Inr c'"
    using Cons.prems by (auto simp: bind_result_Inr)
  from step [OF recordWithSize_handled [OF d(1)] Cons.IH [OF d(2)]] show ?case by simp
qed (simp add: handled_refl W_refl)

lemma sendStashedNotifications_handled: "sendStashedNotifications send c = Inr c' \<Longrightarrow> handled W c c'"
proof -
  assume "sendStashedNotifications send c = Inr c'"
  then obtain d where d: "send_each send (notifications c) c = Inr d" "c' = d\<lparr>notifications := []\<rparr>"
    by (auto simp: sendStashedNotifications_def bind_result_Inr)
  have "aside d c'" by (simp add: d(2) aside_def)
  then have "handled W d c'" by (rule aside_handled [OF _ W_refl])
  from step [OF send_each_handled [OF d(1)] this] show "handled W c c'" .
qed

lemma onFirstSampleRate_handled:
  assumes "onFirstSampleRate send c = Inr c'" "cc_state c = SENT_HELLO" "isConnected c"
  shows "handled W c c'"
proof -
  obtain d where d: "sendStashedNotifications send (c\<lparr>cc_state := CONNECTED\<rparr>) = Inr d"
      "c' = schedule AgentStatisticsTimer (schedule ReceiveTimer (schedule SendTimer d))"
    using assms(1) by (auto simp: onFirstSampleRate_def bind_result_Inr scheduleAgentStatisticsTimer_def scheduleReceiveTimer_def
      scheduleSendTimer_def)
  have "handled W c (c\<lparr>cc_state := CONNECTED\<rparr>)" using assms(2,3) W_refl
    by (auto simp: handled_def conn_ok_def state_moves_def)
  then have 1: "handled W c d" using step sendStashedNotifications_handled [OF d(1)] by blast
  have s: "handled W x (schedule t x)" if "t \<noteq> AllocationTimer" for t x using schedule_handled [OF that] W_refl by blast
  have "handled W d c'" unfolding d(2) by (rule step [OF s step [OF s s]]) simp_all
  from step [OF 1 this] show ?thesis .
qed

lemma onSampleRate_handled:
  assumes "onSampleRate env send sr c = Inr c'" "isConnected c"
  shows "handled W c c'"
proof -
  obtain d where d: "startProfiling env (process_time_stack_sample_rate_millis sr) (elapsed_time_stack_sample_rate_millis sr)
          (switch_process_time_profiling_on sr) (switch_elapsed_time_profiling_on sr) c = Inr d"
    and r: "(let m = cc_metrics d;
             m = (if switch_metrics_on sr then
                    metrics_enable (ce_build env) (ce_reader_env env) (metrics_prefixes sr)
                      (if metrics_sample_rate_millis sr \<noteq> DONT_CHANGE_SAMPLE_RATE
                       then setSampleRate (metrics_sample_rate_millis sr) m else m)
                  else metrics_disable (ce_build env) m);
             c = d\<lparr>cc_metrics := m, memoryProfilingOn := switch_memory_profiling_on sr,
                   threadStateOn := thread_state_on sr, metricsOn := switch_metrics_on sr\<rparr>
         in if cc_state c = SENT_HELLO then onFirstSampleRate send c else Inr c) = Inr c'"
    using assms(1) unfolding onSampleRate_def bind_result_Inr by blast
  obtain m where m: "(let c = d\<lparr>cc_metrics := m, memoryProfilingOn := switch_memory_profiling_on sr,
                   threadStateOn := thread_state_on sr, metricsOn := switch_metrics_on sr\<rparr>
         in if cc_state c = SENT_HELLO then onFirstSampleRate send c else Inr c) = Inr c'"
    using r unfolding Let_def by blast
  let ?e = "d\<lparr>cc_metrics := m, memoryProfilingOn := switch_memory_profiling_on sr,
                   threadStateOn := thread_state_on sr, metricsOn := switch_metrics_on sr\<rparr>"
  have "aside d ?e" by (simp add: aside_def)
  then have "aside c ?e" using aside_trans [OF startProfiling_aside [OF d]] by blast
  then have 1: "handled W c ?e" "isConnected ?e" using aside_handled W_refl assms(2) by (blast, simp add: aside_def)
  show ?thesis
  proof (cases "cc_state ?e = SENT_HELLO")
    case True
    with m have "onFirstSampleRate send ?e = Inr c'" by (simp add: Let_def)
    from step [OF 1(1) onFirstSampleRate_handled [OF this True 1(2)]] show ?thesis .
  next
    case False
    with m 1(1) show ?thesis by (simp add: Let_def)
  qed
qed

lemma onReceiveTimer_handled: "handled W c (onReceiveTimer env (c\<lparr>armed := armed c - {ReceiveTimer}\<rparr>))"
  using W_refl by (auto simp: handled_def conn_ok_def state_moves_def onReceiveTimer_def onDisconnect_def network_close_def
      closeSocket_def scheduleReceiveTimer_def schedule_def Let_def)

lemma onTimer_handled:
  assumes "onTimer env send t (c\<lparr>armed := armed c - {t}\<rparr>) = Inr c'" "t \<noteq> AllocationTimer"
  shows "handled W c c'"
proof (cases "t = ReceiveTimer")
  case True
  with assms onReceiveTimer_handled show ?thesis by (auto simp: onTimer_def)
next
  case False
  let ?c = "c\<lparr>armed := armed c - {t}\<rparr>"
  have 0: "handled W c ?c" using False W_refl by (auto simp: handled_def conn_ok_def state_moves_def)
  have s: "handled W x (schedule u x)" if "u \<noteq> AllocationTimer" for u x using schedule_handled [OF that] W_refl by blast
  obtain d m u where d: "recordWithSize send m ?c = Inr d" "c' = schedule u d" "u \<noteq> AllocationTimer" "handler_message m"
    using assms False by (cases t) (auto simp: onTimer_def onSendTimer_def sendHeartbeat_def onAgentStatisticsTimer_def
      bind_result_Inr scheduleSendTimer_def scheduleAgentStatisticsTimer_def)
  from step [OF 0 step [OF recordWithSize_handled [OF d(1,4)] s [OF d(3)]]] show ?thesis by (simp add: d(2))
qed

lemma dispatch_handled: "isConnected c \<Longrightarrow> dispatch (controller_listener env send) e c = Inr c' \<Longrightarrow> handled W c c'"
proof (cases e)
  case Terminate
  have "aside c (onTerminate c)" by (simp add: aside_def onTerminate_def)
  moreover assume "dispatch (controller_listener env send) e c = Inr c'"
  ultimately show ?thesis using Terminate aside_handled W_refl by (auto simp: dispatch_def controller_listener_def)
next
  case (SampleRateMessage sr)
  moreover assume "isConnected c" "dispatch (controller_listener env send) e c = Inr c'"
  ultimately show ?thesis using onSampleRate_handled by (auto simp: dispatch_def controller_listener_def)
next
  case (CollectorHeartbeat t)
  moreover assume "dispatch (controller_listener env send) e c = Inr c'"
  ultimately show ?thesis using schedule_handled [of ReceiveTimer] W_refl
    by (auto simp: dispatch_def controller_listener_def onHeartbeat_def scheduleReceiveTimer_def)
next
  case UnknownMessage
  moreover assume "dispatch (controller_listener env send) e c = Inr c'"
  ultimately show ?thesis using handled_refl W_refl by (auto simp: dispatch_def)
qed

lemma onReadHeader_handled: "handled W c (onReadHeader r (c\<lparr>reading := None\<rparr>))"
  using W_refl by (auto simp: handled_def conn_ok_def state_moves_def onReadHeader_def attemptRead_def Let_def
      split: sum.split option.split)

lemma onReadBody_handled:
  assumes "onReadBody (controller_listener env send) r (c\<lparr>reading := None\<rparr>) = Inr c'" "isConnected c"
  shows "handled W c c'"
proof -
  have 0: "handled W c (c\<lparr>reading := None\<rparr>)" using W_refl by (simp add: handled_def conn_ok_def state_moves_def)
  have r: "handled W x (attemptRead x)" for x using attemptRead_handled W_refl by blast
  show ?thesis
  proof (cases r)
    case (Inl ec)
    with assms(1) step [OF 0 r] show ?thesis by (simp add: onReadBody_def)
  next
    case (Inr bytes)
    let ?d = "c\<lparr>reading := None, ph_buffer := take MAX_HEADER_SIZE (ph_buffer c) @ bytes @ drop (MAX_HEADER_SIZE + length bytes) (ph_buffer c)\<rparr>"
    have "aside (c\<lparr>reading := None\<rparr>) ?d" by (simp add: aside_def)
    then have 1: "handled W c ?d" using step [OF 0 aside_handled] W_refl by blast
    obtain e where e: "(case parse (net_codec c) (take (unat (ph_size c)) (drop (ph_offset c) (ph_buffer ?d))) of
        None \<Rightarrow> Inr ?d | Some m \<Rightarrow> dispatch (controller_listener env send) m ?d) = Inr e" "c' = attemptRead e"
      using assms(1) Inr by (auto simp: onReadBody_def Let_def bind_result_Inr split: if_splits)
    have "isConnected ?d" using assms(2) by simp
    then have "handled W ?d e" using e(1) handled_refl W_refl dispatch_handled by (auto split: option.splits)
    from step [OF 1 step [OF this r]] show ?thesis by (simp add: e(2))
  qed
qed

lemma onRead_handled:
  assumes "onRead (controller_listener env send) r c = Inr c'"
  shows "handled W c c'"
proof (cases "isConnected c \<or> reading c = None")
  case True
  then show ?thesis using assms onReadBody_handled onReadHeader_handled handled_refl [of W c] W_refl
    by (auto simp: onRead_def split: option.splits read_op.splits if_splits)
next
  case False
  then show ?thesis by (simp add: handled_def conn_ok_def)
qed

lemma io_handler_handled:
  assumes "io_handler env send e c = Inr c'"
  shows "handled W c c'"
proof (cases e)
  case (Expired t)
  show ?thesis
  proof (cases "t \<in> armed c")
    case True
    show ?thesis
    proof (cases "t = AllocationTimer")
      case True
      with \<open>t \<in> armed c\<close> show ?thesis by (simp add: handled_def conn_ok_def)
    next
      case False
      with assms Expired True onTimer_handled show ?thesis by (simp add: io_handler_def)
    qed
  next
    case False
    with assms Expired handled_refl W_refl show ?thesis by (auto simp: io_handler_def)
  qed
next
  case (ReadDone r)
  with assms onRead_handled show ?thesis by (simp add: io_handler_def)
qed (use assms handled_refl W_refl in \<open>auto simp: io_handler_def\<close>)

end

text \<open>The handlers that run inside a wait leave the wire alone, and so do the waits.\<close>

lemma refuse_send_cases:
  assumes "refuse_send m c = Inr (ok, c')"
  shows "\<not> ok" "c' = c \<or> \<not> isConnected c \<and> c' = c\<lparr>isSending := False\<rparr>"
  using assms by (auto simp: refuse_send_def split: if_splits)

lemma not_sending_handled: "\<not> isConnected c \<Longrightarrow> W (wire c) (wire c) \<Longrightarrow> handled W c (c\<lparr>isSending := False\<rparr>)"
  by (simp add: handled_def conn_ok_def state_moves_def)

lemma refuse_send_handled:
  assumes "refuse_send m c = Inr (ok, c')" "W (wire c) (wire c)"
  shows "handled W c c'"
  using refuse_send_cases(2) [OF assms(1)] handled_refl [of W c] not_sending_handled [of c W] assms(2) by blast

interpretation nested: handled_sender env refuse_send "(=)" for env
  by unfold_locales (auto intro: refuse_send_handled)

lemma io_handled: "W (wire c) (wire c) \<Longrightarrow> handled W c (c\<lparr>io := es\<rparr>)"
  by (rule aside_handled) (simp_all add: aside_def)

interpretation waiting: run_loop "nested_handler env" "handled (=)" for env
proof
  fix e and n m k n' :: "'a controller_scheme" and es
  show "handled (=) n n" by (rule handled_refl) simp
  show "handled (=) n m \<Longrightarrow> handled (=) m k \<Longrightarrow> handled (=) n k" by (rule nested.step)
  show "nested_handler env e n = Inr n' \<Longrightarrow> handled (=) n n'" unfolding nested_handler_def by (rule nested.io_handler_handled)
  show "handled (=) n (closeSocket n)" by (rule closeSocket_handled) simp
  show "handled (=) n (n\<lparr>io := es\<rparr>)" by (rule io_handled) simp
qed

text \<open>
  \<open>refuse_send\<close> is what \<open>sendWithSize\<close> does for a handler that runs inside a wait: the condition of
  \<open>sendWithSize_refused\<close> holds when the wait begins and no handler ends it.
\<close>

lemma nested_sends_are_refused:
  assumes "conn_ok c" "isSending c \<or> \<not> isConnected c" "nested_handler env e c = Inr c'"
  shows "conn_ok c' \<and> (isSending c' \<or> \<not> isConnected c') \<and> sendWithSize h d m c' = refuse_send m c'"
proof -
  have "handled (=) c c'" using nested.io_handler_handled assms(3) unfolding nested_handler_def by blast
  note this [unfolded handled_def, rule_format, OF assms(1)]
  then have "conn_ok c' \<and> (isSending c' \<or> \<not> isConnected c')" using assms(2) by blast
  then show ?thesis using sendWithSize_refused by blast
qed

definition extends :: "'m list \<Rightarrow> 'm list \<Rightarrow> bool" where
  "extends w w' \<longleftrightarrow> (\<exists>ms. w' = w @ ms)"

lemma extends_simps [simp]: "extends w w" "extends w (w @ ms)"
  by (auto simp: extends_def)

lemma extends_trans: "extends u v \<Longrightarrow> extends v w \<Longrightarrow> extends u w"
  by (auto simp: extends_def)

text \<open>
  A message is on the wire exactly when the send says so. When it does not and the errors are all disconnections, the
  connection is gone, unless another send was in progress.
\<close>

lemma send_message_result:
  assumes ok: "conn_ok c" and s: "send_message env m c = Inr (ok, c')"
  shows "handled extends c c' \<and> set (io c') \<subseteq> set (io c) \<and>
    (if ok then isConnected c \<and> \<not> isSending c \<and> wire c' = wire c @ [m]
     else wire c' = wire c \<and> (io_plain (io c) \<longrightarrow> isConnected c' \<longrightarrow> isSending c))"
proof (cases "isSending c \<or> \<not> isConnected c")
  case True
  then have "refuse_send m c = Inr (ok, c')" using s by (simp add: send_message_def sendWithSize_refused)
  note r = refuse_send_cases [OF this] and h = refuse_send_handled [OF this, of extends]
  from r(2) have "wire c' = wire c" "io c' = io c" "isConnected c' = isConnected c" by auto
  then show ?thesis using r(1) h True by auto
next
  case False
  then have c: "isConnected c" "\<not> isSending c" by auto
  let ?n = "c\<lparr>isSending := True\<rparr>"
  obtain ec k where k: "handled (=) ?n k" "set (io k) \<subseteq> set (io c)" "ok = (ec = NO_ERROR)"
    "Done ec \<in> set (io c) \<or> ec = OPERATION_ABORTED \<and> (\<not> sock k \<or> (\<exists>m es. handled (=) ?n m \<and> k = (closeSocket m)\<lparr>io := es\<rparr>))"
    "if ok then c' = k\<lparr>wire := wire k @ [m], isSending := False\<rparr>
     else if is_disconnect ec then (\<exists>d. Inr (onDisconnect env (network_close k)) = (Inr d :: agent_fault + _) \<and> c' = d\<lparr>isSending := False\<rparr>)
     else c' = k\<lparr>isSending := False\<rparr>"
    by (rule waiting.send_keeps [OF s [unfolded send_message_def] c]) (rule that; assumption)
  have "conn_ok ?n" using ok by (simp add: conn_ok_def)
  note h = handledD [OF k(1) this]
  have w: "wire k = wire c" "isConnected k \<longrightarrow> isConnected c" "state_moves c k" "nw_prometheusEnabled k = nw_prometheusEnabled c"
      "net_codec k = net_codec c" "backoffTimeInMs k = backoffTimeInMs c" "cc_on k \<longrightarrow> cc_on c" "controller.more k = controller.more c"
  proof -
    show "wire k = wire c" using h(2) by simp
    show "isConnected k \<longrightarrow> isConnected c" using h(4) by simp
    show "state_moves c k" using h(3) by (simp add: state_moves_def)
    show "nw_prometheusEnabled k = nw_prometheusEnabled c" using h(7) by simp
    show "net_codec k = net_codec c" using h(8) by simp
    show "backoffTimeInMs k = backoffTimeInMs c" using h(9) by simp
    show "cc_on k \<longrightarrow> cc_on c" using h(10) by simp
    show "controller.more k = controller.more c" using h(11) by simp
  qed
  consider "ok" "c' = k\<lparr>wire := wire k @ [m], isSending := False\<rparr>"
    | "\<not> ok" "is_disconnect ec" "c' = (onDisconnect env (network_close k))\<lparr>isSending := False\<rparr>"
    | "\<not> ok" "\<not> is_disconnect ec" "c' = k\<lparr>isSending := False\<rparr>"
    using k(5) by (auto split: if_splits)
  then show ?thesis
  proof cases
    case 1
    then have "conn_ok c'" using h(1) by (simp add: conn_ok_def)
    then show ?thesis using 1 w k(2) c by (simp add: handled_def state_moves_def)
  next
    case 2
    let ?d = "onDisconnect env (network_close k)"
    have kc: "\<not> isConnected k \<or> sock k" using h(1) by (simp add: conn_ok_def)
    note d = onDisconnect_fields [OF network_close_ok [OF h(1)], of env] network_close_fields [OF kc]
    have "conn_ok c'" using d(1) 2 by (simp add: conn_ok_def)
    then show ?thesis using 2 d w k(2) by (simp add: handled_def state_moves_def)
  next
    case 3
    then have "conn_ok c'" using h(1) by (simp add: conn_ok_def)
    moreover have "\<not> isConnected k" if "io_plain (io c)"
    proof -
      have "Done ec \<notin> set (io c)" using that 3 k(3) by (auto simp: io_plain_def)
      then consider "\<not> sock k" | m es where "handled (=) ?n m" "k = (closeSocket m)\<lparr>io := es\<rparr>" using k(4) by blast
      then show ?thesis
      proof cases
        case 1
        with h(1) show ?thesis by (auto simp: conn_ok_def)
      next
        case 2
        from handledD(1) [OF 2(1) \<open>conn_ok ?n\<close>] show ?thesis by (auto simp: 2(2) closeSocket_def conn_ok_def)
      qed
    qed
    ultimately show ?thesis using 3 w k(2) c by (simp add: handled_def state_moves_def)
  qed
qed

lemma handled_mono: "handled V c c' \<Longrightarrow> (V (wire c) (wire c') \<Longrightarrow> W (wire c) (wire c')) \<Longrightarrow> handled W c c'"
  unfolding handled_def by blast

lemma send_message_handled: "send_message env m c = Inr (ok, c') \<Longrightarrow> handled extends c c'"
  using send_message_result [of c env m ok c'] by (cases "conn_ok c") (auto simp: handled_def)

text \<open>What the handlers of the io service put on the wire when they run outside a wait.\<close>

definition chatter :: "AgentEnvelope list \<Rightarrow> AgentEnvelope list \<Rightarrow> bool" where
  "chatter w w' \<longleftrightarrow> (\<exists>ms. w' = w @ ms \<and> list_all handler_message ms)"

lemma chatter_simps [simp]: "chatter w w" "chatter w (w @ [m]) = handler_message m"
  by (auto simp: chatter_def)

lemma chatter_trans: "chatter u v \<Longrightarrow> chatter v w \<Longrightarrow> chatter u w"
  by (auto simp: chatter_def)

lemma chatter_extends: "handled chatter c c' \<Longrightarrow> handled extends c c'"
  by (erule handled_mono) (auto simp: chatter_def)

lemma send_message_chatter:
  assumes "handler_message m" "send_message env m c = Inr (ok, c')"
  shows "handled chatter c c'"
proof (cases "conn_ok c")
  case True
  note r = send_message_result [OF True assms(2)]
  then have h: "handled extends c c'" by blast
  have "wire c' = wire c @ [m] \<or> wire c' = wire c" using r by (cases ok) simp_all
  then have "chatter (wire c) (wire c')" using assms(1) by (elim disjE) simp_all
  with h show ?thesis by (rule handled_mono)
qed (simp add: handled_def)

interpretation outer: handled_sender env "send_message env" chatter for env
  by unfold_locales (auto intro: send_message_chatter chatter_trans)

interpretation polling: run_loop "poll_handler env" "handled chatter" for env
proof
  fix e and n m k n' :: "'a controller_scheme" and es
  show "handled chatter n n" by (rule handled_refl) simp
  show "handled chatter n m \<Longrightarrow> handled chatter m k \<Longrightarrow> handled chatter n k" by (rule outer.step)
  show "poll_handler env e n = Inr n' \<Longrightarrow> handled chatter n n'" unfolding poll_handler_def by (rule outer.io_handler_handled)
  show "handled chatter n (closeSocket n)" by (rule closeSocket_handled) simp
  show "handled chatter n (n\<lparr>io := es\<rparr>)" by (rule io_handled) simp
qed

section \<open>Reachable states\<close>

definition wire_greeted :: "'a controller_scheme \<Rightarrow> bool" where
  "wire_greeted c \<longleftrightarrow> (isConnected c \<longrightarrow> (\<exists>hello rest. wire c = HelloMessage hello # rest))"

text \<open>
  One step: events arrive, the processor polls the controller or the io service, sends a message or starts, a notification
  is stashed, another thread or the queue's listener changes what it owns, the process forks. With \<open>plain\<close> set, every
  write error waiting when a connection attempt begins is one the agent takes for a disconnection.
\<close>

inductive controller_step :: "'a controller_scheme controller_env \<Rightarrow> bool \<Rightarrow> 'a controller_scheme \<Rightarrow> 'a controller_scheme \<Rightarrow> bool"
  for env plain where
  arrives: "controller_step env plain c (c\<lparr>io := io c @ es\<rparr>)"
| polls: "plain \<longrightarrow> io_plain (io c) \<Longrightarrow> controller_poll env c = Inr (w, c') \<Longrightarrow> controller_step env plain c c'"
| handles: "network_poll (poll_handler env) c = Inr (w, c') \<Longrightarrow> controller_step env plain c c'"
| sends: "send_message env m c = Inr (ok, c') \<Longrightarrow> controller_step env plain c c'"
| starts: "onStart env c = Inr c' \<Longrightarrow> controller_step env plain c c'"
| stashes: "controller_step env plain c (stashNotification cat msg c)"
| others: "controller.truncate c' = controller.truncate (c\<lparr>cc_queue := q, cc_metrics := m, cc_scanner := s\<rparr>)
    \<Longrightarrow> controller_step env plain c c'"
| forks: "controller_step env plain c (network_on_fork (controller_on_fork c))"

inductive controller_reach :: "'a controller_scheme controller_env \<Rightarrow> bool \<Rightarrow> 'a controller_scheme \<Rightarrow> 'a controller_scheme \<Rightarrow> bool"
  for env plain start where
  here: "controller_reach env plain start start"
| later: "controller_reach env plain start c \<Longrightarrow> controller_step env plain c c' \<Longrightarrow> controller_reach env plain start c'"

definition controller_initial :: "'a controller_scheme \<Rightarrow> bool" where
  "controller_initial c \<longleftrightarrow>
     (\<exists>prometheus on cd m q. controller.truncate c = CollectorController_init prometheus on cd m q)"

text \<open>
  What the callback given to the constructor does to the controller: it starts reading (\<^verbatim>\<open>Profiler::onSocketConnected\<close>),
  the rest concerns the log writer.
\<close>

locale socket_callback =
  fixes env :: "'a controller_scheme controller_env"
  assumes connect_callback: "controller.truncate (socketConnectHandler env c) = controller.truncate (attemptRead c)"
begin

lemma callback_fields:
  "isConnected (socketConnectHandler env c) = isConnected c" "isSending (socketConnectHandler env c) = isSending c"
  "sock (socketConnectHandler env c) = sock c" "nw_prometheusEnabled (socketConnectHandler env c) = nw_prometheusEnabled c"
  "reading (socketConnectHandler env c) = (if isConnected c then Some HeaderRead else reading c)"
  "armed (socketConnectHandler env c) = armed c" "wire (socketConnectHandler env c) = wire c"
  "io (socketConnectHandler env c) = io c" "net_codec (socketConnectHandler env c) = net_codec c"
  "cc_state (socketConnectHandler env c) = cc_state c" "backoffTimeInMs (socketConnectHandler env c) = backoffTimeInMs c"
  "cc_on (socketConnectHandler env c) = cc_on c" "notifications (socketConnectHandler env c) = notifications c"
  using connect_callback [of c] by (auto simp: controller.truncate_def attemptRead_def)

text \<open>Greeting: whatever becomes of the hello, the agent is then in \<open>SENT_HELLO\<close> with the receive timer running.\<close>

lemma onSocketConnect_result:
  assumes c: "isConnected c \<longrightarrow> sock c" "nw_prometheusEnabled c \<longrightarrow> \<not> sock c" "reading c \<noteq> None \<longrightarrow> isConnected c"
      "AllocationTimer \<notin> armed c"
    and s: "onSocketConnect env (send_message env) c = Inr c'"
  shows "conn_ok c'" "cc_state c' = SENT_HELLO" "isSending c' \<longrightarrow> isSending c" "isConnected c' \<longrightarrow> isConnected c"
    "extends (wire c) (wire c')" "backoffTimeInMs c' = 0"
    "io_plain (io c) \<Longrightarrow> \<not> isSending c \<Longrightarrow> isConnected c' \<Longrightarrow> wire c' = wire c @ [HelloMessage (hello_message env)]"
    "controller.more c' = controller.more (socketConnectHandler env (c\<lparr>cc_state := SOCKET_CONNECTED, backoffTimeInMs := 0\<rparr>))"
    "nw_prometheusEnabled c' = nw_prometheusEnabled c"
proof -
  let ?c1 = "socketConnectHandler env (c\<lparr>cc_state := SOCKET_CONNECTED, backoffTimeInMs := 0\<rparr>)"
  have 1: "conn_ok ?c1" using c by (auto simp: conn_ok_def callback_fields)
  obtain ok c2 where c2: "send_message env (HelloMessage (hello_message env)) ?c1 = Inr (ok, c2)" "c' = onSentHello c2"
    using s by (auto simp: onSocketConnect_def sendHello_def recordWithSize_def bind_result_Inr)
  note r = send_message_result [OF 1 c2(1)]
  have h: "handled extends ?c1 c2" using r by blast
  note d = handledD [OF h 1]
  have f: "isConnected c' = isConnected c2" "isSending c' = isSending c2" "sock c' = sock c2" "wire c' = wire c2"
      "reading c' = reading c2" "armed c' = insert ReceiveTimer (armed c2)" "nw_prometheusEnabled c' = nw_prometheusEnabled c2"
      "backoffTimeInMs c' = backoffTimeInMs c2" "cc_state c' = SENT_HELLO"
    by (simp_all add: c2(2) onSentHello_def scheduleReceiveTimer_def schedule_def resetAgentStatisticsCounters_def)
  show "conn_ok c'" using d(1) unfolding conn_ok_def f by auto
  show "cc_state c' = SENT_HELLO" by (rule f)
  show "isSending c' \<longrightarrow> isSending c" using d(5) by (simp add: f callback_fields)
  show "isConnected c' \<longrightarrow> isConnected c" using d(4) by (simp add: f callback_fields)
  show "extends (wire c) (wire c')" using d(2) by (simp add: f callback_fields)
  show "nw_prometheusEnabled c' = nw_prometheusEnabled c" using d(7) by (simp add: f callback_fields)
  show "backoffTimeInMs c' = 0" using d(9) by (simp add: f callback_fields)
  show "wire c' = wire c @ [HelloMessage (hello_message env)]" if "io_plain (io c)" "\<not> isSending c" "isConnected c'"
    using r that by (auto simp: f callback_fields split: if_splits)
  have "controller.more c' = controller.more c2"
    by (simp add: c2(2) onSentHello_def scheduleReceiveTimer_def schedule_def resetAgentStatisticsCounters_def)
  then show "controller.more c' = controller.more ?c1" using d(11) by simp
qed

lemma attemptConnect_result:
  assumes c: "conn_ok c" "cc_state c = DISCONNECTED" "\<not> isSending c" and s: "attemptConnect env c = Inr (w, c')"
  shows "conn_ok c'" "\<not> isSending c'" "cc_state c' = (if w then SENT_HELLO else DISCONNECTED)"
    "\<not> w \<longrightarrow> \<not> isConnected c' \<and> backoffTimeInMs c' = backoffTimeInMs c" "io_plain (io c) \<Longrightarrow> isConnected c' \<Longrightarrow> wire c' = [HelloMessage (hello_message env)]"
    "if w then \<exists>d. controller.more d = controller.more c \<and> controller.more c' = controller.more (socketConnectHandler env d)
     else controller.more c' = controller.more c"
    "nw_prometheusEnabled c' = nw_prometheusEnabled c"
proof -
  have nc: "\<not> isConnected c" using c by (auto simp: conn_ok_def)
  obtain ok d where d: "connect (nested_handler env) c = Inr (ok, d)"
      "(if ok then bind_result (onSocketConnect env (send_message env) d) (\<lambda>c. Inr (True, c)) else Inr (False, d)) = Inr (w, c')"
    using s by (auto simp: attemptConnect_def bind_result_Inr)
  have "conn_ok c' \<and> \<not> isSending c' \<and> cc_state c' = (if w then SENT_HELLO else DISCONNECTED) \<and>
    (\<not> w \<longrightarrow> \<not> isConnected c' \<and> backoffTimeInMs c' = backoffTimeInMs c) \<and>
    (io_plain (io c) \<longrightarrow> isConnected c' \<longrightarrow> wire c' = [HelloMessage (hello_message env)]) \<and>
    (if w then \<exists>d. controller.more d = controller.more c \<and> controller.more c' = controller.more (socketConnectHandler env d)
     else controller.more c' = controller.more c) \<and> nw_prometheusEnabled c' = nw_prometheusEnabled c"
  proof (cases "nw_prometheusEnabled c")
    case True
    then have e: "d = c" "ok" using d(1) by (auto simp: connect_def)
    then have o: "onSocketConnect env (send_message env) c = Inr c'" "w" using d(2) by (auto simp: bind_result_Inr)
    have "AllocationTimer \<notin> armed c" "isConnected c \<longrightarrow> sock c" "nw_prometheusEnabled c \<longrightarrow> \<not> sock c"
        "reading c \<noteq> None \<longrightarrow> isConnected c" using c(1) unfolding conn_ok_def by blast+
    note r = onSocketConnect_result [OF this(2,3,4,1) o(1)]
    have "\<exists>d. controller.more d = controller.more c \<and> controller.more c' = controller.more (socketConnectHandler env d)"
      by (rule exI [of _ "c\<lparr>cc_state := SOCKET_CONNECTED, backoffTimeInMs := 0\<rparr>"]) (simp add: r(8))
    then show ?thesis using r(1-7,9) c(3) nc o(2) by simp
  next
    case False
    have inner: "conn_ok k2 \<and> \<not> isSending k2 \<and> cc_state k2 = DISCONNECTED \<and> \<not> isConnected k2 \<and>
        backoffTimeInMs k2 = backoffTimeInMs c \<and> nw_prometheusEnabled k2 = nw_prometheusEnabled c \<and>
        controller.more k2 = controller.more c"
      if k: "handled (=) c k" and k2: "k2 = k \<or> handled (=) (k\<lparr>sock := True\<rparr>) k2" for k k2
    proof -
      note h = handledD [OF k c(1)]
      have 1: "cc_state k = DISCONNECTED" using h(3) c(2) by (auto simp: state_moves_def)
      have 2: "\<not> isSending k" "\<not> isConnected k" using h(4,5) c(3) nc by blast+
      have 3: "conn_ok (k\<lparr>sock := True\<rparr>)" using h(1) False h(7) by (simp add: conn_ok_def)
      show ?thesis
      proof (cases "k2 = k")
        case True
        with h(1,7,9,11) 1 2 show ?thesis by simp
      next
        case False
        with k2 have "handled (=) (k\<lparr>sock := True\<rparr>) k2" by blast
        note g = handledD [OF this 3]
        have "cc_state k2 = DISCONNECTED" using g(3) 1 by (auto simp: state_moves_def)
        moreover have "\<not> isSending k2" "\<not> isConnected k2" using g(4,5) 2 by auto
        moreover have "backoffTimeInMs k2 = backoffTimeInMs c" "nw_prometheusEnabled k2 = nw_prometheusEnabled c"
            "controller.more k2 = controller.more c"
          using g(7,9,11) h(7,9,11) by simp_all
        ultimately show ?thesis using g(1) by simp
      qed
    qed
    have failure: ?thesis if "\<not> ok" "d = network_close k2" "handled (=) c k" "k2 = k \<or> handled (=) (k\<lparr>sock := True\<rparr>) k2" for k k2
    proof -
      note i = inner [OF that(3,4)]
      from i have "\<not> isConnected k2 \<or> sock k2" by blast
      note n = network_close_fields [OF this] network_close_ok [of k2]
      show ?thesis using d(2) that(1,2) i n by auto
    qed
    show ?thesis
    proof (rule waiting.connect_keeps [OF d(1) False])
      fix k assume "\<not> ok" "handled (=) c k" "d = network_close k"
      then show ?thesis using failure [of k k] by blast
    next
      fix k k2 assume "\<not> ok" "handled (=) c k" "handled (=) (k\<lparr>sock := True\<rparr>) k2" "d = network_close k2"
      then show ?thesis using failure [of k2 k] by blast
    next
      fix k k2 assume k: "ok" "handled (=) c k" "handled (=) (k\<lparr>sock := True\<rparr>) k2" "sock k2"
        "d = k2\<lparr>isConnected := True, wire := []\<rparr>" "set (io d) \<subseteq> set (io c)"
      note i = inner [OF k(2) disjI2 [OF k(3)]]
      have o: "onSocketConnect env (send_message env) d = Inr c'" "w" using d(2) k(1) by (auto simp: bind_result_Inr)
      have "isConnected d \<longrightarrow> sock d" "nw_prometheusEnabled d \<longrightarrow> \<not> sock d" "reading d \<noteq> None \<longrightarrow> isConnected d"
        "AllocationTimer \<notin> armed d" "\<not> isSending d" "wire d = []"
        using i k(4) False by (simp_all add: k(5) conn_ok_def)
      note r = onSocketConnect_result [OF this(1-4) o(1)] and e = this(5,6)
      have "io_plain (io c) \<longrightarrow> isConnected c' \<longrightarrow> wire c' = [HelloMessage (hello_message env)]"
        using r(7) e io_plain_subset [OF _ k(6)] by auto
      moreover have "\<exists>x. controller.more x = controller.more c \<and> controller.more c' = controller.more (socketConnectHandler env x)"
        by (rule exI [of _ "d\<lparr>cc_state := SOCKET_CONNECTED, backoffTimeInMs := 0\<rparr>"]) (use r(8) i k(5) in simp)
      ultimately show ?thesis using r(1-3,9) e o(2) i k(5) by simp
    qed
  qed
  then show "conn_ok c'" "\<not> isSending c'" "cc_state c' = (if w then SENT_HELLO else DISCONNECTED)"
    "\<not> w \<longrightarrow> \<not> isConnected c' \<and> backoffTimeInMs c' = backoffTimeInMs c" "io_plain (io c) \<Longrightarrow> isConnected c' \<Longrightarrow> wire c' = [HelloMessage (hello_message env)]"
    "if w then \<exists>d. controller.more d = controller.more c \<and> controller.more c' = controller.more (socketConnectHandler env d)
     else controller.more c' = controller.more c" "nw_prometheusEnabled c' = nw_prometheusEnabled c" by blast+
qed

end

definition between :: "bool \<Rightarrow> 'a controller_scheme \<Rightarrow> bool" where
  "between plain c \<longleftrightarrow> conn_ok c \<and> \<not> isSending c \<and> cc_state c \<noteq> SOCKET_CONNECTED \<and> (plain \<longrightarrow> wire_greeted c)"

lemma handled_between:
  assumes "handled extends c c'" "between plain c"
  shows "between plain c'"
proof -
  have c: "conn_ok c" "\<not> isSending c" "cc_state c \<noteq> SOCKET_CONNECTED" using assms(2) by (simp_all add: between_def)
  note h = handledD [OF assms(1) c(1)]
  have "cc_state c' \<noteq> SOCKET_CONNECTED" using h(3) c(3) by (auto simp: state_moves_def)
  moreover have "wire_greeted c \<Longrightarrow> wire_greeted c'" using h(2,4) by (auto simp: wire_greeted_def extends_def)
  ultimately show ?thesis using h(1,5) c(2) assms(2) by (auto simp: between_def)
qed

lemma same_core_between:
  assumes "controller.truncate c' = controller.truncate (c\<lparr>cc_queue := q, cc_metrics := m, cc_scanner := s\<rparr>)"
  shows "between plain c' = between plain c"
  using assms by (simp add: controller.truncate_def between_def conn_ok_def wire_greeted_def)

lemma initial_between: "controller_initial c \<Longrightarrow> between plain c"
  by (auto simp: controller_initial_def controller.truncate_def CollectorController_init_def network.extend_def Network_init_def
    between_def conn_ok_def wire_greeted_def)

lemma backoff_step:
  assumes "backoff_ok b" "b \<noteq> 0"
  defines "b' \<equiv> min (word_of_nat (unat b * 3 div 2)) MAX_BACKOFF_TIME_IN_MS"
  shows "unat b' = min (unat b * 3 div 2) 60000" "backoff_ok b'"
proof -
  have b: "1000 \<le> unat b" "unat b \<le> 60000"
    using assms(1,2) by (simp_all add: backoff_ok_def MIN_BACKOFF_TIME_IN_MS_def MAX_BACKOFF_TIME_IN_MS_def word_le_nat_alt)
  then have u: "unat (word_of_nat (unat b * 3 div 2) :: u32) = unat b * 3 div 2" by (simp add: unat_of_nat)
  show 1: "unat b' = min (unat b * 3 div 2) 60000"
    unfolding b'_def MAX_BACKOFF_TIME_IN_MS_def by (simp add: min_def word_le_nat_alt u)
  have "1000 \<le> unat b'" "unat b' \<le> 60000" using 1 b by simp_all
  then show "backoff_ok b'"
    by (simp add: backoff_ok_def MIN_BACKOFF_TIME_IN_MS_def MAX_BACKOFF_TIME_IN_MS_def word_le_nat_alt)
qed

lemma backoff_result:
  "conn_ok c \<Longrightarrow> conn_ok (snd (backoff env c)) \<and> isSending (snd (backoff env c)) = isSending c \<and>
   cc_state (snd (backoff env c)) = cc_state c \<and> io (snd (backoff env c)) = io c"
  using backoff_step [of "backoffTimeInMs c"] by (auto simp: backoff_def conn_ok_def Let_def)

lemma fork_between: "between plain c \<Longrightarrow> between plain (network_on_fork (controller_on_fork c))"
  by (auto simp: between_def conn_ok_def wire_greeted_def controller_on_fork_def network_on_fork_def network_close_def closeSocket_def)

context socket_callback
begin

lemma controller_step_between:
  assumes "controller_step env plain c c'" "between plain c"
  shows "between plain c'"
  using assms
proof cases
  case (arrives es)
  have "handled extends c (c\<lparr>io := io c @ es\<rparr>)" by (rule io_handled) simp
  with arrives assms(2) handled_between show ?thesis by blast
next
  case (polls w)
  show ?thesis
  proof (cases "cc_state c = DISCONNECTED")
    case True
    let ?d = "snd (backoff env c)"
    have c: "conn_ok c" "\<not> isSending c" using assms(2) by (simp_all add: between_def)
    have s: "attemptConnect env ?d = Inr (w, c')" using polls True by (simp add: controller_poll_def)
    have d: "conn_ok ?d" "cc_state ?d = DISCONNECTED" "\<not> isSending ?d" "io ?d = io c" using backoff_result [OF c(1)] True c(2) by simp_all
    from attemptConnect_result(1-5) [OF d(1-3) s] polls(1) d(4) show ?thesis by (auto simp: between_def wire_greeted_def)
  next
    case False
    with polls assms(2) show ?thesis by (simp add: controller_poll_def)
  qed
next
  case (handles w)
  from chatter_extends [OF polling.network_poll_keeps [OF this]] handled_between assms(2) show ?thesis by blast
next
  case (sends m ok)
  from send_message_handled [OF this] handled_between assms(2) show ?thesis by blast
next
  case starts
  have "cc_state c \<noteq> SOCKET_CONNECTED" using assms(2) by (simp add: between_def)
  then have "c' = c \<or> (\<exists>pr er. startProfiling env pr er True True c = Inr c')"
    using starts by (auto simp: onStart_def split: if_splits)
  then have "aside c c'" using startProfiling_aside by (auto simp: aside_def [of c c])
  then have "handled extends c c'" by (rule aside_handled) simp
  with handled_between assms(2) show ?thesis by blast
next
  case (stashes cat msg)
  have "aside c c'" by (simp add: stashes stashNotification_def aside_def)
  then have "handled extends c c'" by (rule aside_handled) simp
  with handled_between assms(2) show ?thesis by blast
next
  case (others q m s)
  from same_core_between [OF this] assms(2) show ?thesis by blast
next
  case forks
  with fork_between assms(2) show ?thesis by blast
qed

lemma controller_reach_between: "controller_reach env plain start c \<Longrightarrow> between plain start \<Longrightarrow> between plain c"
  by (induction rule: controller_reach.induct) (auto intro: controller_step_between)

end

end
