(* ===== verification/Log_Writer.thy ===== *)
theory Log_Writer
  imports Collector_Controller Symbol_Table Text_Format Signal_Capture
begin

text \<open>
  \<^verbatim>\<open>src/lib/log_writer.h\<close> and \<^verbatim>\<open>src/lib/log_writer.cpp\<close>: the queue's listener that turns what was queued into messages to
  the collector, announcing the files and functions a stack sample refers to as they are first met. The messages also
  go to a log file when one is configured.
\<close>

section \<open>State\<close>

record log_writer = controller +
  lw_output :: "AgentEnvelope list option"
  lw_symbols :: symbols
  threadIdToInformation :: "i32 \<Rightarrow> (u64 \<times> string) option"
  allocationsTable :: "((u64 option \<times> bool) \<times> (u32 \<times> u64)) list"

text \<open>
  What the log writer asks the system: debug information, \<open>pthread_getname_np\<close> (an error number or a name) and
  protobuf's test for UTF-8.
\<close>

record writer_env =
  we_sizes :: QueueSizes
  we_debug_info :: debug_info
  pthread_getname_np :: "u64 \<Rightarrow> int + string"
  IsStructurallyValidUTF8 :: "string \<Rightarrow> bool"

definition ENOENT :: int where "ENOENT = 2"

type_synonym 'a writer_op = "'a log_writer_scheme \<Rightarrow> agent_fault + 'a log_writer_scheme"

section \<open>Sending\<close>

definition lw_recordWithSize :: "'a log_writer_scheme sender \<Rightarrow> AgentEnvelope \<Rightarrow> 'a writer_op" where
  "lw_recordWithSize send envelope c =
     recordWithSize send envelope (c\<lparr>lw_output := map_option (\<lambda>written. written @ [envelope]) (lw_output c)\<rparr>)"

definition onNewFile :: "'a log_writer_scheme sender \<Rightarrow> u64 \<Rightarrow> string \<Rightarrow> 'a writer_op" where
  "onNewFile send fileId fileName c = lw_recordWithSize send (ModuleInformation fileId fileName []) c"

definition onNewFunction :: "'a log_writer_scheme sender \<Rightarrow> u64 \<Rightarrow> string \<Rightarrow> u64 \<Rightarrow> 'a writer_op" where
  "onNewFunction send functionId func fileId c = lw_recordWithSize send (MethodInformation functionId fileId func) c"

fun announce :: "'a log_writer_scheme sender \<Rightarrow> announcement list \<Rightarrow> 'a writer_op" where
  "announce send [] c = Inr c"
| "announce send (NewFile i f # as) c = bind_result (onNewFile send i f c) (announce send as)"
| "announce send (NewFunction i n fid # as) c = bind_result (onNewFunction send i n fid c) (announce send as)"

text \<open>
  A lookup, with the messages its callbacks send. They touch nothing the lookup reads, so they are sent when it returns.
\<close>

definition lw_lookup_locations :: "writer_env \<Rightarrow> 'a log_writer_scheme sender \<Rightarrow> u64 \<Rightarrow> bool \<Rightarrow> 'a log_writer_scheme
    \<Rightarrow> agent_fault + Location list \<times> 'a log_writer_scheme" where
  "lw_lookup_locations we send pc foreign c =
     (case lookup_locations (we_debug_info we) pc foreign (lw_symbols c) of
        Inl _ \<Rightarrow> Inl CallbackFault
      | Inr (locations, s) \<Rightarrow>
          bind_result (announce send (drop (length (announced (lw_symbols c))) (announced s)) (c\<lparr>lw_symbols := s\<rparr>)) (\<lambda>c.
            Inr (locations, c)))"

section \<open>Stack samples\<close>

definition setSampleType :: "int \<Rightarrow> 'a controller_scheme \<Rightarrow> SampleTimeType \<times> u64" where
  "setSampleType signal c =
     (if signal = SIGPROF then (PROCESS_TIME, processTimeStackSampleIntervalMillis c)
      else if signal = SIGALRM then (ELAPSED_TIME, elapsedTimeStackSampleIntervalMillis c)
      else (ALLOCATION, 0))"

definition setSampleTime :: "timespec \<Rightarrow> u64" where
  "setSampleTime ts = word_of_int (toMillis ts)"

text \<open>The thread's name; the cache is keyed by the low 32 bits of the thread's id.\<close>

definition threadName :: "writer_env \<Rightarrow> u64 \<Rightarrow> 'a log_writer_scheme \<Rightarrow> string \<times> 'a log_writer_scheme" where
  "threadName we tid c =
     (case threadIdToInformation c (ucast tid) of
        Some (_, name) \<Rightarrow> (name, c)
      | None \<Rightarrow>
          (let (name, c) = (case pthread_getname_np we tid of
                  Inl ret \<Rightarrow>
                    (''Unknown'',
                     if ret \<noteq> ENOENT then c\<lparr>cc_queue := snd (pushNotification (we_sizes we) USER_ERROR
                           ''Error from pthread_getname_np: '' ret (cc_queue c))\<rparr>
                     else c)
                | Inr name \<Rightarrow> (name, c));
               name = (if IsStructurallyValidUTF8 we name then name else ''Invalid'')
           in (name, c\<lparr>threadIdToInformation := (threadIdToInformation c)(ucast tid \<mapsto> (tid, name))\<rparr>)))"

definition addFrames :: "Location list \<Rightarrow> bool \<Rightarrow> CompressedFrameEntry list \<Rightarrow> CompressedFrameEntry list" where
  "addFrames locations isError entries =
     (if isError then entries
      else entries @ map (\<lambda>l. \<lparr>fe_methodId = methodId l, fe_line = word_of_int (lineNumber l)\<rparr>) locations)"

fun lookup_frames :: "writer_env \<Rightarrow> 'a log_writer_scheme sender \<Rightarrow> CallFrame list \<Rightarrow> bool \<Rightarrow> CompressedFrameEntry list
    \<Rightarrow> 'a log_writer_scheme \<Rightarrow> agent_fault + CompressedFrameEntry list \<times> 'a log_writer_scheme" where
  "lookup_frames we send [] isError entries c = Inr (entries, c)"
| "lookup_frames we send (f # fs) isError entries c =
     bind_result (lw_lookup_locations we send (frame f) (isForeign f) c) (\<lambda>(locations, c).
       lookup_frames we send fs isError (addFrames locations isError entries) c)"

text \<open>
  The listener's own fault is a read behind the frames of a trace; \<open>frames_within\<close>: the frames looked up, from the first
  below the signal handler's on, are all in the buffer the trace points to.
\<close>

datatype writer_fault = SendFault agent_fault | FramesOverread

definition frames_within :: "CallTrace \<Rightarrow> bool" where
  "frames_within trace \<longleftrightarrow>
     nat \<bar>num_frames trace\<bar> \<le> NUMBER_OF_SIGNAL_HANDLER_FRAMES \<or> nat \<bar>num_frames trace\<bar> \<le> length (frames trace)"

text \<open>
  A negative number of frames marks a broken trace: its frames are looked up (and announced) for the debug log only. The
  frames of the signal handler are skipped. Nothing bounds the number by the size of the buffer: a larger one reads on
  behind its end, which is undefined behaviour.
\<close>

definition lw_recordStackTrace :: "writer_env \<Rightarrow> 'a log_writer_scheme sender \<Rightarrow> timespec \<Rightarrow> CallTrace \<Rightarrow> int \<Rightarrow> int
    \<Rightarrow> 'a log_writer_scheme \<Rightarrow> writer_fault + 'a log_writer_scheme" where
  "lw_recordStackTrace we send ts trace signal state c =
     (let (sampleType, rate) = setSampleType signal c;
          (name, c) = threadName we (ct_threadId trace) c;
          isError = num_frames trace < 0;
          numFrames = (if isError then - 1 * num_frames trace else num_frames trace)
      in bind_result
           (map_sum SendFault id
              (lookup_frames we send (drop NUMBER_OF_SIGNAL_HANDLER_FRAMES (take (nat numFrames) (frames trace))) isError [] c))
           (\<lambda>(entries, c). if \<not> frames_within trace then Inl FramesOverread
            else map_sum SendFault id (lw_recordWithSize send (StackSampleMessage
              \<lparr>ss_type = sampleType, sample_rate_millis = rate, ss_time_epoch_millis = setSampleTime ts,
               thread_id = ucast (ct_threadId trace), thread_name = name, has_max_frames = (numFrames \<ge> MAX_FRAMES),
               error_code = (if isError then num_frames trace else 0), compressedFrames = entries, thread_state = state\<rparr>) c)))"

section \<open>Allocations\<close>

fun add_allocation :: "(u64 option \<times> bool) \<Rightarrow> u64 \<Rightarrow> ((u64 option \<times> bool) \<times> (u32 \<times> u64)) list
    \<Rightarrow> ((u64 option \<times> bool) \<times> (u32 \<times> u64)) list" where
  "add_allocation key bytes [] = [(key, (1, bytes))]"
| "add_allocation key bytes ((k, (n, tot)) # rows) =
     (if k = key then (k, (n + 1, tot + bytes)) # rows else (k, (n, tot)) # add_allocation key bytes rows)"

definition lw_recordAllocation :: "u64 \<Rightarrow> bool \<Rightarrow> u64 option \<Rightarrow> 'a log_writer_scheme \<Rightarrow> 'a log_writer_scheme" where
  "lw_recordAllocation bytes outside symbol c =
     c\<lparr>allocationsTable := add_allocation (symbol, outside) bytes (allocationsTable c)\<rparr>"

definition lw_recordAllocationTable :: "'a log_writer_scheme sender \<Rightarrow> 'a writer_op" where
  "lw_recordAllocationTable send c =
     bind_result
       (lw_recordWithSize send (AllocationTable 0 (map (\<lambda>((symbol, outside), (n, tot)).
          \<lparr>row_symbol = (case symbol of None \<Rightarrow> 0 | Some p \<Rightarrow> p), number_of_allocations = n, total_bytes_allocated = tot,
           row_outside_tlab = outside\<rparr>) (allocationsTable c))) c)
       (\<lambda>c. Inr (c\<lparr>allocationsTable := []\<rparr>))"

section \<open>Notifications and metrics\<close>

text \<open>Before the collector has answered the hello, notifications are left with the controller.\<close>

definition lw_recordNotification :: "'a log_writer_scheme sender \<Rightarrow> NotificationCategory \<Rightarrow> string \<Rightarrow> int \<Rightarrow> 'a writer_op" where
  "lw_recordNotification send cat initialPayload v c =
     (let msg = (if v \<noteq> 0 then initialPayload @ show_int v else initialPayload)
      in if controller_isConnected c then lw_recordWithSize send (NotificationMessage msg cat) c
         else Inr (stashNotification cat msg c))"

fun mapDataType :: "MetricDataType \<Rightarrow> ProtoDataType" where
  "mapDataType DataType_LONG = PROTO_LONG"
| "mapDataType DataType_STRING = PROTO_STRING"
| "mapDataType DataType_INVALID = PROTO_UNKNOWN_TYPE"

fun mapVariability :: "MetricVariability \<Rightarrow> ProtoVariability" where
  "mapVariability Variability_CONSTANT = PROTO_CONSTANT"
| "mapVariability Variability_MONOTONIC = PROTO_COUNTER"
| "mapVariability Variability_VARIABLE = PROTO_VARIABLE"
| "mapVariability Variability_INVALID = PROTO_UNKNOWN_VARIABILITY"

fun mapUnit :: "MetricUnit \<Rightarrow> ProtoUnit" where
  "mapUnit Unit_NONE = PROTO_NONE"
| "mapUnit Unit_BYTES = PROTO_BYTES"
| "mapUnit Unit_TICKS = PROTO_TICKS"
| "mapUnit Unit_EVENTS = PROTO_EVENTS"
| "mapUnit Unit_STRING = PROTO_UNIT_STRING"
| "mapUnit Unit_HERTZ = PROTO_HERTZ"
| "mapUnit Unit_MILLISECONDS = PROTO_MILLISECONDS"
| "mapUnit Unit_NANOSECONDS = PROTO_NANOSECONDS"
| "mapUnit Unit_INVALID = PROTO_UNKNOWN_UNIT"

definition lw_recordMetricInformation :: "'a log_writer_scheme sender \<Rightarrow> MetricInformation \<Rightarrow> 'a writer_op" where
  "lw_recordMetricInformation send info c =
     lw_recordWithSize send (MetricInformationMessage (mi_id info) (mi_name info) (mapDataType (mi_dataType info))
       (mapVariability (mi_variability info)) (mapUnit (mi_unit info))) c"

definition metric_value :: "MetricData \<Rightarrow> sample_value" where
  "metric_value d = (case md_type d of
     DataType_STRING \<Rightarrow> StringValue (valueString d) | DataType_LONG \<Rightarrow> LongValue (valueLong d) | DataType_INVALID \<Rightarrow> NoValue)"

definition lw_recordMetricSamples :: "'a log_writer_scheme sender \<Rightarrow> int \<Rightarrow> MetricSample list \<Rightarrow> 'a writer_op" where
  "lw_recordMetricSamples send millis samples c =
     lw_recordWithSize send (MetricSamplesMessage (word_of_int millis)
       (map (\<lambda>s. (ms_id s, metric_value (ms_data s))) samples)) c"

definition lw_recordConstantMetricsComplete :: "'a log_writer_scheme sender \<Rightarrow> 'a writer_op" where
  "lw_recordConstantMetricsComplete send c = lw_recordWithSize send ConstantMetricsCompleteMessage c"

section \<open>The listener\<close>

definition lw_onSocketConnected :: "'a log_writer_scheme \<Rightarrow> 'a log_writer_scheme" where
  "lw_onSocketConnected c = c\<lparr>lw_symbols := clear_symbols (lw_symbols c)\<rparr>"

fun log_writer_listener :: "writer_env \<Rightarrow> 'a log_writer_scheme sender \<Rightarrow> QueueEvent \<Rightarrow> 'a log_writer_scheme
    \<Rightarrow> writer_fault + 'a log_writer_scheme" where
  "log_writer_listener we send (RecordStackTrace ts trace signal state tsc) c = lw_recordStackTrace we send ts trace signal state c"
| "log_writer_listener we send (RecordThread tid name) c = Inr c"
| "log_writer_listener we send (RecordAllocation bytes outside symbol) c = Inr (lw_recordAllocation bytes outside symbol c)"
| "log_writer_listener we send (RecordNotification cat msg v) c = map_sum SendFault id (lw_recordNotification send cat msg v c)"
| "log_writer_listener we send (RecordMetricInformation info) c = map_sum SendFault id (lw_recordMetricInformation send info c)"
| "log_writer_listener we send (RecordMetricSamples t samples) c = map_sum SendFault id (lw_recordMetricSamples send t samples c)"
| "log_writer_listener we send RecordConstantMetricsComplete c =
     map_sum SendFault id (lw_recordConstantMetricsComplete send c)"

definition LogWriter_init :: "AgentEnvelope list option \<Rightarrow> symbols \<Rightarrow> controller \<Rightarrow> log_writer" where
  "LogWriter_init out s c = controller.extend c
     \<lparr>lw_output = out, lw_symbols = init_symbols LogWriterError True True s, threadIdToInformation = Map.empty,
      allocationsTable = []\<rparr>"

section \<open>The profiler's callbacks\<close>

text \<open>\<^verbatim>\<open>src/lib/profiler.cpp\<close> binds the controller's callbacks to the protocol handler and the log writer.\<close>

definition profiler_onSocketConnected :: "'a log_writer_scheme \<Rightarrow> 'a log_writer_scheme" where
  "profiler_onSocketConnected c = lw_onSocketConnected (attemptRead c)"

definition profiler_recordAllocationTable :: "'a log_writer_scheme sender \<Rightarrow> 'a writer_op" where
  "profiler_recordAllocationTable send c = lw_recordAllocationTable send c"

definition profiler_env :: "'a log_writer_scheme controller_env \<Rightarrow> 'a log_writer_scheme controller_env" where
  "profiler_env env = env\<lparr>socketConnectHandler := profiler_onSocketConnected,
     recordAllocationTableHandler := profiler_recordAllocationTable\<rparr>"

interpretation agent: socket_callback "profiler_env env" for env :: "'a log_writer_scheme controller_env"
  by unfold_locales (simp add: profiler_env_def profiler_onSocketConnected_def lw_onSocketConnected_def controller.truncate_def)

lemma LogWriter_initial: "controller_initial (LogWriter_init out s (CollectorController_init prometheus on cd m q))"
proof -
  have "controller.truncate (LogWriter_init out s (CollectorController_init prometheus on cd m q)) =
      CollectorController_init prometheus on cd m q"
    by (simp add: LogWriter_init_def controller.truncate_def controller.extend_def CollectorController_init_def
      network.extend_def Network_init_def)
  then show ?thesis unfolding controller_initial_def by blast
qed

end
