(* ===== verification/Collector_Properties.thy ===== *)
theory Collector_Properties
  imports Log_Writer
begin

text \<open>
  Properties of the collector controller with the profiler's callbacks, over every sequence of \<open>controller_step\<close>s: the
  back-off, and what goes wrong after a write that times out, a fork in Prometheus
  mode and a fork during a send.
\<close>

section \<open>Between the steps\<close>

lemma agent_between: "controller_initial start \<Longrightarrow> controller_reach (profiler_env env) plain start c \<Longrightarrow> between plain c"
  using agent.controller_reach_between initial_between by blast

lemma all_timers: "armed c - {SendTimer, ReceiveTimer, AllocationTimer, AgentStatisticsTimer} = {}"
  by (auto intro: timer.exhaust)

section \<open>The back-off\<close>

text \<open>C24: In every reachable state the first attempt to connect is made at once and sets the back-off to one second; every
  later one waits at least the new back-off and at most a second more, the new back-off being one and a half times the
  old one, rounded down, but never more than a minute. Nothing wraps around.\<close>

theorem backoff_waits:
  fixes c :: "'a log_writer_scheme"
  assumes "controller_initial start" "controller_reach (profiler_env env) False start c"
    and dist: "\<And>s. ce_dist env s \<le> RANDOMISATION_RANGE_IN_MS" and w: "backoff (profiler_env env) c = (w, c')"
  shows "1000 \<le> unat (backoffTimeInMs c') \<and> unat (backoffTimeInMs c') \<le> 60000 \<and>
    (case w of
       None \<Rightarrow> backoffTimeInMs c = 0 \<and> unat (backoffTimeInMs c') = 1000
     | Some ms \<Rightarrow> unat (backoffTimeInMs c') = min (unat (backoffTimeInMs c) * 3 div 2) 60000 \<and>
         unat (backoffTimeInMs c') \<le> unat ms \<and> unat ms \<le> unat (backoffTimeInMs c') + 1000)"
proof (cases "backoffTimeInMs c = 0")
  case True
  with w show ?thesis by (auto simp: backoff_def MIN_BACKOFF_TIME_IN_MS_def)
next
  case False
  let ?b = "min (word_of_nat (unat (backoffTimeInMs c) * 3 div 2)) MAX_BACKOFF_TIME_IN_MS"
  have "backoff_ok (backoffTimeInMs c)" using agent_between [OF assms(1,2)] by (simp add: between_def conn_ok_def)
  note b = backoff_step [OF this False]
  define r where "r = ce_dist env (c\<lparr>backoffTimeInMs := ?b\<rparr>)"
  have r: "unat r \<le> 1000" using dist unfolding r_def by (simp add: RANDOMISATION_RANGE_IN_MS_def word_le_nat_alt)
  have u: "1000 \<le> unat ?b" "unat ?b \<le> 60000" "?b \<noteq> 0"
  proof -
    have "1000 \<le> unat (backoffTimeInMs c)" using \<open>backoff_ok (backoffTimeInMs c)\<close> False
      by (simp add: backoff_ok_def MIN_BACKOFF_TIME_IN_MS_def word_le_nat_alt)
    then show "1000 \<le> unat ?b" "unat ?b \<le> 60000" using b(1) by simp_all
    then show "?b \<noteq> 0" by auto
  qed
  have s: "unat (?b + r) = unat ?b + unat r" using u(2) r by (simp add: unat_word_ariths)
  have "w = Some (?b + r)" "backoffTimeInMs c' = ?b"
    using w False unfolding r_def by (auto simp: backoff_def Let_def profiler_env_def)
  with b(1) u r s show ?thesis by simp
qed

section \<open>Writes that time out\<close>

text \<open>C36: A write that times out closes the socket and nothing else: the agent stays in the state it was in, does not try to
  reconnect, and refuses every message until the receive timer expires.\<close>

theorem write_timeout_unnoticed:
  assumes "isConnected c" "\<not> isSending c" "sock c" "io c = Timeout # es"
  shows "\<exists>c'. send_message env m c = Inr (False, c') \<and> \<not> isConnected c' \<and> cc_state c' = cc_state c \<and> armed c' = armed c \<and>
    wire c' = wire c \<and> (cc_state c \<noteq> DISCONNECTED \<longrightarrow> controller_poll env c' = Inr (False, c')) \<and>
    (\<forall>m'. send_message env m' c' = Inr (False, c'))"
proof -
  let ?c = "(closeSocket (c\<lparr>isSending := True, io := []\<rparr>))\<lparr>io := es, isSending := False\<rparr>"
  have s: "send_message env m c = Inr (False, ?c)"
    using assms by (simp add: send_message_def sendWithSize_def await_def onTimerRun_def is_disconnect_def)
  have f: "\<not> isConnected ?c" "cc_state ?c = cc_state c" "armed ?c = armed c" "wire ?c = wire c" "\<not> isSending ?c"
    using assms(3) by (simp_all add: closeSocket_def)
  have "send_message env m' ?c = Inr (False, ?c)" for m'
    using f(1) by (simp add: send_message_def sendWithSize_def)
  then show ?thesis using s f by (intro exI [of _ ?c]) (simp add: controller_poll_def)
qed

text \<open>When the collector's first answer arrives while another message is being written, the notifications stashed
  since the start are dropped: none is sent and none is kept.\<close>

lemma stashed_notifications_lost:
  assumes "isSending c" "isConnected c" "cc_state c = SENT_HELLO" "onSampleRate env refuse_send sr c = Inr c'"
  shows "notifications c' = [] \<and> wire c' = wire c \<and> cc_state c' = CONNECTED \<and> (\<forall>h d m. sendWithSize h d m c = Inr (False, c))"
proof -
  have each: "send_each refuse_send ns d = Inr d" if "isConnected d" for ns and d :: "'a controller_scheme"
    using that by (induction ns) (auto simp: recordWithSize_def refuse_send_def)
  obtain d where d: "startProfiling env (process_time_stack_sample_rate_millis sr) (elapsed_time_stack_sample_rate_millis sr)
          (switch_process_time_profiling_on sr) (switch_elapsed_time_profiling_on sr) c = Inr d"
    using assms(4) unfolding onSampleRate_def bind_result_Inr by blast
  have a: "isConnected d" "wire d = wire c" "cc_state d = SENT_HELLO" using startProfiling_aside [OF d] assms by (simp_all add: aside_def)
  have "\<forall>h k m. sendWithSize h k m c = Inr (False, c)" using assms(1,2) by (simp add: sendWithSize_def)
  moreover have "notifications c' = [] \<and> wire c' = wire c \<and> cc_state c' = CONNECTED"
    using assms(4) d a each by (auto simp: onSampleRate_def Let_def onFirstSampleRate_def sendStashedNotifications_def
      scheduleAgentStatisticsTimer_def scheduleReceiveTimer_def scheduleSendTimer_def schedule_def)
  ultimately show ?thesis by blast
qed

section \<open>Forks\<close>

text \<open>A child of an agent in Prometheus mode goes looking for a collector.\<close>

definition lost_mode :: "'a controller_scheme \<Rightarrow> bool" where
  "lost_mode c \<longleftrightarrow> conn_ok c \<and> \<not> isSending c \<and> nw_prometheusEnabled c \<and> (cc_state c = DISCONNECTED \<or> cc_state c = SENT_HELLO)"

lemma lost_mode_handled:
  assumes "handled W c c'" "lost_mode c"
  shows "lost_mode c'"
proof -
  have c: "conn_ok c" "\<not> isConnected c" using assms(2) by (auto simp: lost_mode_def conn_ok_def)
  note h = handledD [OF assms(1) c(1)]
  have "cc_state c' = cc_state c \<or> cc_state c' = DISCONNECTED" using h(3) c(2) by (auto simp: state_moves_def)
  then show ?thesis using h(1,5,7) assms(2) by (auto simp: lost_mode_def)
qed

lemma lost_mode_step:
  fixes c :: "'a log_writer_scheme"
  assumes "controller_step (profiler_env env) plain c c'" "lost_mode c"
  shows "lost_mode c'"
  using assms(1)
proof cases
  case (arrives es)
  have "handled extends c (c\<lparr>io := io c @ es\<rparr>)" by (rule io_handled) simp
  with arrives assms(2) lost_mode_handled show ?thesis by blast
next
  case (polls w)
  let ?d = "snd (backoff (profiler_env env) c)"
  show ?thesis
  proof (cases "cc_state c = DISCONNECTED")
    case True
    then have a: "attemptConnect (profiler_env env) ?d = Inr (w, c')" using polls by (simp add: controller_poll_def)
    have d: "conn_ok ?d" "cc_state ?d = DISCONNECTED" "\<not> isSending ?d" "nw_prometheusEnabled ?d"
      using backoff_result [of c "profiler_env env"] assms(2) True by (auto simp: lost_mode_def backoff_def Let_def)
    from agent.attemptConnect_result [OF d(1-3) a] d(4) show ?thesis by (auto simp: lost_mode_def split: if_splits)
  next
    case False
    with polls assms(2) show ?thesis by (simp add: controller_poll_def)
  qed
next
  case (handles w)
  from lost_mode_handled [OF polling.network_poll_keeps [OF this] assms(2)] show ?thesis .
next
  case (sends m ok)
  from lost_mode_handled [OF send_message_handled [OF this] assms(2)] show ?thesis .
next
  case starts
  then have "c' = c" using assms(2) by (auto simp: onStart_def lost_mode_def)
  with assms(2) show ?thesis by simp
next
  case (stashes cat msg)
  with assms(2) show ?thesis by (simp add: lost_mode_def stashNotification_def conn_ok_def)
next
  case (others q m s)
  then show ?thesis using assms(2) by (auto simp: lost_mode_def conn_ok_def controller.truncate_def)
next
  case forks
  with assms(2) show ?thesis
    by (auto simp: lost_mode_def conn_ok_def network_on_fork_def controller_on_fork_def network_close_def closeSocket_def)
qed

text \<open>C38: When an agent in Prometheus mode forks, the child is never active again, whatever happens: it exports nothing, and no
  event is ever taken off its queue.\<close>

theorem prometheus_child_never_active:
  fixes c :: "'a log_writer_scheme"
  assumes "controller_initial start" "controller_reach (profiler_env env) plain start c" "nw_prometheusEnabled c"
    and child: "controller_reach (profiler_env env) plain (network_on_fork (controller_on_fork c)) c'"
  shows "\<not> isActive c'"
proof -
  have "lost_mode (network_on_fork (controller_on_fork c))"
    using agent_between [OF assms(1,2)] assms(3)
    by (auto simp: lost_mode_def between_def conn_ok_def network_on_fork_def controller_on_fork_def network_close_def closeSocket_def)
  with child have "lost_mode c'" by (induction rule: controller_reach.induct) (auto intro: lost_mode_step)
  then show ?thesis by (auto simp: lost_mode_def isActive_def controller_isConnected_def)
qed

text \<open>Handlers that are not among the events to come make no difference to a connection attempt.\<close>

interpretation any_loop: run_loop h "\<lambda>_ _. True" for h :: "io_event \<Rightarrow> 'a network_scheme \<Rightarrow> agent_fault + 'a network_scheme"
  by unfold_locales simp_all

lemma awaitCompletion_same:
  assumes "\<And>e n. e \<in> set es \<Longrightarrow> h e n = h' e n"
  shows "awaitCompletion h doClose cancellable fired es n = awaitCompletion h' doClose cancellable fired es n"
  using assms
proof (induction es arbitrary: fired n)
  case (Cons e es)
  then have "awaitCompletion h doClose cancellable fired es n = awaitCompletion h' doClose cancellable fired es n" for fired n by simp
  with Cons.prems [of e] show ?case by (cases e; cases doClose) (simp_all add: Let_def cong: if_cong)
qed simp

lemma connect_same:
  assumes same: "\<And>e m. e \<in> set (io n) \<Longrightarrow> h e m = h' e m"
  shows "connect h n = connect h' n"
proof -
  have aw: "await h doClose cancellable k = await h' doClose cancellable k" if "set (io k) \<subseteq> set (io n)" for doClose cancellable k
    unfolding await_def by (subst awaitCompletion_same [of "io k" h h']) (use that same in blast, rule refl)
  have one: "run_one h k = run_one h' k" if "set (io k) \<subseteq> set (io n)" for k
    using that same by (cases "io k") (simp_all add: run_one_def)
  have first: "await h False False n = await h' False False n" by (rule aw) simp
  show ?thesis
  proof (cases "await h' False False n")
    case (Inr r)
    obtain ec fired k where r: "r = (ec, fired, k)" by (cases r)
    have "set (io k) \<subseteq> set (io n)" using any_loop.await_keeps [OF Inr [unfolded r]] by blast
    then have "run_one h k = run_one h' k" "await h True True (k\<lparr>sock := True\<rparr>) = await h' True True (k\<lparr>sock := True\<rparr>)"
      by (simp_all add: one aw)
    then show ?thesis by (simp add: connect_def first Inr r)
  qed (simp add: connect_def first)
qed

text \<open>A child inside a send: the timers the parent had armed beside the receive timer do not expire.\<close>

definition mute :: "timer set \<Rightarrow> 'a controller_scheme \<Rightarrow> bool" where
  "mute idle c \<longleftrightarrow> isSending c \<and> \<not> isConnected c \<and> reading c = None \<and> armed c \<subseteq> insert ReceiveTimer idle"

definition without :: "timer set \<Rightarrow> (io_event \<Rightarrow> 'a controller_scheme \<Rightarrow> agent_fault + 'a controller_scheme) \<Rightarrow> io_event
    \<Rightarrow> 'a controller_scheme \<Rightarrow> agent_fault + 'a controller_scheme" where
  "without idle h e c = (if e \<in> Expired ` (idle - {ReceiveTimer}) then Inr c else h e c)"

lemma onDisconnect_network:
  "isSending (onDisconnect env c) = isSending c" "isConnected (onDisconnect env c) = (isConnected c \<and> \<not> sock c)"
  "reading (onDisconnect env c) = (if sock c then None else reading c)"
  "armed (onDisconnect env c) = {}"
  using all_timers [of c] by (simp_all add: onDisconnect_def network_close_def closeSocket_def Let_def)

interpretation muted: run_loop "without idle (nested_handler env)" "\<lambda>c c'. mute idle c \<longrightarrow> mute idle c'"
  for idle and env :: "'a controller_scheme controller_env"
proof
  fix e and c c' :: "'a controller_scheme"
  assume s: "without idle (nested_handler env) e c = Inr c'"
  have "onReceiveTimer env (c\<lparr>armed := armed c - {ReceiveTimer}\<rparr>) = c' \<Longrightarrow> mute idle c \<Longrightarrow> mute idle c'"
    by (auto simp: mute_def onReceiveTimer_def scheduleReceiveTimer_def schedule_def onDisconnect_network)
  then show "mute idle c \<longrightarrow> mute idle c'" using s
    by (auto simp: without_def nested_handler_def io_handler_def mute_def onTimer_def onRead_def split: io_event.splits if_splits timer.splits)
qed (auto simp: mute_def closeSocket_def)

text \<open>C37: A fork taken while the processor thread is inside a send leaves the flag that a send is in progress set in the
  child: on the connection the child opens, the hello and every other message are refused. This supposes that none of
  the send, statistics and allocation timers the parent had armed expires while the child connects (a heartbeat or the
  statistics tried on the closed connection would reset the flag); the receive timer may.\<close>

theorem fork_inside_send_is_mute:
  fixes c :: "'a log_writer_scheme"
  assumes "isSending c" "conn_ok c" "\<forall>t \<in> armed c - {ReceiveTimer}. Expired t \<notin> set (io c)" "\<not> nw_prometheusEnabled c"
    and poll: "controller_poll (profiler_env env) (network_on_fork (controller_on_fork c)) = Inr (True, c')"
  shows "isConnected c' \<and> wire c' = [] \<and> cc_state c' = SENT_HELLO \<and> (\<forall>m. send_message (profiler_env env) m c' = Inr (False, c'))"
proof -
  let ?f = "snd (backoff (profiler_env env) (network_on_fork (controller_on_fork c)))"
    and ?h = "without (armed c) (nested_handler (profiler_env env))"
  have f: "mute (armed c) ?f" "\<not> nw_prometheusEnabled ?f" "io ?f = io c" using assms(1,2,4)
    by (auto simp: backoff_def Let_def network_on_fork_def controller_on_fork_def network_close_def closeSocket_def mute_def conn_ok_def)
  have "attemptConnect (profiler_env env) ?f = Inr (True, c')"
    using poll by (simp add: controller_poll_def network_on_fork_def controller_on_fork_def)
  then obtain d where "connect (nested_handler (profiler_env env)) ?f = Inr (True, d)"
      and o: "onSocketConnect (profiler_env env) (send_message (profiler_env env)) d = Inr c'"
    by (auto simp: attemptConnect_def bind_result_Inr split: if_splits)
  moreover have "connect (nested_handler (profiler_env env)) ?f = connect ?h ?f"
    by (rule connect_same) (use assms(3) f(3) in \<open>auto simp: without_def\<close>)
  ultimately have d: "connect ?h ?f = Inr (True, d)" by simp
  have "isConnected d \<and> isSending d \<and> wire d = []"
    by (rule muted.connect_keeps [OF d f(2)]) (use f(1) in \<open>auto simp: mute_def\<close>)
  then have s: "isConnected c' \<and> isSending c' \<and> wire c' = [] \<and> cc_state c' = SENT_HELLO"
    using o by (auto simp: onSocketConnect_def sendHello_def recordWithSize_def agent.callback_fields send_message_def
      sendWithSize_def onSentHello_def scheduleReceiveTimer_def schedule_def resetAgentStatisticsCounters_def)
  then show ?thesis by (simp add: send_message_def sendWithSize_def)
qed

section \<open>An example\<close>

text \<open>A connection that succeeds at the first attempt.\<close>

definition demo_env :: "log_writer controller_env" where
  "demo_env = \<lparr>ce_apiKey = ''key'', ce_agentId = ''agent'', ce_hostname = ''host'', ce_applicationVersion = [],
     ce_ocamlVersion = ''5.0.0'', ce_processorCount = 1, ce_AGENT_VERSION = 1, ce_GIT_STR = [], ce_BUILD_TYPE = [],
     ce_getpid = 7, ce_timezone = (''UTC'', 0), ce_configuration = newConfigurationOptions, ce_millis = \<lambda>_. 0, ce_dist = \<lambda>_. 500,
     ce_setitimer = \<lambda>_. True, ce_metrics_thread_running = True, ce_build = WithRuntimeEvents, ce_reader_env = demo_reader_env,
     socketConnectHandler = id, recordAllocationTableHandler = \<lambda>_ c. Inr c\<rparr>"

definition demo_agent :: "bool \<Rightarrow> log_writer" where
  "demo_agent prometheus = LogWriter_init None symbols_init (CollectorController_init prometheus True demo_codec demo_metrics demo_queue)"

definition demo_events :: "io_event list" where
  "demo_events = [Done NO_ERROR, Done NO_ERROR, Handshake NO_ERROR, Done NO_ERROR]"

definition demo_poll :: "agent_fault + bool \<times> log_writer" where
  "demo_poll = controller_poll (profiler_env demo_env) ((demo_agent False)\<lparr>io := io (demo_agent False) @ demo_events\<rparr>)"

definition demo_open :: log_writer where
  "demo_open = snd (projr demo_poll)"

lemma demo_open_facts:
  "demo_poll = Inr (True, demo_open)" "isConnected demo_open" "cc_state demo_open = SENT_HELLO" "\<not> isSending demo_open"
  "sock demo_open" "wire demo_open = [HelloMessage (hello_message demo_env)]" "io demo_open = []"
proof -
  have "\<not> isl demo_poll" "fst (projr demo_poll)" by code_simp+
  then show "demo_poll = Inr (True, demo_open)" unfolding demo_open_def by (metis prod.collapse sum.collapse(2))
qed code_simp+

lemma demo_initial: "controller_initial (demo_agent p)"
  unfolding demo_agent_def by (rule LogWriter_initial)

text \<open>An attempt whose resolution fails.\<close>

definition demo_failed_poll :: "agent_fault + bool \<times> log_writer" where
  "demo_failed_poll = controller_poll (profiler_env demo_env) ((demo_agent False)\<lparr>io := io (demo_agent False) @ [Done (OTHER_ERROR 1)]\<rparr>)"

definition demo_failed :: log_writer where
  "demo_failed = snd (projr demo_failed_poll)"

lemma demo_failed_reach: "controller_reach (profiler_env demo_env) False (demo_agent False) demo_failed"
proof (rule controller_reach.later [OF controller_reach.later [OF controller_reach.here controller_step.arrives]])
  have "\<not> isl demo_failed_poll" by code_simp
  then have "demo_failed_poll = Inr (fst (projr demo_failed_poll), demo_failed)"
    unfolding demo_failed_def by (metis prod.collapse sum.collapse(2))
  then show "controller_step (profiler_env demo_env) False ((demo_agent False)\<lparr>io := io (demo_agent False) @ [Done (OTHER_ERROR 1)]\<rparr>) demo_failed"
    unfolding demo_failed_poll_def by (intro controller_step.polls) simp_all
qed

lemma backoff_waits_witness:
  "\<exists>c'. backoff (profiler_env demo_env) demo_failed = (Some 2000, c') \<and> unat (backoffTimeInMs c') = 1500"
proof -
  let ?c = "snd (backoff (profiler_env demo_env) demo_failed)"
  have f: "fst (backoff (profiler_env demo_env) demo_failed) = Some 2000" "unat (backoffTimeInMs demo_failed) = 1000" by code_simp+
  have d: "ce_dist demo_env s \<le> RANDOMISATION_RANGE_IN_MS" for s by (simp add: demo_env_def RANDOMISATION_RANGE_IN_MS_def)
  have e: "backoff (profiler_env demo_env) demo_failed = (Some 2000, ?c)" using f(1) by (metis prod.collapse)
  from backoff_waits [OF demo_initial demo_failed_reach d e] f(2) have "unat (backoffTimeInMs ?c) = 1500" by simp
  with e show ?thesis by blast
qed

lemma write_timeout_unnoticed_witness:
  "\<exists>c'. send_message (profiler_env demo_env) (HeartbeatMessage 0) (demo_open\<lparr>io := [Timeout]\<rparr>) = Inr (False, c') \<and> cc_state c' = SENT_HELLO"
  using write_timeout_unnoticed [of "demo_open\<lparr>io := [Timeout]\<rparr>" "[]" "profiler_env demo_env" "HeartbeatMessage 0"] demo_open_facts(2-5)
  by auto

definition demo_sample_rate :: SampleRate where
  "demo_sample_rate = \<lparr>process_time_stack_sample_rate_millis = 20, elapsed_time_stack_sample_rate_millis = 50,
     switch_process_time_profiling_on = True, switch_elapsed_time_profiling_on = True, thread_state_on = False,
     switch_memory_profiling_on = False, memory_profiling_push_rate_millis = 0, switch_memory_profiling_stacktrace_on = False,
     memory_profiling_stack_sample_rate_samples = 0, switch_metrics_on = False, metrics_sample_rate_millis = 0, metrics_prefixes = []\<rparr>"

lemma stashed_notifications_lost_witness:
  "\<exists>c'. onSampleRate (profiler_env demo_env) refuse_send demo_sample_rate (demo_open\<lparr>isSending := True, notifications := [(USER_ERROR, ''x'')]\<rparr>) = Inr c' \<and>
     notifications c' = []"
proof -
  let ?r = "onSampleRate (profiler_env demo_env) refuse_send demo_sample_rate (demo_open\<lparr>isSending := True, notifications := [(USER_ERROR, ''x'')]\<rparr>)"
  have "\<not> isl ?r" by code_simp
  then obtain c' where "?r = Inr c'" by (cases ?r) auto
  with stashed_notifications_lost [OF _ _ _ this] demo_open_facts(2,3) show ?thesis by simp
qed

lemma prometheus_child_never_active_witness:
  "isActive (demo_agent True) \<and> \<not> isActive (network_on_fork (controller_on_fork (demo_agent True)))"
proof -
  have "isActive (demo_agent True)" "nw_prometheusEnabled (demo_agent True)" by code_simp+
  with prometheus_child_never_active [OF demo_initial controller_reach.here _ controller_reach.here] show ?thesis by blast
qed

text \<open>A fork in \<open>CONNECTED\<close>, in the middle of a send and with the timers of that state armed.\<close>

definition demo_sending :: log_writer where
  "demo_sending = (scheduleAgentStatisticsTimer (scheduleSendTimer demo_open))\<lparr>isSending := True, cc_state := CONNECTED,
     io := [Done NO_ERROR, Done NO_ERROR, Handshake NO_ERROR]\<rparr>"

lemma fork_inside_send_is_mute_witness:
  "\<exists>c'. cc_state demo_sending = CONNECTED \<and>
    controller_poll (profiler_env demo_env) (network_on_fork (controller_on_fork demo_sending)) = Inr (True, c') \<and>
    isConnected c' \<and> wire c' = []"
proof -
  let ?r = "controller_poll (profiler_env demo_env) (network_on_fork (controller_on_fork demo_sending))"
  have "\<not> isl ?r" "fst (projr ?r)" by code_simp+
  then obtain c' where r: "?r = Inr (True, c')" by (metis (full_types) prod.collapse sum.collapse(2))
  have "conn_ok demo_sending" "\<not> nw_prometheusEnabled demo_sending" by code_simp+
  moreover have "isSending demo_sending" "cc_state demo_sending = CONNECTED"
    "\<forall>t \<in> armed demo_sending - {ReceiveTimer}. Expired t \<notin> set (io demo_sending)" by (simp_all add: demo_sending_def)
  ultimately show ?thesis using fork_inside_send_is_mute [OF _ _ _ _ r] r by blast
qed

end
