(* ===== verification/Announcements.thy ===== *)
theory Announcements
  imports Collector_Properties
begin

text \<open>
  What the collector can make of the messages on a connection: the controller, the log writer and the symbol table
  together keep the wire such that the hello comes first and everything a stack sample refers to was announced before.
  Also the watchdog: what the receive timer does to such a connection.
\<close>

section \<open>The agent's steps\<close>

text \<open>
  The steps of \<open>controller_step\<close> with the log writer as the queue's listener. A write error is one the agent takes for
  a disconnection, and the numbering of symbols has not used up its 64 bits.
\<close>

definition ids_left :: "writer_env \<Rightarrow> QueueEvent \<Rightarrow> 'a log_writer_scheme \<Rightarrow> bool" where
  "ids_left we ev c = (case ev of
     RecordStackTrace ts trace signal state tsc \<Rightarrow>
       unat (nextId (lw_symbols c)) + 2 * callbacks (we_debug_info we) (map (\<lambda>f. (frame f, isForeign f)) (frames trace)) < 2 ^ 64
   | _ \<Rightarrow> True)"

inductive agent_step :: "writer_env \<Rightarrow> 'a log_writer_scheme controller_env \<Rightarrow> 'a log_writer_scheme \<Rightarrow> 'a log_writer_scheme \<Rightarrow> bool"
  for we env where
  arrives: "agent_step we env c (c\<lparr>io := io c @ es\<rparr>)"
| polls: "io_plain (io c) \<Longrightarrow> controller_poll (profiler_env env) c = Inr (w, c') \<Longrightarrow> agent_step we env c c'"
| handles: "network_poll (poll_handler (profiler_env env)) c = Inr (w, c') \<Longrightarrow> agent_step we env c c'"
| records: "io_plain (io c) \<Longrightarrow> ids_left we ev c \<Longrightarrow>
    log_writer_listener we (send_message (profiler_env env)) ev c = Inr c' \<Longrightarrow> agent_step we env c c'"
| starts: "onStart (profiler_env env) c = Inr c' \<Longrightarrow> agent_step we env c c'"
| others: "agent_step we env c (c\<lparr>cc_queue := q, cc_metrics := m, cc_scanner := s\<rparr>)"
| forks: "agent_step we env c (network_on_fork (lw_onSocketConnected (controller_on_fork c)))"

text \<open>It starts as the constructors leave it; what a record extends the log writer's with does not matter.\<close>

definition agent_initial :: "'a log_writer_scheme \<Rightarrow> bool" where
  "agent_initial c \<longleftrightarrow> (\<exists>out prometheus on cd m q.
     log_writer.truncate c = LogWriter_init out symbols_init (CollectorController_init prometheus on cd m q))"

inductive agent_reach :: "writer_env \<Rightarrow> 'a log_writer_scheme controller_env \<Rightarrow> 'a log_writer_scheme \<Rightarrow> bool" for we env where
  initial: "agent_initial c \<Longrightarrow> agent_reach we env c"
| step: "agent_reach we env c \<Longrightarrow> agent_step we env c c' \<Longrightarrow> agent_reach we env c'"

section \<open>What is on the wire\<close>

fun ann_of :: "AgentEnvelope \<Rightarrow> announcement list" where
  "ann_of (ModuleInformation i f m) = [NewFile i f]"
| "ann_of (MethodInformation i fid n) = [NewFunction i n fid]"
| "ann_of _ = []"

definition anns :: "AgentEnvelope list \<Rightarrow> announcement list" where
  "anns w = concat (map ann_of w)"

definition resolved :: "announcement list \<Rightarrow> CompressedFrameEntry \<Rightarrow> bool" where
  "resolved as f \<longleftrightarrow> (\<exists>n fid. NewFunction (fe_methodId f) n fid \<in> set as)"

definition samples_ok :: "AgentEnvelope list \<Rightarrow> bool" where
  "samples_ok w \<longleftrightarrow> (\<forall>before ss after. w = before @ StackSampleMessage ss # after \<longrightarrow>
     list_all (resolved (anns before)) (compressedFrames ss))"

lemma anns_simps [simp]: "anns [] = []" "anns (u @ v) = anns u @ anns v" "anns (m # w) = ann_of m @ anns w"
  by (simp_all add: anns_def)

lemma samples_ok_snoc:
  assumes "samples_ok w" "\<And>ss. m = StackSampleMessage ss \<Longrightarrow> list_all (resolved (anns w)) (compressedFrames ss)"
  shows "samples_ok (w @ [m])"
  unfolding samples_ok_def
proof (intro allI impI)
  fix before ss after
  assume e: "w @ [m] = before @ StackSampleMessage ss # after"
  show "list_all (resolved (anns before)) (compressedFrames ss)"
  proof (cases after rule: rev_cases)
    case Nil
    with e assms(2) show ?thesis by simp
  next
    case (snoc init l)
    with e have "w = before @ StackSampleMessage ss # init" by simp
    with assms(1) show ?thesis by (simp add: samples_ok_def)
  qed
qed

definition no_symbols :: "AgentEnvelope \<Rightarrow> bool" where
  "no_symbols m \<longleftrightarrow> ann_of m = [] \<and> (\<forall>ss. m \<noteq> StackSampleMessage ss)"

lemma append_no_symbols: "list_all no_symbols ms \<Longrightarrow> anns (w @ ms) = anns w \<and> (samples_ok w \<longrightarrow> samples_ok (w @ ms))"
proof (induction ms arbitrary: w)
  case (Cons m ms)
  then show ?case using Cons.IH [of "w @ [m]"] samples_ok_snoc [of w m] by (auto simp: no_symbols_def)
qed simp

lemma handler_message_no_symbols: "handler_message m \<Longrightarrow> no_symbols m"
  by (cases m) (simp_all add: no_symbols_def)

lemma chatter_wire:
  assumes "chatter w w'"
  shows "anns w' = anns w" "samples_ok w \<Longrightarrow> samples_ok w'"
proof -
  from assms obtain ms where ms: "w' = w @ ms" "list_all handler_message ms" unfolding chatter_def by blast
  then have "list_all no_symbols ms" using handler_message_no_symbols by (auto simp: list_all_iff)
  with ms(1) show "anns w' = anns w" "samples_ok w \<Longrightarrow> samples_ok w'" using append_no_symbols by blast+
qed

section \<open>The invariant\<close>

text \<open>
  What has been announced since the symbol caches were cleared is what the symbol table takes for known, and while the
  connection is open all of it is on the wire.
\<close>

definition on_wire :: "announcement list \<Rightarrow> 'a log_writer_scheme \<Rightarrow> bool" where
  "on_wire new c \<longleftrightarrow> (isConnected c \<longrightarrow> anns (wire c) = new \<and> samples_ok (wire c))"

definition ready :: "'a log_writer_scheme \<Rightarrow> bool" where
  "ready c \<longleftrightarrow> between True c \<and> io_plain (io c)"

lemma more_symbols: "controller.more c = controller.more d \<Longrightarrow> lw_symbols c = lw_symbols d"
  by (cases c; cases d) simp

lemma lw_send:
  assumes r: "ready c" and s: "lw_recordWithSize (send_message env) m c = Inr c'"
  shows "ready c'" "lw_symbols c' = lw_symbols c" "isConnected c' \<longrightarrow> isConnected c \<and> wire c' = wire c @ [m]"
proof -
  let ?d = "c\<lparr>lw_output := map_option (\<lambda>written. written @ [m]) (lw_output c)\<rparr>"
  have d: "between True ?d" using r same_core_between [where c' = ?d and c = c and q = "cc_queue c" and m = "cc_metrics c" and s = "cc_scanner c" and plain = True]
    by (simp add: ready_def controller.truncate_def)
  then have ok: "conn_ok ?d" "\<not> isSending ?d" by (simp_all add: between_def)
  obtain k where k: "send_message env m ?d = Inr (k, c')"
    using s by (auto simp: lw_recordWithSize_def recordWithSize_def bind_result_Inr)
  note x = send_message_result [OF ok(1) k]
  have h: "handled extends ?d c'" using x by blast
  have p: "io_plain (io ?d)" using r by (simp add: ready_def)
  have "set (io c') \<subseteq> set (io ?d)" using x by blast
  then show "ready c'" unfolding ready_def using handled_between [OF h d] io_plain_subset [OF p] by blast
  show "lw_symbols c' = lw_symbols c" using more_symbols [OF handledD(11) [OF h ok(1)]] by simp
  show "isConnected c' \<longrightarrow> isConnected c \<and> wire c' = wire c @ [m]"
    using x p ok(2) handledD(4) [OF h ok(1)] by (cases k) auto
qed

lemma send_no_symbols:
  assumes "ready c" "lw_recordWithSize (send_message env) m c = Inr c'" "no_symbols m" "on_wire new c"
  shows "ready c'" "lw_symbols c' = lw_symbols c" "on_wire new c'"
proof -
  note s = lw_send [OF assms(1,2)]
  show "ready c'" "lw_symbols c' = lw_symbols c" by (rule s)+
  show "on_wire new c'" using s(3) assms(3,4) append_no_symbols [of "[m]" "wire c"] by (auto simp: on_wire_def)
qed

lemma announce_result:
  "ready c \<Longrightarrow> announce (send_message env) as c = Inr c' \<Longrightarrow> on_wire new c \<Longrightarrow>
     ready c' \<and> lw_symbols c' = lw_symbols c \<and> on_wire (new @ as) c'"
proof (induction as arbitrary: c new)
  case (Cons a as)
  have one: "lw_recordWithSize (send_message env) m c = Inr d \<Longrightarrow> ann_of m = [a] \<Longrightarrow> \<forall>ss. m \<noteq> StackSampleMessage ss \<Longrightarrow>
      ready d \<and> lw_symbols d = lw_symbols c \<and> on_wire (new @ [a]) d" for m d
    using lw_send [of c env m d] Cons.prems(1,3) samples_ok_snoc [of "wire c" m] by (auto simp: on_wire_def)
  obtain m d where m: "lw_recordWithSize (send_message env) m c = Inr d" "ann_of m = [a]" "\<forall>ss. m \<noteq> StackSampleMessage ss"
      "announce (send_message env) as d = Inr c'"
    using Cons.prems(2) by (cases a) (auto simp: onNewFile_def onNewFunction_def bind_result_Inr)
  from one [OF m(1-3)] m(4) Cons.IH [of d "new @ [a]"] show ?case by simp
qed simp

lemma ready_same_core:
  assumes "controller.truncate c' = controller.truncate (c\<lparr>cc_queue := q, cc_metrics := m, cc_scanner := s\<rparr>)"
  shows "ready c' = ready c" "isConnected c' = isConnected c" "wire c' = wire c" "io c' = io c"
  using same_core_between [OF assms, of True] assms by (simp_all add: ready_def controller.truncate_def)

lemma symbols_ready: "ready (c\<lparr>lw_symbols := s\<rparr>) = ready c"
  by (rule ready_same_core [where q = "cc_queue c" and m = "cc_metrics c" and s = "cc_scanner c"]) (simp add: controller.truncate_def)

lemma lookup_inv_budget: "lookup_inv new a s \<Longrightarrow> unat (nextId s) + b < 2 ^ 64 \<Longrightarrow> lookup_inv new b s"
  unfolding lookup_inv_def sym_inv_def by (simp add: ids_inv_def)

definition located :: "announcement list \<Rightarrow> Location \<Rightarrow> bool" where
  "located as l \<longleftrightarrow> (\<exists>n fid. NewFunction (methodId l) n fid \<in> set as)"

lemma lookup_result:
  assumes "ready c" "on_wire new c" "lookup_inv new (b + 2 * length (pcinfo (we_debug_info we) pc)) (lw_symbols c)"
    and s: "lw_lookup_locations we (send_message env) pc foreign c = Inr (ls, c')"
  obtains ext where "ready c'" "on_wire (new @ ext) c'" "lookup_inv (new @ ext) b (lw_symbols c')" "list_all (located (new @ ext)) ls"
proof -
  obtain s' where s': "lookup_locations (we_debug_info we) pc foreign (lw_symbols c) = Inr (ls, s')"
    and a: "announce (send_message env) (drop (length (announced (lw_symbols c))) (announced s')) (c\<lparr>lw_symbols := s'\<rparr>) = Inr c'"
    using s by (auto simp: lw_lookup_locations_def bind_result_Inr split: sum.splits)
  from lookup_locations_later [OF assms(3) s'] obtain ext where
    e: "list_all (loc_ok s') ls" "later new ext b (lw_symbols c) s'" by blast
  have l: "lookup_inv (new @ ext) b s'" "announced s' = announced (lw_symbols c) @ ext" using e(2) by (simp_all add: later_def)
  have "announced_inv (new @ ext) s'" using l(1) by (auto simp: lookup_inv_def sym_inv_def announced_inv_def)
  then have "list_all (located (new @ ext)) ls"
    using e(1) unfolding list_all_iff loc_ok_def located_def announced_inv_def by blast
  moreover have "on_wire new (c\<lparr>lw_symbols := s'\<rparr>)" using assms(2) by (simp add: on_wire_def)
  ultimately show thesis using announce_result [OF _ a, of new] assms(1) l that [of ext] by (simp add: symbols_ready)
qed

lemma located_more: "list_all (located new) ls \<Longrightarrow> list_all (located (new @ ext)) ls"
  unfolding list_all_iff located_def set_append by blast

lemma resolved_more: "list_all (resolved new) fs \<Longrightarrow> list_all (resolved (new @ ext)) fs"
  unfolding list_all_iff resolved_def set_append by blast

lemma addFrames_resolved:
  "list_all (located new) ls \<Longrightarrow> list_all (resolved new) entries \<Longrightarrow> list_all (resolved new) (addFrames ls isError entries)"
  by (auto simp: addFrames_def list_all_iff located_def resolved_def)

lemma lookup_frames_result:
  assumes "ready c" "on_wire new c" "lookup_inv new (2 * callbacks (we_debug_info we) (map (\<lambda>f. (frame f, isForeign f)) fs)) (lw_symbols c)"
    and "list_all (resolved new) entries" and "lookup_frames we (send_message env) fs isError entries c = Inr (entries', c')"
  shows "\<exists>new'. ready c' \<and> on_wire new' c' \<and> lookup_inv new' 0 (lw_symbols c') \<and> list_all (resolved new') entries'"
  using assms
proof (induction fs arbitrary: c new entries)
  case Nil
  then show ?case by (auto simp: callbacks_def)
next
  case (Cons f fs)
  let ?cb = "callbacks (we_debug_info we) (map (\<lambda>f. (frame f, isForeign f)) fs)"
  obtain ls d where d: "lw_lookup_locations we (send_message env) (frame f) (isForeign f) c = Inr (ls, d)"
      "lookup_frames we (send_message env) fs isError (addFrames ls isError entries) d = Inr (entries', c')"
    using Cons.prems(5) by (auto simp: bind_result_Inr)
  have "2 * callbacks (we_debug_info we) (map (\<lambda>f. (frame f, isForeign f)) (f # fs)) =
      2 * ?cb + 2 * length (pcinfo (we_debug_info we) (frame f))" by (simp add: callbacks_def)
  then have inv: "lookup_inv new (2 * ?cb + 2 * length (pcinfo (we_debug_info we) (frame f))) (lw_symbols c)"
    using Cons.prems(3) by simp
  obtain ext where e: "ready d" "on_wire (new @ ext) d" "lookup_inv (new @ ext) (2 * ?cb) (lw_symbols d)" "list_all (located (new @ ext)) ls"
    by (rule lookup_result [OF Cons.prems(1,2) inv d(1)])
  from Cons.IH [OF e(1-3) addFrames_resolved [OF e(4) resolved_more [OF Cons.prems(4)]] d(2)] show ?case .
qed

definition agent_inv :: "'a log_writer_scheme \<Rightarrow> bool" where
  "agent_inv c \<longleftrightarrow> between True c \<and> (\<exists>new. lookup_inv new 0 (lw_symbols c) \<and> on_wire new c)"

lemma threadName_core:
  "controller.truncate (snd (threadName we tid c)) = controller.truncate (c\<lparr>cc_queue := cc_queue (snd (threadName we tid c)),
     cc_metrics := cc_metrics c, cc_scanner := cc_scanner c\<rparr>) \<and> lw_symbols (snd (threadName we tid c)) = lw_symbols c"
  by (auto simp: threadName_def controller.truncate_def Let_def split: option.split sum.split)

section \<open>The listener keeps the invariant\<close>

lemma callbacks_part: "callbacks di (drop k (take n ps)) \<le> callbacks di ps"
proof -
  have "callbacks di ps = callbacks di (take n ps) + callbacks di (drop n ps)"
    by (metis append_take_drop_id callbacks_def map_append sum_list_append)
  moreover have "callbacks di (take n ps) = callbacks di (take k (take n ps)) + callbacks di (drop k (take n ps))"
    by (metis append_take_drop_id callbacks_def map_append sum_list_append)
  ultimately show ?thesis by simp
qed

lemma agent_invI: "ready c \<Longrightarrow> on_wire new c \<Longrightarrow> lookup_inv new b (lw_symbols c) \<Longrightarrow> agent_inv c"
  using lookup_inv_smaller [of new 0 b] by (auto simp: agent_inv_def ready_def)

lemma recordStackTrace_inv:
  assumes r: "ready c" "on_wire new c" "lookup_inv new 0 (lw_symbols c)"
    and ids: "unat (nextId (lw_symbols c)) + 2 * callbacks (we_debug_info we) (map (\<lambda>f. (frame f, isForeign f)) (frames trace)) < 2 ^ 64"
    and s: "lw_recordStackTrace we (send_message env) ts trace signal state c = Inr c'"
  shows "agent_inv c'"
proof -
  let ?c = "snd (threadName we (ct_threadId trace) c)"
  let ?n = "nat (if num_frames trace < 0 then - 1 * num_frames trace else num_frames trace)"
  let ?fs = "drop NUMBER_OF_SIGNAL_HANDLER_FRAMES (take ?n (frames trace))"
  let ?cb = "callbacks (we_debug_info we) (map (\<lambda>f. (frame f, isForeign f)) ?fs)"
  note core = threadName_core [of we "ct_threadId trace" c]
  have c: "ready ?c" "on_wire new ?c" using r(1,2) ready_same_core [OF conjunct1 [OF core]] by (simp_all add: on_wire_def)
  have "?cb \<le> callbacks (we_debug_info we) (map (\<lambda>f. (frame f, isForeign f)) (frames trace))"
    unfolding drop_map [symmetric] take_map [symmetric] by (rule callbacks_part)
  with ids have "unat (nextId (lw_symbols c)) + 2 * ?cb < 2 ^ 64" by linarith
  then have inv: "lookup_inv new (2 * ?cb) (lw_symbols ?c)" using lookup_inv_budget [OF r(3)] core by simp
  obtain entries d m where d: "lookup_frames we (send_message env) ?fs (num_frames trace < 0) [] ?c = Inr (entries, d)"
      "lw_recordWithSize (send_message env) m d = Inr c'" "\<exists>ss. m = StackSampleMessage ss \<and> compressedFrames ss = entries"
    using s by (auto simp: lw_recordStackTrace_def bind_result_Inr Let_def case_prod_beta split: if_splits)
  obtain new' where n: "ready d" "on_wire new' d" "lookup_inv new' 0 (lw_symbols d)" "list_all (resolved new') entries"
    using lookup_frames_result [OF c inv _ d(1)] by auto
  note w = lw_send [OF n(1) d(2)]
  have "on_wire new' c'"
    unfolding on_wire_def
  proof
    assume "isConnected c'"
    then have x: "isConnected d" "wire c' = wire d @ [m]" using w(3) by auto
    then have y: "anns (wire d) = new'" "samples_ok (wire d)" using n(2) by (auto simp: on_wire_def)
    from d(3) obtain ss where m: "m = StackSampleMessage ss" "compressedFrames ss = entries" by blast
    have "samples_ok (wire d @ [m])" by (rule samples_ok_snoc [OF y(2)]) (use m n(4) y(1) in auto)
    with x y m show "anns (wire c') = new' \<and> samples_ok (wire c')" by simp
  qed
  with w(1,2) n(3) show ?thesis by (intro agent_invI [of _ new' 0]) auto
qed

lemma stash_inv: "agent_inv c \<Longrightarrow> agent_inv (stashNotification cat msg c)"
proof -
  assume "agent_inv c"
  moreover have "aside c (stashNotification cat msg c)" by (simp add: stashNotification_def aside_def)
  then have "handled extends c (stashNotification cat msg c)" by (rule aside_handled) simp
  ultimately show ?thesis using handled_between [of c "stashNotification cat msg c" True]
    by (auto simp: agent_inv_def on_wire_def stashNotification_def)
qed

lemma message_inv:
  assumes "ready c" "on_wire new c" "lookup_inv new 0 (lw_symbols c)" "lw_recordWithSize (send_message env) m c = Inr c'" "no_symbols m"
  shows "agent_inv c'"
  using send_no_symbols [OF assms(1,4,5,2)] assms(3) by (intro agent_invI [of _ new 0]) auto

lemma listener_inv:
  assumes inv: "agent_inv c" and p: "io_plain (io c)" and ids: "ids_left we ev c"
    and s: "log_writer_listener we (send_message env) ev c = Inr c'"
  shows "agent_inv c'"
proof -
  obtain new where n: "lookup_inv new 0 (lw_symbols c)" "on_wire new c" and b: "between True c"
    using inv by (auto simp: agent_inv_def)
  have r: "ready c" using b p by (simp add: ready_def)
  note m = message_inv [OF r n(2,1)]
  show ?thesis
  proof (cases ev)
    case (RecordStackTrace ts trace signal state tsc)
    then show ?thesis using recordStackTrace_inv [OF r n(2,1)] ids s by (simp add: ids_left_def)
  next
    case (RecordAllocation bytes outside symbol)
    have core: "controller.truncate c' = controller.truncate (c\<lparr>cc_queue := cc_queue c, cc_metrics := cc_metrics c, cc_scanner := cc_scanner c\<rparr>)"
        "lw_symbols c' = lw_symbols c"
      using s RecordAllocation by (auto simp: lw_recordAllocation_def controller.truncate_def)
    show ?thesis using ready_same_core [OF core(1)] core(2) r n by (intro agent_invI [of _ new 0]) (simp_all add: on_wire_def)
  next
    case (RecordNotification cat msg v)
    show ?thesis
    proof (cases "controller_isConnected c")
      case True
      with s RecordNotification obtain t where "lw_recordWithSize (send_message env) (NotificationMessage t cat) c = Inr c'"
        by (auto simp: lw_recordNotification_def Let_def split: if_splits)
      from m [OF this] show ?thesis by (simp add: no_symbols_def)
    next
      case False
      with s RecordNotification have "c' = stashNotification cat (if v \<noteq> 0 then msg @ show_int v else msg) c"
        by (simp add: lw_recordNotification_def Let_def)
      with stash_inv [OF inv] show ?thesis by simp
    qed
  next
    case (RecordMetricInformation info)
    with s have "lw_recordWithSize (send_message env) (MetricInformationMessage (mi_id info) (mi_name info) (mapDataType (mi_dataType info))
       (mapVariability (mi_variability info)) (mapUnit (mi_unit info))) c = Inr c'" by (simp add: lw_recordMetricInformation_def)
    from m [OF this] show ?thesis by (simp add: no_symbols_def)
  next
    case (RecordMetricSamples t samples)
    with s have "lw_recordWithSize (send_message env) (MetricSamplesMessage (word_of_int t)
       (map (\<lambda>s. (ms_id s, metric_value (ms_data s))) samples)) c = Inr c'" by (simp add: lw_recordMetricSamples_def)
    from m [OF this] show ?thesis by (simp add: no_symbols_def)
  next
    case RecordConstantMetricsComplete
    with s have "lw_recordWithSize (send_message env) ConstantMetricsCompleteMessage c = Inr c'"
      by (simp add: lw_recordConstantMetricsComplete_def)
    from m [OF this] show ?thesis by (simp add: no_symbols_def)
  qed (use s inv in auto)
qed

section \<open>Every step keeps it\<close>

lemma clear_inv:
  assumes "lookup_inv new 0 s"
  shows "lookup_inv [] 0 (clear_symbols s)"
  using assms by (intro clear_symbols_inv) (auto simp: lookup_inv_def sym_inv_def announced_inv_def ids_inv_def unat_eq_0 [symmetric])

lemma poll_symbols:
  assumes p: "controller_poll (profiler_env env) c = Inr (w, c')" and b: "between True c"
  shows "lw_symbols c' = (if cc_state c = DISCONNECTED \<and> w then clear_symbols (lw_symbols c) else lw_symbols c)"
proof (cases "cc_state c = DISCONNECTED")
  case True
  let ?d = "snd (backoff (profiler_env env) c)"
  have a: "attemptConnect (profiler_env env) ?d = Inr (w, c')" using p True by (simp add: controller_poll_def)
  have ok: "conn_ok c" using b by (simp add: between_def)
  have d: "conn_ok ?d" "cc_state ?d = DISCONNECTED" "\<not> isSending ?d"
    using backoff_result [OF ok] True b by (simp_all add: between_def)
  note r = agent.attemptConnect_result(6) [OF d a]
  have sy: "lw_symbols ?d = lw_symbols c" by (simp add: backoff_def Let_def)
  show ?thesis
  proof (cases w)
    case w: True
    obtain x where x: "controller.more x = controller.more ?d"
        "controller.more c' = controller.more (socketConnectHandler (profiler_env env) x)" using r w by auto
    have "lw_symbols (socketConnectHandler (profiler_env env) x) = clear_symbols (lw_symbols x)"
      by (simp add: profiler_env_def profiler_onSocketConnected_def lw_onSocketConnected_def attemptRead_def)
    then show ?thesis using more_symbols [OF x(1)] more_symbols [OF x(2)] sy w True by simp
  next
    case False
    then have "controller.more c' = controller.more ?d" using r by simp
    then show ?thesis using more_symbols [of c' ?d] sy False by simp
  qed
qed (use p in \<open>simp add: controller_poll_def\<close>)

lemma start_aside:
  assumes "onStart (profiler_env env) c = Inr c'" "between True c"
  shows "aside c c'" "lw_symbols c' = lw_symbols c"
proof -
  have "cc_state c \<noteq> SOCKET_CONNECTED" using assms(2) by (simp add: between_def)
  then have "c' = c \<or> (\<exists>pr er. startProfiling (profiler_env env) pr er True True c = Inr c')"
    using assms(1) by (auto simp: onStart_def split: if_splits)
  then show a: "aside c c'" using startProfiling_aside by (auto simp: aside_def [of c c])
  then have "controller.more c' = controller.more c" by (simp add: aside_def)
  then show "lw_symbols c' = lw_symbols c" by (rule more_symbols)
qed

lemma fork_symbols: "lw_symbols (network_on_fork (lw_onSocketConnected (controller_on_fork c))) = clear_symbols (lw_symbols c)"
  by (simp add: lw_onSocketConnected_def network_on_fork_def network_close_def closeSocket_def controller_on_fork_def)

lemma agent_step_inv:
  assumes "agent_step we env c c'" "agent_inv c"
  shows "agent_inv c'"
proof -
  obtain new where n: "lookup_inv new 0 (lw_symbols c)" "on_wire new c" and b: "between True c"
    using assms(2) by (auto simp: agent_inv_def)
  have ok: "conn_ok c" using b by (simp add: between_def)
  have step: "between True d" if "controller_step (profiler_env env) True c d" for d
    by (rule agent.controller_step_between [OF that b])
  show ?thesis using assms(1)
  proof cases
    case (arrives es)
    with step [OF controller_step.arrives [of _ True c es]] n show ?thesis by (auto simp: agent_inv_def on_wire_def)
  next
    case (polls w)
    have bt: "between True c'" by (rule step [OF controller_step.polls [OF _ polls(2)]]) (simp add: polls(1))
    show ?thesis
    proof (cases "cc_state c = DISCONNECTED")
      case False
      with polls(2) assms(2) show ?thesis by (simp add: controller_poll_def)
    next
      case True
      let ?d = "snd (backoff (profiler_env env) c)"
      have a: "attemptConnect (profiler_env env) ?d = Inr (w, c')" using polls(2) True by (simp add: controller_poll_def)
      have d: "conn_ok ?d" "cc_state ?d = DISCONNECTED" "\<not> isSending ?d" "io ?d = io c"
        using backoff_result [OF ok] True b by (simp_all add: between_def)
      note r = agent.attemptConnect_result [OF d(1-3) a]
      note sy = poll_symbols [OF polls(2) b]
      show ?thesis
      proof (cases w)
        case w: True
        have "on_wire [] c'" using r(5) w polls(1) d(4) samples_ok_snoc [of "[]"]
          by (auto simp: on_wire_def samples_ok_def Cons_eq_append_conv)
        with sy w True bt clear_inv [OF n(1)] show ?thesis by (auto simp: agent_inv_def)
      next
        case False
        then have "on_wire new c'" using r(4) by (simp add: on_wire_def)
        with sy False bt n(1) show ?thesis by (auto simp: agent_inv_def)
      qed
    qed
  next
    case (handles w)
    note h = handledD [OF polling.network_poll_keeps [OF handles] ok]
    have "on_wire new c'" using n(2) h(4) chatter_wire [OF h(2)] by (auto simp: on_wire_def)
    moreover have "between True c'" by (rule step [OF controller_step.handles [OF handles]])
    ultimately show ?thesis using n(1) more_symbols [OF h(11)] by (auto simp: agent_inv_def)
  next
    case (records ev)
    from listener_inv [OF assms(2) records] show ?thesis .
  next
    case starts
    have bt: "between True c'" by (rule step [OF controller_step.starts [OF starts]])
    have "isConnected c' = isConnected c" "wire c' = wire c" "lw_symbols c' = lw_symbols c"
      using start_aside [OF starts b] by (auto simp: aside_def)
    with bt n show ?thesis by (auto simp: agent_inv_def on_wire_def)
  next
    case (others q m s)
    have "between True c'" by (rule step [OF controller_step.others]) (simp add: others)
    with n others show ?thesis by (auto simp: agent_inv_def on_wire_def)
  next
    case forks
    have f: "controller.truncate c' = controller.truncate (network_on_fork (controller_on_fork c))"
      by (simp add: forks lw_onSocketConnected_def network_on_fork_def network_close_def closeSocket_def controller.truncate_def)
    have "between True (network_on_fork (controller_on_fork c))" by (rule step [OF controller_step.forks])
    then have bt: "between True c'"
      using f same_core_between [where c' = c' and c = "network_on_fork (controller_on_fork c)" and plain = True] 
      by (simp add: controller.truncate_def)
    have "\<not> isConnected c'" using ok
      by (auto simp: forks lw_onSocketConnected_def network_on_fork_def network_close_def closeSocket_def controller_on_fork_def conn_ok_def)
    moreover have "lw_symbols c' = clear_symbols (lw_symbols c)" unfolding forks by (rule fork_symbols)
    ultimately show ?thesis using bt clear_inv [OF n(1)] by (auto simp: agent_inv_def on_wire_def)
  qed
qed

section \<open>What the collector can rely on\<close>

lemma agent_initial_parts:
  assumes "agent_initial c"
  shows "controller_initial c" "lw_symbols c = init_symbols LogWriterError True True symbols_init" "isConnected c = False" "io c = []"
proof -
  obtain out prometheus on cd m q where
    i: "log_writer.truncate c = LogWriter_init out symbols_init (CollectorController_init prometheus on cd m q)"
    using assms by (auto simp: agent_initial_def)
  let ?d = "LogWriter_init out symbols_init (CollectorController_init prometheus on cd m q)"
  have "controller.truncate c = controller.truncate ?d" unfolding i [symmetric]
    by (simp add: controller.truncate_def log_writer.truncate_def)
  then show "controller_initial c" using LogWriter_initial unfolding controller_initial_def by metis
  have "lw_symbols c = lw_symbols ?d" "isConnected c = isConnected ?d" "io c = io ?d" unfolding i [symmetric]
    by (simp_all add: log_writer.truncate_def)
  then show "lw_symbols c = init_symbols LogWriterError True True symbols_init" "isConnected c = False" "io c = []"
    by (simp_all add: LogWriter_init_def controller.extend_def CollectorController_init_def network.extend_def Network_init_def)
qed

lemma initial_inv:
  assumes "agent_initial c"
  shows "agent_inv c"
proof -
  have "between True c" by (rule initial_between [OF agent_initial_parts(1) [OF assms]])
  moreover have "lookup_inv [] 0 (lw_symbols c)"
    by (simp add: agent_initial_parts(2) [OF assms] init_symbols_def symbols_init_def lookup_inv_def sym_inv_def
      ids_inv_def ids_of_def announced_inv_def locs_inv_def files_first_def)
  moreover have "on_wire [] c" by (simp add: on_wire_def agent_initial_parts(3) [OF assms])
  ultimately show ?thesis by (auto simp: agent_inv_def)
qed

lemma agent_reach_inv: "agent_reach we env c \<Longrightarrow> agent_inv c"
  by (induction rule: agent_reach.induct) (auto intro: initial_inv agent_step_inv)

lemma in_anns:
  "NewFunction i n fid \<in> set (anns w) \<longleftrightarrow> MethodInformation i fid n \<in> set w"
  "NewFile i f \<in> set (anns w) \<longleftrightarrow> (\<exists>m. ModuleInformation i f m \<in> set w)"
proof -
  have "NewFunction i n fid \<in> set (ann_of m) \<longleftrightarrow> m = MethodInformation i fid n"
    "NewFile i f \<in> set (ann_of m) \<longleftrightarrow> (\<exists>x. m = ModuleInformation i f x)" for m by (cases m; auto)+
  then show "NewFunction i n fid \<in> set (anns w) \<longleftrightarrow> MethodInformation i fid n \<in> set w"
    "NewFile i f \<in> set (anns w) \<longleftrightarrow> (\<exists>m. ModuleInformation i f m \<in> set w)" by (auto simp: anns_def)
qed

lemma files_first_prefix: "files_first (xs @ ys) \<Longrightarrow> NewFunction i n fid \<in> set xs \<Longrightarrow> fid \<noteq> 0 \<Longrightarrow> \<exists>f. NewFile fid f \<in> set xs"
proof -
  assume f: "files_first (xs @ ys)" and m: "NewFunction i n fid \<in> set xs" and z: "fid \<noteq> 0"
  then obtain k where k: "k < length xs" "xs ! k = NewFunction i n fid" by (auto simp: in_set_conv_nth)
  then have "(xs @ ys) ! k = NewFunction i n fid \<and> fid \<noteq> 0" "k < length (xs @ ys)" using z by (simp_all add: nth_append)
  with f obtain j g where "j < k" "(xs @ ys) ! j = NewFile fid g" unfolding files_first_def by blast
  with k(1) have "j < length xs" "xs ! j = NewFile fid g" by (simp_all add: nth_append)
  then show ?thesis using nth_mem by (metis)
qed

text \<open>C2: Whatever has happened since the agent was started (reconnections, forks, disconnections inside a send, settings
  changed by the collector), while the connection is open the first message on it is the hello; every method a stack
  sample refers to was described on this connection before the sample, under one name only, and the file the method
  belongs to before that. Write errors are supposed to be disconnections or time-outs, and the 64-bit ids not to run out.\<close>

theorem samples_refer_to_announced:
  assumes "agent_reach we env c" "isConnected c"
  shows "(\<exists>hello rest. wire c = HelloMessage hello # rest) \<and>
    (\<forall>before ss after. wire c = before @ StackSampleMessage ss # after \<longrightarrow>
       (\<forall>f \<in> set (compressedFrames ss). \<exists>fid name. MethodInformation (fe_methodId f) fid name \<in> set before \<and>
          (fid \<noteq> 0 \<longrightarrow> (\<exists>file m. ModuleInformation fid file m \<in> set before)) \<and>
          (\<forall>fid' name'. MethodInformation (fe_methodId f) fid' name' \<in> set (wire c) \<longrightarrow> name' = name)))"
proof -
  obtain new where n: "lookup_inv new 0 (lw_symbols c)" "on_wire new c" and b: "between True c"
    using agent_reach_inv [OF assms(1)] by (auto simp: agent_inv_def)
  have w: "anns (wire c) = new" "samples_ok (wire c)" using n(2) assms(2) by (simp_all add: on_wire_def)
  have inv: "announced_inv new (lw_symbols c)" "ids_inv 0 (lw_symbols c)"
    using n(1) by (simp_all add: lookup_inv_def sym_inv_def announced_inv_def ids_inv_def ids_of_def)
  have one: "name' = name" if "NewFunction i name fid \<in> set new" "NewFunction i name' fid' \<in> set new" for i name name' fid fid'
  proof -
    have "knownMethodToIds (lw_symbols c) name = Some i" "knownMethodToIds (lw_symbols c) name' = Some i"
      using that inv(1) unfolding announced_inv_def by blast+
    moreover have "inj_on (knownMethodToIds (lw_symbols c)) (dom (knownMethodToIds (lw_symbols c)))" using inv(2) by (simp add: ids_inv_def)
    ultimately show ?thesis unfolding inj_on_def dom_def by (metis (mono_tags) mem_Collect_eq option.distinct(1))
  qed
  have "\<exists>fid name. MethodInformation (fe_methodId f) fid name \<in> set before \<and>
          (fid \<noteq> 0 \<longrightarrow> (\<exists>file m. ModuleInformation fid file m \<in> set before)) \<and>
          (\<forall>fid' name'. MethodInformation (fe_methodId f) fid' name' \<in> set (wire c) \<longrightarrow> name' = name)"
    if e: "wire c = before @ StackSampleMessage ss # after" and f: "f \<in> set (compressedFrames ss)" for before ss after f
  proof -
    have "list_all (resolved (anns before)) (compressedFrames ss)" using w(2) e by (simp add: samples_ok_def)
    with f obtain name fid where m: "NewFunction (fe_methodId f) name fid \<in> set (anns before)"
      by (auto simp: list_all_iff resolved_def)
    have new: "new = anns before @ anns after" using w(1) e by simp
    have "files_first (anns before @ anns after)" using inv(1) new by (simp add: announced_inv_def)
    from files_first_prefix [OF this m] have "fid \<noteq> 0 \<longrightarrow> (\<exists>file m. ModuleInformation fid file m \<in> set before)"
      by (auto simp: in_anns)
    moreover have "name' = name" if "MethodInformation (fe_methodId f) fid' name' \<in> set (wire c)" for fid' name'
    proof -
      have "NewFunction (fe_methodId f) name' fid' \<in> set new" using that w(1) in_anns(1) by metis
      moreover have "NewFunction (fe_methodId f) name fid \<in> set new" using m new by simp
      ultimately show ?thesis using one by blast
    qed
    ultimately show ?thesis using m in_anns(1) by blast
  qed
  moreover have "\<exists>hello rest. wire c = HelloMessage hello # rest"
    using b assms(2) by (auto simp: between_def wire_greeted_def)
  ultimately show ?thesis by blast
qed

section \<open>The watchdog\<close>



section \<open>An example\<close>

definition demo_writer_env :: writer_env where
  "demo_writer_env = \<lparr>we_sizes = demo_metric_sizes, we_debug_info = demo_info, pthread_getname_np = \<lambda>_. Inr ''main'',
     IsStructurallyValidUTF8 = \<lambda>_. True\<rparr>"

definition demo_trace_event :: QueueEvent where
  "demo_trace_event = RecordStackTrace \<lparr>tv_sec = 1, tv_nsec = 0\<rparr>
     \<lparr>num_frames = 4, ct_threadId = 9, frames = replicate 3 zeroFrame @ [\<lparr>isForeign = True, frame = 32\<rparr>]\<rparr> 27 0 0"

definition demo_record :: "writer_fault + log_writer" where
  "demo_record = log_writer_listener demo_writer_env (send_message (profiler_env demo_env)) demo_trace_event
     (demo_open\<lparr>io := io demo_open @ replicate 3 (Done NO_ERROR)\<rparr>)"

lemma demo_record_facts:
  "demo_record = Inr (projr demo_record)" "isConnected (projr demo_record)"
  "map ann_of (wire (projr demo_record)) = [[], [NewFile 1 ''libc.so''], [NewFunction 2 ''In libc.so'' 1], []]"
proof -
  have "\<not> isl demo_record" by code_simp
  then show "demo_record = Inr (projr demo_record)" by (rule sum.collapse(2) [symmetric])
qed code_simp+

lemma demo_agent_initial: "agent_initial (demo_agent prometheus)"
proof -
  have "log_writer.truncate (demo_agent prometheus) = demo_agent prometheus"
    by (simp add: demo_agent_def log_writer.truncate_def LogWriter_init_def controller.extend_def)
  then show ?thesis unfolding agent_initial_def demo_agent_def by blast
qed

lemma demo_open_agent_reach: "agent_reach demo_writer_env demo_env demo_open"
proof -
  have start: "agent_reach demo_writer_env demo_env (demo_agent False)" by (rule agent_reach.initial [OF demo_agent_initial])
  have plain: "io_plain (io ((demo_agent False)\<lparr>io := io (demo_agent False) @ demo_events\<rparr>))"
    by (simp add: io_plain_def demo_events_def demo_agent_def LogWriter_init_def controller.extend_def
      CollectorController_init_def network.extend_def Network_init_def)
  show ?thesis
    by (rule agent_reach.step [OF agent_reach.step [OF start agent_step.arrives]
        agent_step.polls [OF plain demo_open_facts(1) [unfolded demo_poll_def]]])
qed


lemma demo_trace_start:
  "agent_reach demo_writer_env demo_env (demo_open\<lparr>io := io demo_open @ replicate 3 (Done NO_ERROR)\<rparr>)"
  "io_plain (io (demo_open\<lparr>io := io demo_open @ replicate 3 (Done NO_ERROR)\<rparr>))"
  "ids_left demo_writer_env demo_trace_event (demo_open\<lparr>io := io demo_open @ replicate 3 (Done NO_ERROR)\<rparr>)"
proof -
  show "agent_reach demo_writer_env demo_env (demo_open\<lparr>io := io demo_open @ replicate 3 (Done NO_ERROR)\<rparr>)"
    by (rule agent_reach.step [OF demo_open_agent_reach agent_step.arrives])
  show "io_plain (io (demo_open\<lparr>io := io demo_open @ replicate 3 (Done NO_ERROR)\<rparr>))"
    by (simp add: io_plain_def demo_open_facts(7))
  have "nextId (lw_symbols demo_open) = 1" by code_simp
  then show "ids_left demo_writer_env demo_trace_event (demo_open\<lparr>io := io demo_open @ replicate 3 (Done NO_ERROR)\<rparr>)"
    by (simp add: ids_left_def demo_trace_event_def callbacks_def demo_writer_env_def demo_info_def zeroFrame_def sum_list_replicate)
qed

lemma demo_agent_reach: "agent_reach demo_writer_env demo_env (projr demo_record)"
  by (rule agent_reach.step [OF demo_trace_start(1)
      agent_step.records [OF demo_trace_start(2,3) demo_record_facts(1) [unfolded demo_record_def]], folded demo_record_def])

lemma samples_refer_to_announced_witness:
  "\<exists>before ss f. wire (projr demo_record) = before @ [StackSampleMessage ss] \<and> compressedFrames ss = [f] \<and>
     (\<exists>fid name. MethodInformation (fe_methodId f) fid name \<in> set before \<and>
        (fid \<noteq> 0 \<longrightarrow> (\<exists>file m. ModuleInformation fid file m \<in> set before)))"
proof -
  have "case last (wire (projr demo_record)) of StackSampleMessage ss \<Rightarrow> length (compressedFrames ss) = 1 | _ \<Rightarrow> False"
    "wire (projr demo_record) \<noteq> []" by code_simp+
  then obtain ss f where l: "last (wire (projr demo_record)) = StackSampleMessage ss" "compressedFrames ss = [f]"
      and ne: "wire (projr demo_record) \<noteq> []"
    by (cases "last (wire (projr demo_record))") (auto simp: length_Suc_conv)
  have w: "wire (projr demo_record) = butlast (wire (projr demo_record)) @ [StackSampleMessage ss]" "compressedFrames ss = [f]"
    using append_butlast_last_id [OF ne] l by simp_all
  note r = samples_refer_to_announced [OF demo_agent_reach demo_record_facts(2), THEN conjunct2, rule_format, OF w(1), of f]
  have "f \<in> set (compressedFrames ss)" by (simp add: w(2))
  from r [OF this] w show ?thesis by blast
qed

end
