(* ===== verification/Prometheus_Exporter.thy ===== *)
theory Prometheus_Exporter
  imports Log_Writer "HOL-Library.AList"
begin

text \<open>
  \<^verbatim>\<open>src/lib/prometheus_exporter.cpp\<close>: the call tree the stack samples are counted in when the agent serves Prometheus
  instead of a collector, the text a scrape is answered with, and the choice of the port. An \<open>unordered_map\<close> is an
  association list; the order its entries are visited in is not specified by C++.
\<close>

section \<open>The call tree\<close>

datatype ProfileNode =
  ProfileNode (node_locations: "Location list") (pcToNode: "(u64 \<times> ProfileNode) list") (seenInPhase: bool)
    (cpuCount: int) (wallclockCount: int)

text \<open>Value initialisation zeroes the flag and the counts.\<close>

definition newProfileNode :: "Location list \<Rightarrow> ProfileNode" where
  "newProfileNode locations = ProfileNode locations [] False 0 0"

definition node_count :: "bool \<Rightarrow> ProfileNode \<Rightarrow> int" where
  "node_count isCpuSample node = (if isCpuSample then cpuCount node else wallclockCount node)"

definition bump :: "bool \<Rightarrow> ProfileNode \<Rightarrow> ProfileNode" where
  "bump isCpuSample node = (case node of ProfileNode ls cs seen cpu wall \<Rightarrow>
     if isCpuSample then ProfileNode ls cs seen (cpu + 1) wall else ProfileNode ls cs seen cpu (wall + 1))"

definition mark_seen :: "ProfileNode \<Rightarrow> ProfileNode" where
  "mark_seen node = (case node of ProfileNode ls cs seen cpu wall \<Rightarrow> ProfileNode ls cs True cpu wall)"

definition set_child :: "u64 \<Rightarrow> ProfileNode \<Rightarrow> ProfileNode \<Rightarrow> ProfileNode" where
  "set_child pc child node = (case node of ProfileNode ls cs seen cpu wall \<Rightarrow> ProfileNode ls (AList.update pc child cs) seen cpu wall)"

fun end_phase_node :: "ProfileNode \<Rightarrow> ProfileNode" where
  "end_phase_node (ProfileNode ls cs seen cpu wall) =
     ProfileNode ls (map (\<lambda>(pc, child). (pc, end_phase_node child)) cs) False 0 0"

section \<open>Recording\<close>

text \<open>The walk down the tree, from the outermost frame; a node that is not there yet is looked up and added.\<close>

fun add_path :: "debug_info \<Rightarrow> bool \<Rightarrow> CallFrame list \<Rightarrow> ProfileNode \<Rightarrow> symbols \<Rightarrow> symbol_fault + ProfileNode \<times> symbols" where
  "add_path di isCpuSample [] node s = Inr (bump isCpuSample node, s)"
| "add_path di isCpuSample (f # fs) node s =
     (case map_of (pcToNode node) (frame f) of
        Some child \<Rightarrow>
          (case add_path di isCpuSample fs (mark_seen child) s of
             Inl e \<Rightarrow> Inl e
           | Inr (child, s) \<Rightarrow> Inr (set_child (frame f) child node, s))
      | None \<Rightarrow>
          (case lookup_locations di (frame f) (isForeign f) s of
             Inl e \<Rightarrow> Inl e
           | Inr (locations, s) \<Rightarrow>
               (case add_path di isCpuSample fs (mark_seen (newProfileNode locations)) s of
                  Inl e \<Rightarrow> Inl e
                | Inr (child, s) \<Rightarrow> Inr (set_child (frame f) child node, s))))"

text \<open>
  What recording can run into: the error callback of a lookup, the format \<open>%n\<close> a broken trace is logged with (its
  argument is a number, not a pointer), a frame outside the buffer of a trace that counts more than the buffer holds: the
  loop begins with the last one. The signal handler's own frames are skipped.
\<close>

datatype exporter_fault = LookupFault symbol_fault | BrokenTraceFormat | FramesOutside

definition sampled_frames :: "CallTrace \<Rightarrow> CallFrame list" where
  "sampled_frames trace = rev (drop NUMBER_OF_SIGNAL_HANDLER_FRAMES (take (nat (num_frames trace)) (frames trace)))"

definition prom_recordStackTrace :: "debug_info \<Rightarrow> CallTrace \<Rightarrow> int \<Rightarrow> ProfileNode \<times> symbols \<Rightarrow> exporter_fault + ProfileNode \<times> symbols" where
  "prom_recordStackTrace di trace signal rs =
     (if num_frames trace < 0 then Inl BrokenTraceFormat
      else if \<not> frames_within trace then Inl FramesOutside
      else map_sum LookupFault id (add_path di (signal = SIGPROF) (sampled_frames trace) (fst rs) (snd rs)))"

fun prometheus_listener :: "debug_info \<Rightarrow> QueueEvent \<Rightarrow> ProfileNode \<times> symbols \<Rightarrow> exporter_fault + ProfileNode \<times> symbols" where
  "prometheus_listener di (RecordStackTrace ts trace signal state tsc) rs = prom_recordStackTrace di trace signal rs"
| "prometheus_listener di _ rs = Inr rs"

definition prometheus_queue_listener :: "symbols \<Rightarrow> ProfileNode \<times> symbols" where
  "prometheus_queue_listener s = (newProfileNode [], init_symbols PrometheusError False False s)"

section \<open>Scraping\<close>

definition nl :: char where "nl = CHR 0x0A"
definition quote :: char where "quote = CHR 0x22"

definition prefix_200 :: string where
  "prefix_200 = ''HTTP/1.1 200 OK'' @ [nl] @ ''Content-Type: text/html; charset=utf-8'' @ [nl, nl] @
     ''# HELP promfiler_cpu_profile CPU stack trace samples'' @ [nl] @ ''# TYPE promfiler_cpu_profile gauge'' @ [nl]"

definition response_404 :: string where
  "response_404 = ''HTTP/1.1 404 Not Found'' @ [nl] @ ''Content-Type: text/html; charset=utf-8'' @ [nl, nl] @
     ''<html><body><i>Not Found!</i></body></html>''"

definition prefix_1 :: string where "prefix_1 = ''promfiler_cpu_profile{type='' @ [quote]"
definition prefix_2 :: string where "prefix_2 = [quote] @ '',signature='' @ [quote]"

definition rootPrefix :: "string \<Rightarrow> bool \<Rightarrow> string" where
  "rootPrefix segment isCpuSample =
     prefix_1 @ (if isCpuSample then ''cpu'' else ''wallclock'') @
       (if segment \<noteq> [] then [quote] @ '',segment='' @ [quote] @ segment @ prefix_2 else prefix_2)"

definition node_functions :: "bool \<Rightarrow> ProfileNode \<Rightarrow> string list" where
  "node_functions isRoot node = (if isRoot then [''(root)''] else map (\<lambda>l. ''#'' @ functionName l) (node_locations node))"

text \<open>One line per function, each with the functions up to it.\<close>

fun function_lines :: "int \<Rightarrow> string \<Rightarrow> string list \<Rightarrow> string list" where
  "function_lines n common [] = []"
| "function_lines n common (f # fs) =
     ((common @ f) @ [quote] @ ''} '' @ show_int n @ [nl]) # function_lines n (common @ f) fs"

fun write_profile_node :: "bool \<Rightarrow> bool \<Rightarrow> string \<Rightarrow> ProfileNode \<Rightarrow> string list" where
  "write_profile_node isRoot isCpuSample prefix (ProfileNode ls cs seen cpu wall) =
     (if \<not> seen then []
      else
        (let functions = node_functions isRoot (ProfileNode ls cs seen cpu wall)
         in function_lines (node_count isCpuSample (ProfileNode ls cs seen cpu wall)) prefix functions @
            concat (map (\<lambda>(pc, child). write_profile_node False isCpuSample (prefix @ concat functions) child) cs)))"

definition metrics_request :: string where "metrics_request = ''GET /metrics HTTP/1.1''"

text \<open>What a session writes for the bytes it read, and the tree afterwards; \<open>None\<close> is a read that failed.\<close>

definition serve :: "string \<Rightarrow> string option \<Rightarrow> ProfileNode \<Rightarrow> string list \<times> ProfileNode" where
  "serve segment request root =
     (case request of
        None \<Rightarrow> ([], root)
      | Some str \<Rightarrow>
          if string_find str metrics_request 0 \<noteq> None then
            ([prefix_200] @ write_profile_node True True (rootPrefix segment True) root @
               write_profile_node True False (rootPrefix segment False) root,
             mark_seen (end_phase_node root))
          else ([response_404], root))"

section \<open>Binding\<close>

datatype ip_address = AnyV4 | Address string

text \<open>
  Both tests of the error code come before it is set, so an address that does not parse is the unspecified one.
  \<open>parse_ip\<close> is \<open>from_string\<close>, \<open>can_bind\<close> whether opening the acceptor throws.
\<close>

definition endpoint_address :: "(string \<Rightarrow> string option) \<Rightarrow> string \<Rightarrow> ip_address" where
  "endpoint_address parse_ip h =
     (if h = [] then AnyV4 else case parse_ip h of None \<Rightarrow> AnyV4 | Some a \<Rightarrow> Address a)"

fun try_ports :: "(ip_address \<times> 16 word \<Rightarrow> bool) \<Rightarrow> ip_address \<Rightarrow> int list \<Rightarrow> (ip_address \<times> 16 word) option" where
  "try_ports can_bind a [] = None"
| "try_ports can_bind a (p # ps) =
     (if can_bind (a, word_of_int p) then Some (a, word_of_int p) else try_ports can_bind a ps)"

text \<open>\<open>acceptor\<close> is what was bound before, if anything.\<close>

definition bind_prometheus :: "(string \<Rightarrow> string option) \<Rightarrow> (ip_address \<times> 16 word \<Rightarrow> bool) \<Rightarrow> ConfigurationOptions
    \<Rightarrow> (ip_address \<times> 16 word) option \<Rightarrow> bool \<times> (ip_address \<times> 16 word) option" where
  "bind_prometheus parse_ip can_bind configuration acceptor =
     (if acceptor \<noteq> None then (False, acceptor)
      else case try_ports can_bind (endpoint_address parse_ip (prometheusHost configuration)) (prometheusPorts configuration) of
             None \<Rightarrow> (False, None)
           | Some e \<Rightarrow> (True, Some e))"

section \<open>What the tree counts\<close>

fun node_at :: "u64 list \<Rightarrow> ProfileNode \<Rightarrow> ProfileNode option" where
  "node_at [] node = Some node"
| "node_at (pc # pcs) node = (case map_of (pcToNode node) pc of None \<Rightarrow> None | Some child \<Rightarrow> node_at pcs child)"

definition count_at :: "bool \<Rightarrow> u64 list \<Rightarrow> ProfileNode \<Rightarrow> int" where
  "count_at k pcs node = (case node_at pcs node of None \<Rightarrow> 0 | Some n \<Rightarrow> node_count k n)"

text \<open>All nodes below this one on the path are there and marked.\<close>

fun seen_along :: "u64 list \<Rightarrow> ProfileNode \<Rightarrow> bool" where
  "seen_along [] node = True"
| "seen_along (pc # pcs) node =
     (case map_of (pcToNode node) pc of None \<Rightarrow> False | Some child \<Rightarrow> seenInPhase child \<and> seen_along pcs child)"

lemma bump_simps [simp]:
  "pcToNode (bump k n) = pcToNode n" "seenInPhase (bump k n) = seenInPhase n" "node_locations (bump k n) = node_locations n"
  "node_count j (bump k n) = node_count j n + (if j = k then 1 else 0)"
  by (cases n; simp add: bump_def node_count_def)+

lemma mark_seen_simps [simp]:
  "pcToNode (mark_seen n) = pcToNode n" "seenInPhase (mark_seen n)" "node_locations (mark_seen n) = node_locations n"
  "node_count k (mark_seen n) = node_count k n"
  by (cases n; simp add: mark_seen_def node_count_def)+

lemma set_child_simps [simp]:
  "map_of (pcToNode (set_child pc child n)) = (map_of (pcToNode n))(pc \<mapsto> child)" "seenInPhase (set_child pc child n) = seenInPhase n"
  "node_locations (set_child pc child n) = node_locations n" "node_count k (set_child pc child n) = node_count k n"
  by (cases n; simp add: set_child_def node_count_def update_conv')+

lemma new_node_simps [simp]:
  "pcToNode (newProfileNode ls) = []" "\<not> seenInPhase (newProfileNode ls)" "node_count k (newProfileNode ls) = 0"
  by (simp_all add: newProfileNode_def node_count_def)

lemma count_at_simps [simp]:
  "count_at k [] n = node_count k n"
  "count_at k (pc # pcs) n = (case map_of (pcToNode n) pc of None \<Rightarrow> 0 | Some child \<Rightarrow> count_at k pcs child)"
  by (simp_all add: count_at_def split: option.split)

lemma count_at_mark_seen [simp]: "count_at k pcs (mark_seen n) = count_at k pcs n"
  by (cases pcs) simp_all

lemma count_at_new [simp]: "count_at k pcs (newProfileNode ls) = 0"
  by (cases pcs) simp_all

lemma add_path_counts:
  "add_path di cpu fs node s = Inr (node', s') \<Longrightarrow>
     count_at k pcs node' = count_at k pcs node + (if k = cpu \<and> pcs = map frame fs then 1 else 0) \<and>
     seenInPhase node' = seenInPhase node"
proof (induction di cpu fs node s arbitrary: pcs node' s' rule: add_path.induct)
  case (1 di cpu node s)
  then show ?case by (cases pcs) auto
next
  case (2 di cpu f fs node s)
  show ?case
  proof (cases "map_of (pcToNode node) (frame f)")
    case (Some child)
    with "2.prems" obtain child' where c: "add_path di cpu fs (mark_seen child) s = Inr (child', s')" "node' = set_child (frame f) child' node"
      by (auto split: sum.splits)
    note IH = "2.IH"(2) [OF Some c(1)]
    show ?thesis using Some c(2) IH by (cases pcs) (auto split: option.split)
  next
    case None
    with "2.prems" obtain ls s1 child' where l: "lookup_locations di (frame f) (isForeign f) s = Inr (ls, s1)"
        "add_path di cpu fs (mark_seen (newProfileNode ls)) s1 = Inr (child', s')" "node' = set_child (frame f) child' node"
      by (auto split: sum.splits)
    note IH = "2.IH"(1) [OF None l(1) refl l(2)]
    show ?thesis using None l(3) IH by (cases pcs) (auto split: option.split)
  qed
qed

lemma add_path_seen:
  "add_path di cpu fs node s = Inr (node', s') \<Longrightarrow> seen_along (map frame fs) node' \<and> (seen_along pcs node \<longrightarrow> seen_along pcs node')"
proof (induction di cpu fs node s arbitrary: pcs node' s' rule: add_path.induct)
  case (1 di cpu node s)
  then show ?case by (cases pcs) auto
next
  case (2 di cpu f fs node s)
  show ?case
  proof (cases "map_of (pcToNode node) (frame f)")
    case (Some child)
    with "2.prems" obtain child' where c: "add_path di cpu fs (mark_seen child) s = Inr (child', s')" "node' = set_child (frame f) child' node"
      by (auto split: sum.splits)
    have m: "seen_along qs (mark_seen child) = seen_along qs child" for qs by (cases qs) simp_all
    have "seenInPhase child'" using add_path_counts [OF c(1)] by simp
    then show ?thesis using Some c(2) "2.IH"(2) [OF Some c(1)] m by (cases pcs) (auto split: option.splits)
  next
    case None
    with "2.prems" obtain ls s1 child' where l: "lookup_locations di (frame f) (isForeign f) s = Inr (ls, s1)"
        "add_path di cpu fs (mark_seen (newProfileNode ls)) s1 = Inr (child', s')" "node' = set_child (frame f) child' node"
      by (auto split: sum.splits)
    have "seenInPhase child'" using add_path_counts [OF l(2)] by simp
    then show ?thesis using None l(3) "2.IH"(1) [OF None l(1) refl l(2)] by (cases pcs) (auto split: option.splits)
  qed
qed

section \<open>A phase\<close>

text \<open>
  A phase is what lies between two scrapes. The exporter lives through samples taken off the queue and requests; what has
  been sampled in the present phase is what came after the last request for the metrics.
\<close>

datatype exporter_op = Sample CallTrace int | Request "string option"

definition metrics_scrape :: "string option \<Rightarrow> bool" where
  "metrics_scrape request = (case request of None \<Rightarrow> False | Some str \<Rightarrow> string_find str metrics_request 0 \<noteq> None)"

fun exporter_run :: "debug_info \<Rightarrow> string \<Rightarrow> exporter_op list \<Rightarrow> ProfileNode \<times> symbols \<Rightarrow> exporter_fault + ProfileNode \<times> symbols" where
  "exporter_run di segment [] rs = Inr rs"
| "exporter_run di segment (Sample trace signal # ops) rs =
     (case prom_recordStackTrace di trace signal rs of Inl e \<Rightarrow> Inl e | Inr rs \<Rightarrow> exporter_run di segment ops rs)"
| "exporter_run di segment (Request r # ops) rs = exporter_run di segment ops (snd (serve segment r (fst rs)), snd rs)"

fun phase :: "exporter_op list \<Rightarrow> (CallTrace \<times> int) list \<Rightarrow> (CallTrace \<times> int) list" where
  "phase [] taken = taken"
| "phase (Sample trace signal # ops) taken = phase ops (taken @ [(trace, signal)])"
| "phase (Request r # ops) taken = phase ops (if metrics_scrape r then [] else taken)"

fun scraped :: "exporter_op list \<Rightarrow> bool \<Rightarrow> bool" where
  "scraped [] before = before"
| "scraped (Sample trace signal # ops) before = scraped ops before"
| "scraped (Request r # ops) before = scraped ops (before \<or> metrics_scrape r)"

definition occurrences :: "bool \<Rightarrow> u64 list \<Rightarrow> (CallTrace \<times> int) list \<Rightarrow> nat" where
  "occurrences k pcs taken =
     length (filter (\<lambda>(trace, signal). (signal = SIGPROF) = k \<and> map frame (sampled_frames trace) = pcs) taken)"

lemma occurrences_simps [simp]:
  "occurrences k pcs [] = 0"
  "occurrences k pcs (xs @ [(trace, signal)]) = occurrences k pcs xs +
     (if (signal = SIGPROF) = k \<and> map frame (sampled_frames trace) = pcs then 1 else 0)"
  by (simp_all add: occurrences_def)

text \<open>Every node has each of its children once.\<close>

fun keys_once :: "ProfileNode \<Rightarrow> bool" where
  "keys_once (ProfileNode ls cs seen cpu wall) = (distinct (map fst cs) \<and> (\<forall>c \<in> set cs. keys_once (snd c)))"

lemma keys_once_simps [simp]:
  "keys_once (bump k n) = keys_once n" "keys_once (mark_seen n) = keys_once n" "keys_once (newProfileNode ls)"
  by (cases n; simp add: bump_def mark_seen_def newProfileNode_def)+

lemma keys_once_child: "keys_once n \<Longrightarrow> map_of (pcToNode n) pc = Some child \<Longrightarrow> keys_once child"
  by (cases n) (auto dest: map_of_SomeD)

lemma set_update: "set (AList.update k v al) \<subseteq> insert (k, v) (set al)"
  by (induction al) auto

lemma keys_once_set_child: "keys_once n \<Longrightarrow> keys_once child \<Longrightarrow> keys_once (set_child pc child n)"
  by (cases n) (auto simp: set_child_def intro: distinct_update dest!: set_mp [OF set_update])

lemma add_path_keys: "add_path di cpu fs node s = Inr (node', s') \<Longrightarrow> keys_once node \<Longrightarrow> keys_once node'"
proof (induction di cpu fs node s arbitrary: node' s' rule: add_path.induct)
  case (2 di cpu f fs node s)
  then show ?case by (fastforce split: option.splits sum.splits intro: keys_once_set_child dest: keys_once_child)
qed auto

lemma end_phase_simps [simp]:
  "map_of (pcToNode (end_phase_node n)) pc = map_option end_phase_node (map_of (pcToNode n) pc)" "\<not> seenInPhase (end_phase_node n)"
  "node_locations (end_phase_node n) = node_locations n" "node_count k (end_phase_node n) = 0"
  by (cases n; simp add: node_count_def map_of_map)+

lemma end_phase_keys [simp]: "keys_once (end_phase_node n) = keys_once n"
proof (induction n)
  case (ProfileNode ls cs seen cpu wall)
  have d: "distinct (map (fst \<circ> (\<lambda>(pc, child). (pc, end_phase_node child))) cs) = distinct (map fst cs)"
    by (rule arg_cong [of _ _ distinct], induction cs) auto
  have "keys_once (end_phase_node (snd c)) = keys_once (snd c)" if "c \<in> set cs" for c
    using ProfileNode [of c "snd c"] that by (cases c) auto
  then show ?case by (auto simp: d)
qed

lemma count_at_end_phase [simp]: "count_at k pcs (end_phase_node n) = 0"
  by (induction pcs arbitrary: n) (auto split: option.split)

definition exporter_inv :: "(CallTrace \<times> int) list \<Rightarrow> bool \<Rightarrow> ProfileNode \<Rightarrow> bool" where
  "exporter_inv taken before root \<longleftrightarrow>
     (\<forall>k pcs. count_at k pcs root = int (occurrences k pcs taken)) \<and>
     (\<forall>k pcs. 0 < occurrences k pcs taken \<longrightarrow> seen_along pcs root) \<and> seenInPhase root = before \<and> keys_once root"

lemma record_exporter_inv:
  assumes "prom_recordStackTrace di trace signal rs = Inr rs'" "exporter_inv taken before (fst rs)"
  shows "exporter_inv (taken @ [(trace, signal)]) before (fst rs')"
proof -
  have r: "add_path di (signal = SIGPROF) (sampled_frames trace) (fst rs) (snd rs) = Inr (fst rs', snd rs')"
    using assms(1) by (auto simp: prom_recordStackTrace_def map_sum_def split: if_splits sum.splits)
  show ?thesis using assms(2) add_path_counts [OF r] add_path_seen [OF r] add_path_keys [OF r]
    by (auto simp: exporter_inv_def)
qed

lemma serve_exporter_inv:
  "exporter_inv taken before root \<Longrightarrow>
     exporter_inv (if metrics_scrape r then [] else taken) (before \<or> metrics_scrape r) (snd (serve segment r root))"
  by (auto simp: serve_def metrics_scrape_def exporter_inv_def split: option.split)

lemma exporter_run_inv:
  "exporter_run di segment ops rs = Inr rs' \<Longrightarrow> exporter_inv taken before (fst rs) \<Longrightarrow>
     exporter_inv (phase ops taken) (scraped ops before) (fst rs')"
proof (induction di segment ops rs arbitrary: taken before rule: exporter_run.induct)
  case (2 di segment trace signal ops rs)
  then obtain rs1 where "prom_recordStackTrace di trace signal rs = Inr rs1" "exporter_run di segment ops rs1 = Inr rs'"
    by (auto split: sum.splits)
  then show ?case using "2.IH" "2.prems"(2) record_exporter_inv by simp
next
  case (3 di segment r ops rs)
  then show ?case using serve_exporter_inv [of taken before "fst rs" r segment] by simp
qed auto

section \<open>What a scrape shows\<close>

fun names_along :: "bool \<Rightarrow> u64 list \<Rightarrow> ProfileNode \<Rightarrow> string" where
  "names_along isRoot [] node = concat (node_functions isRoot node)"
| "names_along isRoot (pc # pcs) node =
     concat (node_functions isRoot node) @ (case map_of (pcToNode node) pc of None \<Rightarrow> [] | Some child \<Rightarrow> names_along False pcs child)"

definition sample_line :: "string \<Rightarrow> string \<Rightarrow> int \<Rightarrow> string" where
  "sample_line prefix shown n = prefix @ shown @ [quote] @ ''} '' @ show_int n @ [nl]"

lemma function_lines_iff:
  "l \<in> set (function_lines n common fs) \<longleftrightarrow> (\<exists>gs hs. gs \<noteq> [] \<and> fs = gs @ hs \<and> l = sample_line common (concat gs) n)"
proof (induction fs arbitrary: common)
  case (Cons f fs)
  show ?case (is "?L = ?R")
  proof
    assume ?L
    then consider "l = sample_line common (concat [f]) n"
      | gs hs where "gs \<noteq> []" "fs = gs @ hs" "l = sample_line (common @ f) (concat gs) n"
      using Cons by (auto simp: sample_line_def)
    then show ?R
    proof cases
      case 1
      then show ?thesis by (intro exI [of _ "[f]"] exI [of _ fs]) simp
    next
      case 2
      then show ?thesis by (intro exI [of _ "f # gs"] exI [of _ hs]) (simp add: sample_line_def)
    qed
  next
    assume ?R
    then obtain gs hs where g: "f # fs = (f # gs) @ hs" "l = sample_line common (concat (f # gs)) n" by (cases "fst ([], [])") (auto simp: Cons_eq_append_conv)
    show ?L
    proof (cases "gs = []")
      case False
      then show ?thesis using g Cons by (auto simp: sample_line_def)
    qed (use g in \<open>simp add: sample_line_def\<close>)
  qed
qed simp

lemma set_write_profile_node:
  "set (write_profile_node isRoot k prefix node) =
     (if seenInPhase node then
        set (function_lines (node_count k node) prefix (node_functions isRoot node)) \<union>
        (\<Union>c \<in> set (pcToNode node). set (write_profile_node False k (prefix @ concat (node_functions isRoot node)) (snd c)))
      else {})"
  by (cases node) (simp add: Let_def case_prod_beta)

lemma write_complete:
  "seenInPhase node \<Longrightarrow> seen_along pcs node \<Longrightarrow> node_at pcs node = Some n \<Longrightarrow> node_functions (isRoot \<and> pcs = []) n \<noteq> [] \<Longrightarrow>
     sample_line prefix (names_along isRoot pcs node) (count_at k pcs node) \<in> set (write_profile_node isRoot k prefix node)"
proof (induction pcs arbitrary: isRoot prefix node)
  case Nil
  then have "sample_line prefix (names_along isRoot [] node) (count_at k [] node)
      \<in> set (function_lines (node_count k node) prefix (node_functions isRoot node))"
    by (simp add: function_lines_iff) blast
  then show ?case using Nil.prems(1) by (subst set_write_profile_node) simp
next
  case (Cons pc pcs)
  then obtain child where c: "map_of (pcToNode node) pc = Some child" "seenInPhase child" "seen_along pcs child" "node_at pcs child = Some n"
    by (auto split: option.splits)
  have "sample_line (prefix @ concat (node_functions isRoot node)) (names_along False pcs child) (count_at k pcs child)
      \<in> set (write_profile_node False k (prefix @ concat (node_functions isRoot node)) child)"
    using Cons.prems(4) by (intro Cons.IH c) simp
  then have "sample_line prefix (names_along isRoot (pc # pcs) node) (count_at k (pc # pcs) node)
      \<in> (\<Union>c \<in> set (pcToNode node). set (write_profile_node False k (prefix @ concat (node_functions isRoot node)) (snd c)))"
    using c(1) by (intro UN_I [OF map_of_SomeD [OF c(1)]]) (simp add: sample_line_def)
  then show ?case using Cons.prems(1) by (subst set_write_profile_node) simp
qed

lemma write_sound:
  "l \<in> set (write_profile_node isRoot k prefix node) \<Longrightarrow> keys_once node \<Longrightarrow>
     \<exists>pcs shown rest. shown @ rest = names_along isRoot pcs node \<and> node_at pcs node \<noteq> None \<and> l = sample_line prefix shown (count_at k pcs node)"
proof (induction node arbitrary: isRoot prefix)
  case (ProfileNode ls cs seen cpu wall)
  let ?n = "ProfileNode ls cs seen cpu wall" and ?fs = "node_functions isRoot (ProfileNode ls cs seen cpu wall)"
  consider "l \<in> set (function_lines (node_count k ?n) prefix ?fs)"
    | pc child where "(pc, child) \<in> set cs" "l \<in> set (write_profile_node False k (prefix @ concat ?fs) child)"
    using ProfileNode.prems(1) by (subst (asm) set_write_profile_node) (auto split: if_splits)
  then show ?case
  proof cases
    case 1
    then obtain gs hs where "?fs = gs @ hs" "l = sample_line prefix (concat gs) (node_count k ?n)" by (auto simp: function_lines_iff)
    then show ?thesis by (intro exI [of _ "[]"] exI [of _ "concat gs"] exI [of _ "concat hs"]) simp
  next
    case 2
    then have "keys_once child" "map_of cs pc = Some child" using ProfileNode.prems(2) by auto
    moreover obtain pcs shown rest where "shown @ rest = names_along False pcs child" "node_at pcs child \<noteq> None"
      "l = sample_line (prefix @ concat ?fs) shown (count_at k pcs child)"
      using ProfileNode.IH [OF 2(1) _ 2(2)] \<open>keys_once child\<close> by auto
    ultimately show ?thesis by (intro exI [of _ "pc # pcs"] exI [of _ "concat ?fs @ shown"] exI [of _ rest]) (simp add: sample_line_def)
  qed
qed

section \<open>Correctness\<close>

text \<open>
  The samples the exporter takes without a fault: no broken trace, no more frames than the buffer holds, no error of
  libbacktrace for an address.
\<close>

fun sample_ok :: "debug_info \<Rightarrow> exporter_op \<Rightarrow> bool" where
  "sample_ok di (Sample trace signal) \<longleftrightarrow> 0 \<le> num_frames trace \<and> frames_within trace \<and>
     list_all (\<lambda>f. no_bt_error di (frame f, isForeign f)) (sampled_frames trace)"
| "sample_ok di (Request r) \<longleftrightarrow> True"

lemma add_path_returns:
  "list_all (\<lambda>f. no_bt_error di (frame f, isForeign f)) fs \<Longrightarrow> \<exists>ns. add_path di cpu fs node s = Inr ns"
proof (induction fs arbitrary: node s)
  case (Cons f fs)
  show ?case
  proof (cases "map_of (pcToNode node) (frame f)")
    case None
    obtain ls s1 where l: "lookup_locations di (frame f) (isForeign f) s = Inr (ls, s1)"
      using Cons.prems lookup_returns [of di "frame f" "isForeign f" s] by auto
    obtain n t where "add_path di cpu fs (mark_seen (newProfileNode ls)) s1 = Inr (n, t)"
      using Cons.IH [of "mark_seen (newProfileNode ls)" s1] Cons.prems by auto
    then show ?thesis using None l by simp
  next
    case (Some child)
    obtain n t where "add_path di cpu fs (mark_seen child) s = Inr (n, t)"
      using Cons.IH [of "mark_seen child" s] Cons.prems by auto
    then show ?thesis using Some by simp
  qed
qed simp

lemma exporter_run_returns: "list_all (sample_ok di) ops \<Longrightarrow> \<exists>rs'. exporter_run di segment ops rs = Inr rs'"
proof (induction di segment ops rs rule: exporter_run.induct)
  case (2 di segment trace signal ops rs)
  obtain ns where "add_path di (signal = SIGPROF) (sampled_frames trace) (fst rs) (snd rs) = Inr ns"
    using add_path_returns "2.prems" by fastforce
  then have "prom_recordStackTrace di trace signal rs = Inr ns" using "2.prems" by (simp add: prom_recordStackTrace_def)
  then show ?case using 2 by simp
qed auto

lemma exporter_result:
  "case exporter_run di segment ops (prometheus_queue_listener s0) of
     Inl e \<Rightarrow> \<not> list_all (sample_ok di) ops
   | Inr (root, s) \<Rightarrow> exporter_inv (phase ops []) (scraped ops False) root"
proof (cases "exporter_run di segment ops (prometheus_queue_listener s0)")
  case (Inl e)
  then show ?thesis using exporter_run_returns [of di ops segment "prometheus_queue_listener s0"] by auto
next
  case (Inr rs)
  have "exporter_inv [] False (fst (prometheus_queue_listener s0))" by (simp add: prometheus_queue_listener_def exporter_inv_def)
  from exporter_run_inv [OF Inr this] Inr show ?thesis by (cases rs) simp
qed

lemma seen_node_at: "seen_along pcs node \<Longrightarrow> \<exists>n. node_at pcs node = Some n"
  by (induction pcs arbitrary: node) (auto split: option.splits)

text \<open>C16: Whatever was sampled and asked before, the exporter faults only on a sample that is broken, counts more frames than
  its buffer holds or has an address libbacktrace reports an error for. From the second scrape on, a scrape answers with
  a line for every call path sampled since the last one whose innermost frame has a location (and for the samples of no
  frame at all), which shows the functions along the path and exactly the number of its samples of that kind; every line
  it contains shows such a count, and all counts start again from zero.\<close>

theorem scrape_counts_samples:
  assumes "scraped ops False" "metrics_scrape request"
  shows "case exporter_run di segment ops (prometheus_queue_listener s0) of
      Inl e \<Rightarrow> \<not> list_all (sample_ok di) ops
    | Inr (root, s) \<Rightarrow> \<exists>out root'. serve segment request root = (out, root') \<and>
    (\<forall>k pcs. 0 < occurrences k pcs (phase ops []) \<longrightarrow> (\<exists>n. node_at pcs root = Some n \<and>
       (pcs = [] \<or> node_locations n \<noteq> [] \<longrightarrow>
          sample_line (rootPrefix segment k) (names_along True pcs root) (int (occurrences k pcs (phase ops []))) \<in> set out))) \<and>
    (\<forall>l \<in> set out. l = prefix_200 \<or> (\<exists>k pcs shown rest. node_at pcs root \<noteq> None \<and> shown @ rest = names_along True pcs root \<and>
       l = sample_line (rootPrefix segment k) shown (int (occurrences k pcs (phase ops []))))) \<and>
    (\<forall>k pcs. count_at k pcs root' = 0)"
proof (cases "exporter_run di segment ops (prometheus_queue_listener s0)")
  case (Inl e)
  then show ?thesis using exporter_result [of di ops segment s0] by simp
next
  case (Inr rs)
  then obtain root s where run: "exporter_run di segment ops (prometheus_queue_listener s0) = Inr (root, s)" by (cases rs) simp
  then have inv: "exporter_inv (phase ops []) (scraped ops False) root" using exporter_result [of di ops segment s0] by simp
  note i = inv [unfolded exporter_inv_def]
  let ?w = "\<lambda>k. write_profile_node True k (rootPrefix segment k) root"
  have out: "serve segment request root = ([prefix_200] @ ?w True @ ?w False, mark_seen (end_phase_node root))"
    using assms(2) by (auto simp: serve_def metrics_scrape_def split: option.splits)
  have parts: "set ([prefix_200] @ ?w True @ ?w False) = insert prefix_200 (\<Union>k. set (?w k))" by (auto simp: UNIV_bool)
  have complete: "\<exists>n. node_at pcs root = Some n \<and> (pcs = [] \<or> node_locations n \<noteq> [] \<longrightarrow>
      sample_line (rootPrefix segment k) (names_along True pcs root) (int (occurrences k pcs (phase ops []))) \<in> set (?w k))"
    if "0 < occurrences k pcs (phase ops [])" for k pcs
  proof -
    have along: "seen_along pcs root" and shown: "seenInPhase root" using i that assms(1) by blast+
    obtain n where n: "node_at pcs root = Some n" using seen_node_at [OF along] by blast
    have "pcs = [] \<or> node_locations n \<noteq> [] \<Longrightarrow> node_functions (True \<and> pcs = []) n \<noteq> []" by (auto simp: node_functions_def)
    with n write_complete [OF shown along n, of True "rootPrefix segment k" k] i show ?thesis by auto
  qed
  have sound: "\<exists>pcs shown rest. node_at pcs root \<noteq> None \<and> shown @ rest = names_along True pcs root \<and>
      l = sample_line (rootPrefix segment k) shown (int (occurrences k pcs (phase ops [])))" if "l \<in> set (?w k)" for l k
    using write_sound [OF that] i by fastforce
  have "\<forall>k pcs. count_at k pcs (mark_seen (end_phase_node root)) = 0" by simp
  moreover have "\<forall>k pcs. 0 < occurrences k pcs (phase ops []) \<longrightarrow> (\<exists>n. node_at pcs root = Some n \<and>
       (pcs = [] \<or> node_locations n \<noteq> [] \<longrightarrow>
          sample_line (rootPrefix segment k) (names_along True pcs root) (int (occurrences k pcs (phase ops [])))
            \<in> set ([prefix_200] @ ?w True @ ?w False)))"
    unfolding parts using complete by blast
  moreover have "\<forall>l \<in> set ([prefix_200] @ ?w True @ ?w False). l = prefix_200 \<or>
      (\<exists>k pcs shown rest. node_at pcs root \<noteq> None \<and> shown @ rest = names_along True pcs root \<and>
         l = sample_line (rootPrefix segment k) shown (int (occurrences k pcs (phase ops []))))"
    unfolding parts using sound by blast
  ultimately show ?thesis using run out by simp
qed

text \<open>The first scrape shows none of the samples taken before it, although each was counted: its answer is the header
  alone, and the counts are reset.\<close>

lemma first_scrape_loses_samples:
  assumes "\<not> scraped ops False" "metrics_scrape request" "exporter_run di segment ops (prometheus_queue_listener s0) = Inr (root, s)"
  shows "(\<forall>k pcs. count_at k pcs root = int (occurrences k pcs (phase ops []))) \<and>
    (\<exists>root'. serve segment request root = ([prefix_200], root') \<and> (\<forall>k pcs. count_at k pcs root' = 0))"
proof -
  have inv: "exporter_inv (phase ops []) (scraped ops False) root" using exporter_result [of di ops segment s0] assms(3) by simp
  then have "\<not> seenInPhase root" using assms(1) by (simp add: exporter_inv_def)
  then have "serve segment request root = ([prefix_200], mark_seen (end_phase_node root))"
    using assms(2) by (cases root) (auto simp: serve_def metrics_scrape_def split: option.splits)
  moreover have "\<forall>k pcs. count_at k pcs (mark_seen (end_phase_node root)) = 0" by simp
  ultimately show ?thesis using inv [unfolded exporter_inv_def] by blast
qed

section \<open>Examples\<close>

text \<open>A sample of one foreign function, before and after a first scrape.\<close>

definition demo_sample :: exporter_op where
  "demo_sample = Sample \<lparr>num_frames = 4, ct_threadId = 9, frames = replicate 3 zeroFrame @ [\<lparr>isForeign = True, frame = 32\<rparr>]\<rparr> SIGPROF"

definition demo_request :: "string option" where
  "demo_request = Some (metrics_request @ [CHR 0x0D, nl] @ ''Host: localhost:9100'')"

definition demo_exporter :: "exporter_op list \<Rightarrow> exporter_fault + ProfileNode \<times> symbols" where
  "demo_exporter ops = exporter_run demo_info ''web'' ops (prometheus_queue_listener symbols_init)"

lemma scrape_counts_samples_witness:
  "\<exists>root s out root'. demo_exporter [demo_sample, Request demo_request, demo_sample] = Inr (root, s) \<and>
     serve ''web'' demo_request root = (out, root') \<and>
     sample_line (rootPrefix ''web'' True) ''(root)#In libc.so'' 1 \<in> set out \<and> (\<forall>k pcs. count_at k pcs root' = 0)"
proof -
  let ?ops = "[demo_sample, Request demo_request, demo_sample]"
  have "scraped ?ops False" "metrics_scrape demo_request" by code_simp+
  note c = scrape_counts_samples [OF this, of demo_info "''web''" symbols_init, folded demo_exporter_def]
  have "list_all (sample_ok demo_info) ?ops" by code_simp
  with c obtain root s where e: "demo_exporter ?ops = Inr (root, s)" by (cases "demo_exporter ?ops") auto
  with c obtain out root' where
    r: "demo_exporter ?ops = Inr (root, s)" "serve ''web'' demo_request root = (out, root')" "\<forall>k pcs. count_at k pcs root' = 0"
    and out: "\<And>k pcs. 0 < occurrences k pcs (phase ?ops []) \<Longrightarrow> \<exists>n. node_at pcs root = Some n \<and>
       (pcs = [] \<or> node_locations n \<noteq> [] \<longrightarrow>
          sample_line (rootPrefix ''web'' k) (names_along True pcs root) (int (occurrences k pcs (phase ?ops []))) \<in> set out)"
    by auto
  have root: "root = fst (projr (demo_exporter ?ops))" using r(1) by simp
  have f: "names_along True [32] root = ''(root)#In libc.so''" unfolding root by code_simp
  have l: "case node_at [32] root of None \<Rightarrow> False | Some n \<Rightarrow> node_locations n \<noteq> []" unfolding root by code_simp
  have o1: "occurrences True [32] (phase ?ops []) = 1" by code_simp
  obtain n where n: "node_at [32] root = Some n" "node_locations n \<noteq> [] \<longrightarrow>
      sample_line (rootPrefix ''web'' True) (names_along True [32] root) (int (occurrences True [32] (phase ?ops []))) \<in> set out"
    using out [of True "[32]"] o1 by auto
  then have "sample_line (rootPrefix ''web'' True) ''(root)#In libc.so'' 1 \<in> set out" using l unfolding f o1 by (simp del: node_at.simps)
  with r show ?thesis by blast
qed

lemma first_scrape_loses_samples_witness:
  "\<exists>root s root'. demo_exporter [demo_sample] = Inr (root, s) \<and> count_at True [32] root = 1 \<and>
     serve ''web'' demo_request root = ([prefix_200], root')"
proof -
  have "\<not> scraped [demo_sample] False" "metrics_scrape demo_request" "\<not> isl (demo_exporter [demo_sample])" by code_simp+
  moreover from this(3) obtain root s where e: "demo_exporter [demo_sample] = Inr (root, s)" by (cases "demo_exporter [demo_sample]") auto
  ultimately have r: "\<forall>k pcs. count_at k pcs root = int (occurrences k pcs (phase [demo_sample] []))"
      "\<exists>root'. serve ''web'' demo_request root = ([prefix_200], root')"
    using first_scrape_loses_samples [of "[demo_sample]" demo_request demo_info "''web''" symbols_init root s] by (auto simp: demo_exporter_def)
  have "occurrences True [32] (phase [demo_sample] []) = 1" by code_simp
  with r(1) have "count_at True [32] root = 1" by (metis of_nat_1)
  with e r(2) show ?thesis by blast
qed

end
