(* ===== verification/Processor.thy ===== *)
theory Processor
  imports Announcements Prometheus_Exporter
begin

text \<open>
  \<^verbatim>\<open>src/lib/processor.cpp\<close> and the set-up of the agent in \<^verbatim>\<open>src/lib/profiler.cpp\<close>: the loop of the processor thread, which
  drives the controller, the io service and the queue, and what the profiler constructs, starts and resets after a fork.
  What other threads and the network do meanwhile is the argument of each turn.
\<close>

section \<open>State\<close>

text \<open>
  The agent with the exporter's tree (\<open>None\<close> is the null pointer it is outside Prometheus mode). The symbol caches are
  global in the source: the log writer and the exporter share them.
\<close>

record profiler_agent = log_writer +
  prom_root :: "ProfileNode option"

text \<open>
  \<open>IdsExhausted\<close> bounds the model: it stops where the 64-bit counter of symbol ids could wrap around.
\<close>

datatype processor_fault = AgentFault agent_fault | WriterFault writer_fault | ExporterFault exporter_fault | QueueFault queue_fault | NullRoot | IdsExhausted

definition agent_result :: "agent_fault + 's \<Rightarrow> processor_fault + 's" where
  "agent_result r = map_sum AgentFault id r"

lemma agent_result_iff [simp]: "agent_result r = Inr x \<longleftrightarrow> r = Inr x"
  by (cases r) (simp_all add: agent_result_def)

type_synonym 's queue_listener = "QueueEvent \<Rightarrow> 's \<Rightarrow> processor_fault + 's"

section \<open>The two queue listeners\<close>

definition writer_queue_listener :: "writer_env \<Rightarrow> 'a log_writer_scheme controller_env \<Rightarrow> 'a log_writer_scheme queue_listener" where
  "writer_queue_listener we env ev c =
     (if ids_left we ev c then map_sum WriterFault id (log_writer_listener we (send_message (profiler_env env)) ev c) else Inl IdsExhausted)"

definition exporter_queue_listener :: "debug_info \<Rightarrow> profiler_agent queue_listener" where
  "exporter_queue_listener di ev c =
     (case prom_root c of
        None \<Rightarrow> Inl NullRoot
      | Some root \<Rightarrow>
          (case prometheus_listener di ev (root, lw_symbols c) of
             Inl e \<Rightarrow> Inl (ExporterFault e)
           | Inr (root, s) \<Rightarrow> Inr (c\<lparr>lw_symbols := s, prom_root := Some root\<rparr>)))"

section \<open>Popping\<close>

text \<open>The listener works on the agent that owns the queue it is called from; after a fault nothing more happens.\<close>

fun pop_listener :: "'a controller_scheme queue_listener \<Rightarrow> (processor_fault + 'a controller_scheme) listener" where
  "pop_listener l ev (w, q) =
     (case w of
        Inl e \<Rightarrow> (Inl e, q)
      | Inr c \<Rightarrow> (case l ev (c\<lparr>cc_queue := q\<rparr>) of Inl e \<Rightarrow> (Inl e, q) | Inr c \<Rightarrow> (Inr c, cc_queue c)))"

definition processor_pop :: "QueueSizes \<Rightarrow> 'a controller_scheme queue_listener \<Rightarrow> 'a controller_scheme
    \<Rightarrow> processor_fault + bool \<times> 'a controller_scheme" where
  "processor_pop sz l c =
     (case pop sz (pop_listener l) (Inr c, cc_queue c) of
        Inl e \<Rightarrow> Inl (QueueFault e)
      | Inr (popped, w, q) \<Rightarrow> bind_result w (\<lambda>c. Inr (popped, c\<lparr>cc_queue := q\<rparr>)))"

definition PROCESSOR_MAX_POLLS :: nat where "PROCESSOR_MAX_POLLS = 10"

fun pop_loop :: "QueueSizes \<Rightarrow> 'a controller_scheme queue_listener \<Rightarrow> nat \<Rightarrow> nat \<Rightarrow> 'a controller_scheme
    \<Rightarrow> processor_fault + nat \<times> 'a controller_scheme" where
  "pop_loop sz l 0 i c = Inr (i, c)"
| "pop_loop sz l (Suc n) i c =
     bind_result (processor_pop sz l c) (\<lambda>(popped, c). if popped then pop_loop sz l n (Suc i) c else Inr (i, c))"

text \<open>Nothing is popped while the agent is not active.\<close>

definition poll_queue :: "QueueSizes \<Rightarrow> 'a controller_scheme queue_listener \<Rightarrow> 'a controller_scheme
    \<Rightarrow> processor_fault + nat \<times> 'a controller_scheme" where
  "poll_queue sz l c = (if isActive c then pop_loop sz l PROCESSOR_MAX_POLLS 0 c else Inr (0, c))"

section \<open>The loop\<close>

definition MIN_SLEEP_IN_MS :: u64 where "MIN_SLEEP_IN_MS = 2"
definition MAX_SLEEP_IN_MS :: u64 where "MAX_SLEEP_IN_MS = 200"

text \<open>
  What happens outside the thread before one of its actions: events arrive at the io service, the other threads act on the
  queue, the metrics and the scanner.
\<close>

type_synonym outside = "io_event list \<times> (CircularQueue \<times> Metrics \<times> scanner \<Rightarrow> CircularQueue \<times> Metrics \<times> scanner)"

definition outside_acts :: "outside \<Rightarrow> 'a controller_scheme \<Rightarrow> 'a controller_scheme" where
  "outside_acts x c =
     (case snd x (cc_queue c, cc_metrics c, cc_scanner c) of
        (q, m, s) \<Rightarrow> c\<lparr>io := io c @ fst x, cc_queue := q, cc_metrics := m, cc_scanner := s\<rparr>)"

text \<open>
  A turn of the loop: what happens before the controller, the io service and the queue are polled, and the value of
  \<open>processorRunning\<close> when the loop's condition and when the sleep is decided.
\<close>

record turn =
  before_poll :: outside
  before_io :: outside
  before_pop :: outside
  processorRunning :: bool
  stillRunning :: bool

definition turn_allows :: "(outside \<Rightarrow> bool) \<Rightarrow> turn \<Rightarrow> bool" where
  "turn_allows ok t \<longleftrightarrow> ok (before_poll t) \<and> ok (before_io t) \<and> ok (before_pop t)"

text \<open>The result holds the time slept, if any, and the next sleep.\<close>

definition processor_turn :: "QueueSizes \<Rightarrow> 'a log_writer_scheme controller_env \<Rightarrow> 'a log_writer_scheme queue_listener \<Rightarrow> turn
    \<Rightarrow> u64 \<Rightarrow> 'a log_writer_scheme \<Rightarrow> processor_fault + u64 option \<times> u64 \<times> 'a log_writer_scheme" where
  "processor_turn sz env l t sleepDuration c =
     bind_result (agent_result (controller_poll (profiler_env env) (outside_acts (before_poll t) c))) (\<lambda>(connected, c).
     bind_result (agent_result (network_poll (poll_handler (profiler_env env)) (outside_acts (before_io t) c))) (\<lambda>(polled, c).
     bind_result (poll_queue sz l (outside_acts (before_pop t) c)) (\<lambda>(i, c).
         let doneWork = (connected \<or> polled \<or> 0 < i)
         in if \<not> doneWork \<and> stillRunning t then Inr (Some sleepDuration, min MAX_SLEEP_IN_MS (sleepDuration * 2), c)
            else Inr (None, MIN_SLEEP_IN_MS, c))))"

text \<open>The turns there is an argument for; the flag says whether the loop has ended by itself.\<close>

fun processor_loop :: "QueueSizes \<Rightarrow> 'a log_writer_scheme controller_env \<Rightarrow> 'a log_writer_scheme queue_listener \<Rightarrow> turn list
    \<Rightarrow> u64 \<Rightarrow> 'a log_writer_scheme \<Rightarrow> processor_fault + u64 option list \<times> bool \<times> 'a log_writer_scheme" where
  "processor_loop sz env l [] sleepDuration c = Inr ([], False, c)"
| "processor_loop sz env l (t # ts) sleepDuration c =
     (if isOn c \<and> processorRunning t then
        bind_result (processor_turn sz env l t sleepDuration c) (\<lambda>(slept, sleepDuration, c).
          bind_result (processor_loop sz env l ts sleepDuration c) (\<lambda>(sleeps, ended, c). Inr (slept # sleeps, ended, c)))
      else Inr ([], True, c))"

definition processor_run :: "QueueSizes \<Rightarrow> 'a log_writer_scheme controller_env \<Rightarrow> 'a log_writer_scheme queue_listener \<Rightarrow> turn list
    \<Rightarrow> int \<Rightarrow> 'a log_writer_scheme \<Rightarrow> processor_fault + u64 option list \<times> bool \<times> 'a log_writer_scheme" where
  "processor_run sz env l ts tid c =
     bind_result (agent_result (onStart (profiler_env env) (c\<lparr>cc_scanner := on_processor_thread_start tid (cc_scanner c)\<rparr>))) (\<lambda>c.
     bind_result (processor_loop sz env l ts MIN_SLEEP_IN_MS c) (\<lambda>(sleeps, ended, c).
       if ended then bind_result (agent_result (onEnd (profiler_env env) c)) (\<lambda>c. Inr (sleeps, True, c))
       else Inr (sleeps, False, c)))"

section \<open>The profiler\<close>

text \<open>
  \<open>configure\<close>: the result of \<open>gethostname\<close> (what is in the buffer and whether it succeeded) completes the configuration,
  which the controller is given; the agent is off without an API key or a host name unless it exports to Prometheus.
\<close>

definition configured_agentId :: "string \<Rightarrow> ConfigurationOptions \<Rightarrow> ConfigurationOptions" where
  "configured_agentId hostname cfg = (if agentId cfg = [] then cfg\<lparr>agentId := hostname\<rparr> else cfg)"

definition configured_on :: "bool \<Rightarrow> ConfigurationOptions \<Rightarrow> bool" where
  "configured_on hasHostName cfg \<longleftrightarrow> apiKey cfg \<noteq> [] \<and> hasHostName \<or> prometheusEnabled cfg"

definition controller_arguments :: "string \<Rightarrow> string \<Rightarrow> ConfigurationOptions \<Rightarrow> 's controller_env \<Rightarrow> 's controller_env" where
  "controller_arguments hostname ocamlVersion cfg env =
     env\<lparr>ce_apiKey := apiKey cfg, ce_agentId := agentId (configured_agentId hostname cfg), ce_hostname := hostname,
         ce_applicationVersion := applicationVersion cfg, ce_ocamlVersion := ocamlVersion, ce_processorCount := 1,
         ce_configuration := configured_agentId hostname cfg\<rparr>"

text \<open>
  The log writer is constructed first and then, in Prometheus mode, the exporter's listener, whose error callback replaces
  the log writer's. \<open>out\<close> is the log file, if one is configured.
\<close>

definition profiler_configure :: "QueueSizes \<Rightarrow> bool \<Rightarrow> codec \<Rightarrow> runtime_events \<Rightarrow> u32 \<Rightarrow> symbols \<Rightarrow> ConfigurationOptions
    \<Rightarrow> queue_fault + profiler_agent" where
  "profiler_configure sz hasHostName cd rt errors s cfg =
     (case newCircularQueue sz (maxFramesToCapture cfg) of
        Inl e \<Rightarrow> Inl e
      | Inr q \<Rightarrow>
          (let on = configured_on hasHostName cfg;
               w = LogWriter_init (if logFilePath cfg = [] then None else Some []) s
                     (CollectorController_init (prometheusEnabled cfg) on cd (newMetrics rt errors) q)
           in Inr (if prometheusEnabled cfg then
                     (case prometheus_queue_listener (lw_symbols w) of
                        (root, s) \<Rightarrow> log_writer.extend (w\<lparr>lw_symbols := s\<rparr>) \<lparr>prom_root = Some root\<rparr>)
                   else log_writer.extend w \<lparr>prom_root = None\<rparr>)))"

text \<open>The listener the processor is given.\<close>

definition configured_listener :: "writer_env \<Rightarrow> profiler_agent controller_env \<Rightarrow> ConfigurationOptions \<Rightarrow> profiler_agent queue_listener" where
  "configured_listener we env cfg =
     (if prometheusEnabled cfg then exporter_queue_listener (we_debug_info we) else writer_queue_listener we env)"

text \<open>\<open>start\<close> installs the two signal actions, each of which blocks the other's signal.\<close>

definition profiler_actions :: "('f sigaction_request \<Rightarrow> 'h option) \<Rightarrow> 'h \<Rightarrow> 'f \<Rightarrow> 'h list" where
  "profiler_actions sigaction garbage bootstrapHandle =
     [SetAction sigaction garbage SIGPROF SIGALRM bootstrapHandle, SetAction sigaction garbage SIGALRM SIGPROF bootstrapHandle]"

text \<open>Fork: what is reset before the agent is started again.\<close>

definition profiler_on_fork :: "'a log_writer_scheme \<Rightarrow> 'a log_writer_scheme" where
  "profiler_on_fork c =
     (let c = c\<lparr>cc_scanner := reset_scan_threads (cc_scanner c)\<rparr>;
          c = network_on_fork (lw_onSocketConnected (controller_on_fork c))
      in c\<lparr>cc_metrics := metrics_on_fork (cc_metrics c)\<rparr>)"

end
