(* ===== verification/Processor_Properties.thy ===== *)
theory Processor_Properties
  imports Processor
begin

text \<open>
  What the loop of the processor thread keeps and how it ends. The steps of theory Announcements are those of the loop: its
  turns consist of them, so that the invariants proved there hold while the loop runs.
\<close>

section \<open>Events are only taken\<close>

text \<open>The handlers take events and leave the queue alone.\<close>

definition io_within :: "'a controller_scheme \<Rightarrow> 'a controller_scheme \<Rightarrow> bool" where
  "io_within c c' \<longleftrightarrow> set (io c') \<subseteq> set (io c) \<and> cc_queue c' = cc_queue c"

lemma io_within_refl [simp]: "io_within c c"
  by (simp add: io_within_def)

lemma io_within_trans [trans]: "io_within c d \<Longrightarrow> io_within d e \<Longrightarrow> io_within c e"
  by (auto simp: io_within_def)

lemma io_within_same: "io d = io c \<Longrightarrow> cc_queue d = cc_queue c \<Longrightarrow> io_within c d"
  by (simp add: io_within_def)

lemma io_within_plain: "io_within c c' \<Longrightarrow> io_plain (io c) \<Longrightarrow> io_plain (io c')"
  using io_plain_subset by (auto simp: io_within_def)

lemma io_simps [simp]:
  "io (network_close c) = io c" "io (closeSocket c) = io c" "io (schedule t d) = io d" "io (attemptRead e) = io e"
  "io (onDisconnect env d) = io d" "io (onReadHeader r e) = io e"
  by (simp_all add: network_close_def closeSocket_def schedule_def attemptRead_def onDisconnect_def onReadHeader_def Let_def
      split: sum.split option.split)

lemma cc_queue_simps [simp]:
  "cc_queue (network_close d) = cc_queue d" "cc_queue (closeSocket d) = cc_queue d" "cc_queue (schedule t d) = cc_queue d"
  "cc_queue (attemptRead d) = cc_queue d" "cc_queue (onDisconnect env d) = cc_queue d" "cc_queue (onReadHeader r d) = cc_queue d"
  for d :: "'a controller_scheme"
  by (simp_all add: network_close_def closeSocket_def schedule_def attemptRead_def onDisconnect_def onReadHeader_def Let_def
      split: sum.split option.split)

lemma startProfiling_io: "startProfiling env pr er po eo c = Inr c' \<Longrightarrow> io c' = io c \<and> cc_queue c' = cc_queue c"
  by (cases "startProcessProfiling env pr po c") (auto simp: startProfiling_def startProcessProfiling_def startElapsedProfiling_def
    update_signal_handler_def split: if_splits option.splits)

lemma io_within_schedule: "io_within c (schedule t d) = io_within c d"
  by (simp add: io_within_def)

locale io_sender =
  fixes env :: "'a controller_scheme controller_env"
    and send :: "'a controller_scheme sender"
  assumes sends_io: "send m c = Inr (ok, c') \<Longrightarrow> io_within c c'"
    and table_io: "recordAllocationTableHandler env send c = Inr c' \<Longrightarrow> io_within c c'"
begin

lemma recordWithSize_io: "recordWithSize send m c = Inr c' \<Longrightarrow> io_within c c'"
  using sends_io by (auto simp: recordWithSize_def bind_result_Inr)

lemma send_each_io: "send_each send ns c = Inr c' \<Longrightarrow> io_within c c'"
proof (induction ns arbitrary: c)
  case (Cons n ns)
  then show ?case by (cases n) (auto simp: bind_result_Inr intro: io_within_trans [OF recordWithSize_io])
qed simp

lemma onFirstSampleRate_io:
  assumes "onFirstSampleRate send c = Inr c'"
  shows "io_within c c'"
proof -
  obtain d where "send_each send (notifications c) (c\<lparr>cc_state := CONNECTED\<rparr>) = Inr d" "io c' = io d" "cc_queue c' = cc_queue d"
    using assms by (auto simp: onFirstSampleRate_def sendStashedNotifications_def bind_result_Inr scheduleAgentStatisticsTimer_def
        scheduleReceiveTimer_def scheduleSendTimer_def)
  from send_each_io [OF this(1)] this(2,3) show ?thesis by (simp add: io_within_def)
qed

lemma onSampleRate_io:
  assumes "onSampleRate env send sr c = Inr c'"
  shows "io_within c c'"
proof -
  obtain d m where d: "startProfiling env (process_time_stack_sample_rate_millis sr) (elapsed_time_stack_sample_rate_millis sr)
          (switch_process_time_profiling_on sr) (switch_elapsed_time_profiling_on sr) c = Inr d"
    and m: "(let c = d\<lparr>cc_metrics := m, memoryProfilingOn := switch_memory_profiling_on sr,
                   threadStateOn := thread_state_on sr, metricsOn := switch_metrics_on sr\<rparr>
         in if cc_state c = SENT_HELLO then onFirstSampleRate send c else Inr c) = Inr c'"
    using assms unfolding onSampleRate_def bind_result_Inr Let_def by blast
  let ?e = "d\<lparr>cc_metrics := m, memoryProfilingOn := switch_memory_profiling_on sr, threadStateOn := thread_state_on sr,
      metricsOn := switch_metrics_on sr\<rparr>"
  have "onFirstSampleRate send ?e = Inr c' \<or> c' = ?e" using m by (simp add: Let_def split: if_splits)
  then show ?thesis using onFirstSampleRate_io [of ?e c'] startProfiling_io [OF d] by (auto simp: io_within_def)
qed

lemma onTimer_io:
  assumes "onTimer env send t c = Inr c'"
  shows "io_within c c'"
proof (cases "t = ReceiveTimer")
  case True
  with assms have "io c' = io c" "cc_queue c' = cc_queue c" by (auto simp: onTimer_def onReceiveTimer_def scheduleReceiveTimer_def)
  then show ?thesis by (rule io_within_same)
next
  case False
  then obtain d m u where "recordWithSize send m c = Inr d \<or> recordAllocationTableHandler env send c = Inr d" "c' = schedule u d"
    using assms by (cases t) (auto simp: onTimer_def onSendTimer_def sendHeartbeat_def onAllocationTimer_def
      onAgentStatisticsTimer_def bind_result_Inr scheduleSendTimer_def scheduleAllocationTimer_def scheduleAgentStatisticsTimer_def)
  then show ?thesis using recordWithSize_io table_io io_within_schedule by blast
qed

lemma dispatch_io: "dispatch (controller_listener env send) m c = Inr c' \<Longrightarrow> io_within c c'"
  by (cases m) (auto simp: dispatch_def controller_listener_def onTerminate_def onHeartbeat_def scheduleReceiveTimer_def
    io_within_same dest: onSampleRate_io)

lemma onReadBody_io:
  assumes "onReadBody (controller_listener env send) r c = Inr c'"
  shows "io_within c c'"
proof (cases r)
  case (Inl ec)
  with assms show ?thesis by (auto simp: onReadBody_def io_within_same)
next
  case (Inr bytes)
  let ?d = "c\<lparr>ph_buffer := take MAX_HEADER_SIZE (ph_buffer c) @ bytes @ drop (MAX_HEADER_SIZE + length bytes) (ph_buffer c)\<rparr>"
  obtain e where "(case parse (net_codec c) (take (unat (ph_size c)) (drop (ph_offset c) (ph_buffer ?d))) of
        None \<Rightarrow> Inr ?d | Some m \<Rightarrow> dispatch (controller_listener env send) m ?d) = Inr e" "c' = attemptRead e"
    using assms Inr by (auto simp: onReadBody_def Let_def bind_result_Inr split: if_splits)
  then show ?thesis using dispatch_io [of _ ?d e] by (auto simp: io_within_def split: option.splits)
qed

lemma io_handler_io: "io_handler env send e c = Inr c' \<Longrightarrow> io_within c c'"
  using onTimer_io [of _ "c\<lparr>armed := armed c - {t}\<rparr>" c' for t] onReadBody_io [of _ "c\<lparr>reading := None\<rparr>" c']
  by (cases e) (auto simp: io_handler_def onRead_def io_within_def split: if_splits option.splits read_op.splits)

end

lemma lw_recordWithSize_io:
  assumes "\<And>m c ok c'. send m c = Inr (ok, c') \<Longrightarrow> io_within c c'" "lw_recordWithSize send m c = Inr c'"
  shows "io_within c c'"
  using assms(2) assms(1) [of m "c\<lparr>lw_output := map_option (\<lambda>written. written @ [m]) (lw_output c)\<rparr>" _ c']
  by (auto simp: lw_recordWithSize_def recordWithSize_def bind_result_Inr io_within_def)

lemma allocationTable_io:
  assumes "\<And>m c ok c'. send m c = Inr (ok, c') \<Longrightarrow> io_within c c'"
    and "recordAllocationTableHandler (profiler_env env) send c = Inr c'"
  shows "io_within c c'"
  using assms(2) lw_recordWithSize_io [OF assms(1)]
  by (fastforce simp: profiler_env_def profiler_recordAllocationTable_def lw_recordAllocationTable_def bind_result_Inr io_within_def)

lemma refuse_send_io: "refuse_send m c = Inr (ok, c') \<Longrightarrow> io_within c c'"
  by (auto simp: refuse_send_def io_within_def split: if_splits)

interpretation nested_io: io_sender "profiler_env env" refuse_send for env :: "'a log_writer_scheme controller_env"
  by unfold_locales (erule refuse_send_io, erule allocationTable_io [rotated], erule refuse_send_io)

interpretation same_queue: run_loop "nested_handler (profiler_env env)" "\<lambda>c c'. cc_queue c' = cc_queue c"
  for env :: "'a log_writer_scheme controller_env"
  by unfold_locales (use nested_io.io_handler_io in \<open>auto simp: nested_handler_def io_within_def\<close>)

lemma send_message_io:
  assumes s: "send_message (profiler_env env) m c = Inr (ok, c')"
  shows "io_within c c'"
proof (cases "isConnected c \<and> \<not> isSending c")
  case True
  then have c: "isConnected c" "\<not> isSending c" by auto
  have "set (io c') \<subseteq> set (io c)"
    by (rule waiting.send_keeps [OF s [unfolded send_message_def] c]) (auto split: if_splits)
  moreover have "cc_queue c' = cc_queue c"
    by (rule same_queue.send_keeps [OF s [unfolded send_message_def] c]) (auto split: if_splits)
  ultimately show ?thesis by (simp add: io_within_def)
qed (use s in \<open>auto simp: send_message_def sendWithSize_def io_within_def split: if_splits\<close>)

interpretation outer_io: io_sender "profiler_env env" "send_message (profiler_env env)" for env :: "'a log_writer_scheme controller_env"
  by unfold_locales (erule send_message_io, erule allocationTable_io [rotated], erule send_message_io)

lemma network_poll_io:
  assumes "network_poll (poll_handler (profiler_env env)) c = Inr (w, c')"
  shows "io_within c c'"
proof -
  have "poll_loop (poll_handler (profiler_env env)) i k n = Inr (k', n') \<Longrightarrow> io_within n n'" for i k k' n n'
  proof (induction i arbitrary: k n)
    case (Suc i)
    show ?case
    proof (cases "io n")
      case (Cons e es)
      then obtain m where m: "poll_handler (profiler_env env) e (n\<lparr>io := es\<rparr>) = Inr m"
          "poll_loop (poll_handler (profiler_env env)) i (Suc k) m = Inr (k', n')"
        using Suc.prems by (auto simp: bind_result_Inr)
      from outer_io.io_handler_io [OF m(1) [unfolded poll_handler_def]] Suc.IH [OF m(2)] Cons show ?thesis
        by (auto simp: io_within_def)
    qed (use Suc.prems in simp)
  qed simp
  with assms show ?thesis by (auto simp: network_poll_def bind_result_Inr)
qed

lemma await_io: "await (nested_handler (profiler_env env)) b1 b2 c = Inr (ec, fired, d) \<Longrightarrow> io_within c d"
  using waiting.await_keeps same_queue.await_keeps unfolding io_within_def by blast

lemma run_one_io: "run_one (nested_handler (profiler_env env)) c = Inr d \<Longrightarrow> io_within c d"
  using nested_io.io_handler_io unfolding nested_handler_def
  by (fastforce simp: run_one_def io_within_def split: if_splits list.splits)

lemma connect_io:
  assumes "connect (nested_handler (profiler_env env)) c = Inr (ok, c')"
  shows "io_within c c'"
proof (cases "nw_prometheusEnabled c")
  case False
  let ?h = "nested_handler (profiler_env env)"
  obtain ec fired k where k: "await ?h False False c = Inr (ec, fired, k)"
      "(if ec \<noteq> NO_ERROR then bind_result (if fired then run_one ?h k else Inr k) (\<lambda>n. Inr (False, network_close n))
        else bind_result (await ?h True True (k\<lparr>sock := True\<rparr>)) (\<lambda>(connectErrorCode, _, n).
              if connectErrorCode \<noteq> NO_ERROR then Inr (False, network_close n)
              else
                case take_handshake (io n) of
                  None \<Rightarrow> Inl Blocked
                | Some (sslErrorCode, es) \<Rightarrow>
                    if sslErrorCode \<noteq> NO_ERROR then Inr (False, network_close (n\<lparr>io := es\<rparr>))
                    else Inr (True, n\<lparr>io := es, isConnected := True, wire := []\<rparr>))) = Inr (ok, c')"
    using assms False by (auto simp: connect_def bind_result_Inr)
  note ck = await_io [OF k(1)]
  show ?thesis
  proof (cases "ec = NO_ERROR")
    case False
    then obtain k1 where "(if fired then run_one ?h k else Inr k) = Inr k1" "c' = network_close k1"
      using k(2) by (auto simp: bind_result_Inr)
    then show ?thesis using ck run_one_io [of env k k1] by (auto simp: io_within_def split: if_splits)
  next
    case True
    then obtain ec2 fired2 k2 where k2: "await ?h True True (k\<lparr>sock := True\<rparr>) = Inr (ec2, fired2, k2)"
      "io c' = io k2 \<or> (\<exists>ssl. take_handshake (io k2) = Some (ssl, io c'))"
      using k(2) by (auto simp: bind_result_Inr split: if_splits option.splits)
    have "set es \<subseteq> set (io k2)" if "take_handshake (io k2) = Some (ssl, es)" for ssl es
      using that by (cases "io k2" rule: take_handshake.cases) auto
    then have "set (io c') \<subseteq> set (io k2)" using k2(2) by auto
    moreover have "set (io k2) \<subseteq> set (io k)" using await_io [OF k2(1)] by (simp add: io_within_def)
    moreover have "cc_queue c' = cc_queue c"
      by (rule same_queue.connect_keeps [OF assms \<open>\<not> nw_prometheusEnabled c\<close>]) simp_all
    ultimately show ?thesis using ck unfolding io_within_def by (meson subset_trans)
  qed
qed (use assms in \<open>simp add: connect_def\<close>)

text \<open>The greeting resets the counters of the samples the queue had no room for.\<close>

definition uncounted :: "CircularQueue \<Rightarrow> CircularQueue" where
  "uncounted q = q\<lparr>allocationFailures := 0, allocationStackTraceFailures := 0, cputimeFailures := 0, wallclockFailures := 0,
     metricFailures := 0\<rparr>"

lemma uncounted_cq_inv: "uncounted q' = uncounted q \<Longrightarrow> cq_inv sz mf q' = cq_inv sz mf q"
  by (cases q; cases q') (simp add: uncounted_def cq_inv_def frames_ok_def live_def carries_trace_def slot_def)

lemma onSentHello_io: "io (onSentHello c) = io c" "uncounted (cc_queue (onSentHello c)) = uncounted (cc_queue c)"
  by (simp_all add: onSentHello_def scheduleReceiveTimer_def resetAgentStatisticsCounters_def uncounted_def)

definition io_counted :: "'a controller_scheme \<Rightarrow> 'a controller_scheme \<Rightarrow> bool" where
  "io_counted c c' \<longleftrightarrow> set (io c') \<subseteq> set (io c) \<and> uncounted (cc_queue c') = uncounted (cc_queue c)"

lemma io_counted_refl [simp]: "io_counted c c"
  by (simp add: io_counted_def)

lemma io_counted_plain: "io_counted c c' \<Longrightarrow> io_plain (io c) \<Longrightarrow> io_plain (io c')"
  using io_plain_subset by (auto simp: io_counted_def)

lemma io_within_counted: "io_within c d \<Longrightarrow> io_counted d e \<Longrightarrow> io_counted c e"
  by (auto simp: io_counted_def io_within_def)

lemma onSocketConnect_io:
  assumes "onSocketConnect (profiler_env env) (send_message (profiler_env env)) c = Inr c'"
  shows "io_counted c c'"
proof -
  let ?e = "socketConnectHandler (profiler_env env) (c\<lparr>cc_state := SOCKET_CONNECTED, backoffTimeInMs := 0\<rparr>)"
  obtain m where "recordWithSize (send_message (profiler_env env)) (HelloMessage (hello_message (profiler_env env))) ?e = Inr m"
      "c' = onSentHello m"
    using assms by (auto simp: onSocketConnect_def sendHello_def bind_result_Inr)
  moreover have "io ?e = io c" "cc_queue ?e = cc_queue c"
    by (simp_all add: profiler_env_def profiler_onSocketConnected_def lw_onSocketConnected_def)
  ultimately show ?thesis
    using outer_io.recordWithSize_io [of env _ ?e m] by (simp add: io_within_def io_counted_def onSentHello_io)
qed

lemma onEnd_queue: "onEnd (profiler_env env) c = Inr c' \<Longrightarrow> cc_queue c' = cc_queue c"
  by (auto simp: onEnd_def update_signal_handler_def bind_result_Inr split: option.splits)

lemma onStart_io: "onStart (profiler_env env) c = Inr c' \<Longrightarrow> io_counted c c'"
  using onSocketConnect_io startProfiling_io by (fastforce simp: onStart_def io_counted_def split: if_splits)

lemma controller_poll_io:
  assumes "controller_poll (profiler_env env) c = Inr (w, c')"
  shows "io_counted c c'"
proof (cases "cc_state c = DISCONNECTED")
  case True
  let ?d = "snd (backoff (profiler_env env) c)"
  have "io_within c ?d" by (rule io_within_same) (simp_all add: backoff_def Let_def)
  moreover obtain ok k where k: "connect (nested_handler (profiler_env env)) ?d = Inr (ok, k)"
      "c' = k \<or> onSocketConnect (profiler_env env) (send_message (profiler_env env)) k = Inr c'"
    using assms True by (auto simp: controller_poll_def attemptConnect_def bind_result_Inr split: if_splits)
  ultimately show ?thesis using io_within_counted connect_io [OF k(1)] onSocketConnect_io io_counted_refl by blast
qed (use assms in \<open>simp add: controller_poll_def\<close>)

section \<open>The log writer\<close>

lemma lw_send_io: "lw_recordWithSize (send_message (profiler_env env)) m c = Inr c' \<Longrightarrow> io_within c c'"
  by (rule lw_recordWithSize_io) (rule send_message_io)

lemma announce_io: "announce (send_message (profiler_env env)) as c = Inr c' \<Longrightarrow> io_within c c'"
proof (induction as arbitrary: c)
  case (Cons a as)
  then obtain m d where "lw_recordWithSize (send_message (profiler_env env)) m c = Inr d" "announce (send_message (profiler_env env)) as d = Inr c'"
    by (cases a) (auto simp: bind_result_Inr onNewFile_def onNewFunction_def)
  with Cons.IH lw_send_io io_within_trans show ?case by blast
qed simp

lemma lookup_frames_io: "lookup_frames we (send_message (profiler_env env)) fs e es c = Inr (es', c') \<Longrightarrow> io_within c c'"
proof (induction fs arbitrary: es c)
  case (Cons f fs)
  then obtain ls d where d: "lw_lookup_locations we (send_message (profiler_env env)) (frame f) (isForeign f) c = Inr (ls, d)"
      "lookup_frames we (send_message (profiler_env env)) fs e (addFrames ls e es) d = Inr (es', c')"
    by (auto simp: bind_result_Inr)
  then obtain s as where "announce (send_message (profiler_env env)) as (c\<lparr>lw_symbols := s\<rparr>) = Inr d"
    by (auto simp: lw_lookup_locations_def bind_result_Inr split: sum.splits)
  from announce_io [OF this] Cons.IH [OF d(2)] show ?case by (auto simp: io_within_def)
qed simp

text \<open>The listener itself only puts notifications on the queue, when a thread's name cannot be told.\<close>

definition io_noted :: "QueueSizes \<Rightarrow> 'a controller_scheme \<Rightarrow> 'a controller_scheme \<Rightarrow> bool" where
  "io_noted sz c c' \<longleftrightarrow> set (io c') \<subseteq> set (io c) \<and> (\<exists>ns. cc_queue c' = push_notes sz ns (cc_queue c))"

lemma io_noted_within: "io_within c c' \<Longrightarrow> io_noted sz c c'"
  by (auto simp: io_within_def io_noted_def intro: exI [of _ "[]"])

lemma io_noted_io_within: "io_noted sz c d \<Longrightarrow> io_within d e \<Longrightarrow> io_noted sz c e"
  by (auto simp: io_within_def io_noted_def)

lemma threadName_io: "io_noted (we_sizes we) c (snd (threadName we tid c))"
proof -
  have "io (snd (threadName we tid c)) = io c"
    by (auto simp: threadName_def Let_def split: option.split sum.split)
  moreover have "cc_queue (snd (threadName we tid c)) = cc_queue c \<or> (\<exists>ret.
      cc_queue (snd (threadName we tid c)) = push_notes (we_sizes we) [(USER_ERROR, ''Error from pthread_getname_np: '', ret)] (cc_queue c))"
    by (auto simp: threadName_def Let_def split: option.split sum.split)
  ultimately show ?thesis unfolding io_noted_def using push_notes_simps(1) by (metis order_refl)
qed

lemma recordStackTrace_io:
  assumes "lw_recordStackTrace we (send_message (profiler_env env)) ts trace signal state c = Inr c'"
  shows "io_noted (we_sizes we) c c'"
proof -
  obtain fs e es d m where
      "lookup_frames we (send_message (profiler_env env)) fs e [] (snd (threadName we (ct_threadId trace) c)) = Inr (es, d)"
      "lw_recordWithSize (send_message (profiler_env env)) m d = Inr c'"
    using assms by (auto simp: lw_recordStackTrace_def bind_result_Inr Let_def case_prod_beta split: if_splits)
  from lookup_frames_io [OF this(1)] lw_send_io [OF this(2)] threadName_io show ?thesis
    by (blast intro: io_noted_io_within io_within_trans)
qed

lemma listener_io:
  assumes "log_writer_listener we (send_message (profiler_env env)) ev c = Inr c'"
  shows "io_noted (we_sizes we) c c'"
proof (cases "\<exists>ts trace signal state tsc. ev = RecordStackTrace ts trace signal state tsc")
  case True
  with assms recordStackTrace_io show ?thesis by auto
next
  case False
  with assms lw_send_io [of env] have "io_within c c'"
    by (cases ev) (auto simp: lw_recordAllocation_def lw_recordNotification_def stashNotification_def lw_recordMetricInformation_def
      lw_recordMetricSamples_def lw_recordConstantMetricsComplete_def Let_def io_within_same split: if_splits)
  then show ?thesis by (rule io_noted_within)
qed

section \<open>What a turn keeps\<close>

lemma pop_world:
  assumes "\<And>ev w q. I w \<Longrightarrow> I (fst (lst ev (w, q)))" "pop sz lst (w, q) = Inr (popped, w', q')" "I w"
  shows "I w'"
proof -
  have lst: "lst ev (w, q) = (w', q') \<Longrightarrow> I w \<Longrightarrow> I w'" for ev w q w' q' using assms(1) [of w ev q] by simp
  have m: "pop_main sz lst (w, q) = Inr (b, w', q') \<Longrightarrow> I w \<Longrightarrow> I w'" for w q b w' q'
    by (auto simp: pop_main_def split: acquired_read.splits prod.splits dest: lst)
  have a: "pop_allocation sz lst (w, q) = Inr (b, w', q') \<Longrightarrow> I w \<Longrightarrow> I w'" for w q b w' q'
    by (auto simp: pop_allocation_def Let_def split: acquired_read.splits prod.splits dest: lst)
  have s: "pop_stack sz lst (w, q) = Inr (b, w', q') \<Longrightarrow> I w \<Longrightarrow> I w'" for w q b w' q'
    by (auto simp: pop_stack_def Let_def split: acquired_read.splits prod.splits sum.splits dest: lst)
  from assms(2,3) show ?thesis unfolding pop_def by (auto split: sum.splits dest!: m a s)
qed

lemma processor_pop_keeps:
  assumes "processor_pop sz l c = Inr (popped, c')" "P c"
    and queue: "\<And>d q. P d \<Longrightarrow> P (d\<lparr>cc_queue := q\<rparr>)"
    and listens: "\<And>ev d e. l ev d = Inr e \<Longrightarrow> P d \<Longrightarrow> P e"
  shows "P c'"
proof -
  let ?I = "\<lambda>w. case w of Inl e \<Rightarrow> True | Inr c \<Rightarrow> P c"
  obtain d q where d: "pop sz (pop_listener l) (Inr c, cc_queue c) = Inr (popped, Inr d, q)" "c' = d\<lparr>cc_queue := q\<rparr>"
    using assms(1) by (auto simp: processor_pop_def bind_result_Inr split: sum.splits)
  have "?I w \<Longrightarrow> ?I (fst (pop_listener l ev (w, q)))" for ev w q
    using listens [OF _ queue] by (cases w) (auto split: sum.split)
  from pop_world [where I = ?I, OF this d(1)] assms(2) have "P d" by simp
  then show ?thesis unfolding d(2) by (rule queue)
qed

lemma agent_result_fault: "agent_result r = Inl e \<Longrightarrow> \<exists>f. e = AgentFault f"
  by (cases r) (auto simp: agent_result_def)

lemma agent_result_simps [simp]: "agent_result (Inl e) = Inl (AgentFault e)" "agent_result (Inr x) = Inr x"
  by (simp_all add: agent_result_def)

text \<open>
  A predicate \<open>P\<close> on the agent that everything the loop does respects; \<open>ok\<close> is what is known of the other threads and the
  network, and \<open>F\<close> holds of the faults that may stop the loop.
\<close>

locale loop_invariant =
  fixes sz :: QueueSizes
    and env :: "'a log_writer_scheme controller_env"
    and l :: "'a log_writer_scheme queue_listener"
    and ok :: "outside \<Rightarrow> bool"
    and P :: "'a log_writer_scheme \<Rightarrow> bool"
    and F :: "processor_fault \<Rightarrow> bool"
  assumes outside: "P c \<Longrightarrow> ok x \<Longrightarrow> P (outside_acts x c)"
    and registers: "P c \<Longrightarrow> P (c\<lparr>cc_scanner := on_processor_thread_start tid (cc_scanner c)\<rparr>)"
    and starts: "P c \<Longrightarrow> onStart (profiler_env env) c = Inr c' \<Longrightarrow> P c'"
    and polls: "P c \<Longrightarrow> controller_poll (profiler_env env) c = Inr (w, c') \<Longrightarrow> P c'"
    and handles: "P c \<Longrightarrow> network_poll (poll_handler (profiler_env env)) c = Inr (w, c') \<Longrightarrow> P c'"
    and pops: "P c \<Longrightarrow> processor_pop sz l c = Inr (popped, c') \<Longrightarrow> P c'"
    and pop_fails: "P c \<Longrightarrow> processor_pop sz l c = Inl e \<Longrightarrow> F e"
    and agent_fails: "F (AgentFault f)"
begin

lemma pop_loop_keeps: "P c \<Longrightarrow> case pop_loop sz l n i c of Inl e \<Rightarrow> F e | Inr (_, c') \<Rightarrow> P c'"
proof (induction n arbitrary: i c)
  case (Suc n)
  show ?case
  proof (cases "processor_pop sz l c")
    case (Inl e)
    with pop_fails [OF Suc.prems] show ?thesis by simp
  next
    case (Inr r)
    then obtain popped d where "processor_pop sz l c = Inr (popped, d)" by (cases r) simp
    with pops [OF Suc.prems this] Suc.IH show ?thesis by simp
  qed
qed simp

lemma poll_queue_keeps: "P c \<Longrightarrow> case poll_queue sz l c of Inl e \<Rightarrow> F e | Inr (_, c') \<Rightarrow> P c'"
  using pop_loop_keeps by (simp add: poll_queue_def)

lemma processor_turn_keeps:
  assumes p: "turn_allows ok t" and c: "P c"
  shows "case processor_turn sz env l t sleepDuration c of Inl e \<Rightarrow> F e | Inr (_, _, c') \<Rightarrow> P c'"
proof -
  note ok = p [unfolded turn_allows_def]
  let ?c1 = "outside_acts (before_poll t) c"
  have 1: "P ?c1" using outside [OF c] ok by blast
  show ?thesis
  proof (cases "controller_poll (profiler_env env) ?c1")
    case (Inr r1)
    then obtain k1 d1 where r1: "controller_poll (profiler_env env) ?c1 = Inr (k1, d1)" by (cases r1) simp
    let ?c2 = "outside_acts (before_io t) d1"
    have 2: "P ?c2" using outside [OF polls [OF 1 r1]] ok by blast
    show ?thesis
    proof (cases "network_poll (poll_handler (profiler_env env)) ?c2")
      case (Inr r2)
      then obtain k2 d2 where r2: "network_poll (poll_handler (profiler_env env)) ?c2 = Inr (k2, d2)" by (cases r2) simp
      have "P (outside_acts (before_pop t) d2)" using outside [OF handles [OF 2 r2]] ok by blast
      note poll_queue_keeps [OF this]
      then show ?thesis
        by (cases "poll_queue sz l (outside_acts (before_pop t) d2)")
          (auto simp: processor_turn_def r1 r2 agent_result_def Let_def split: prod.splits if_splits)
    qed (simp add: processor_turn_def r1 agent_result_def agent_fails)
  qed (simp add: processor_turn_def agent_result_def agent_fails)
qed

lemma processor_loop_keeps:
  "list_all (turn_allows ok) ts \<Longrightarrow> P c \<Longrightarrow> case processor_loop sz env l ts sleepDuration c of Inl e \<Rightarrow> F e | Inr (_, _, c') \<Rightarrow> P c'"
proof (induction ts arbitrary: sleepDuration c)
  case (Cons t ts)
  show ?case
  proof (cases "isOn c \<and> processorRunning t")
    case True
    have t: "case processor_turn sz env l t sleepDuration c of Inl e \<Rightarrow> F e | Inr (_, _, c') \<Rightarrow> P c'"
      using processor_turn_keeps Cons.prems by simp
    show ?thesis
    proof (cases "processor_turn sz env l t sleepDuration c")
      case (Inr r)
      then obtain slept nxt d where d: "processor_turn sz env l t sleepDuration c = Inr (slept, nxt, d)" by (cases r) auto
      with t have "P d" by simp
      with Cons have "case processor_loop sz env l ts nxt d of Inl e \<Rightarrow> F e | Inr (_, _, c') \<Rightarrow> P c'" by simp
      then show ?thesis using True by (cases "processor_loop sz env l ts nxt d") (auto simp: d)
    qed (use t True in simp)
  qed (use Cons.prems in auto)
qed simp

lemma processor_run_keeps:
  assumes "list_all (turn_allows ok) ts" "P c"
  shows "case processor_run sz env l ts tid c of
      Inl e \<Rightarrow> F e
    | Inr (_, ended, c') \<Rightarrow> (if ended then \<exists>d. P d \<and> onEnd (profiler_env env) d = Inr c' else P c')"
proof -
  let ?c = "c\<lparr>cc_scanner := on_processor_thread_start tid (cc_scanner c)\<rparr>"
  show ?thesis
  proof (cases "onStart (profiler_env env) ?c")
    case (Inr d)
    have k: "case processor_loop sz env l ts MIN_SLEEP_IN_MS d of Inl e \<Rightarrow> F e | Inr (_, _, c') \<Rightarrow> P c'"
      by (rule processor_loop_keeps [OF assms(1) starts [OF registers [OF assms(2)] Inr]])
    show ?thesis
    proof (cases "processor_loop sz env l ts MIN_SLEEP_IN_MS d")
      case (Inl e)
      with Inr k show ?thesis by (simp add: processor_run_def)
    next
      case loop: (Inr r)
      obtain ss ended k where r: "r = (ss, ended, k)" by (cases r) auto
      show ?thesis
        using k Inr loop agent_fails by (cases "onEnd (profiler_env env) k") (auto simp: processor_run_def r agent_result_def)
    qed
  qed (simp add: processor_run_def agent_result_def agent_fails)
qed

end

text \<open>Being reachable by the steps of theory Announcements is one: its steps are those of the loop.\<close>

lemma agent_reach_shared:
  assumes "agent_reach we env c" "io_plain (io c)" "io_plain es"
  shows "agent_reach we env (c\<lparr>io := io c @ es, cc_queue := q, cc_metrics := m, cc_scanner := s\<rparr>) \<and>
    io_plain (io (c\<lparr>io := io c @ es, cc_queue := q, cc_metrics := m, cc_scanner := s\<rparr>))"
proof -
  have "agent_reach we env (c\<lparr>io := io c @ es\<rparr>)" using agent_reach.step [OF assms(1) agent_step.arrives] .
  from agent_reach.step [OF this agent_step.others [where q = q and m = m and s = s]] assms(2,3) show ?thesis by simp
qed

interpretation agent_loop: loop_invariant sz env "writer_queue_listener we env" "\<lambda>x. io_plain (fst x)"
    "\<lambda>c. agent_reach we env c \<and> io_plain (io c)" "\<lambda>_. True" for sz we env
proof
  fix c c' x tid w popped
  assume c: "agent_reach we env c \<and> io_plain (io c)"
  note shared = agent_reach_shared [OF conjunct1 [OF c] conjunct2 [OF c]]
  show "agent_reach we env (outside_acts x c) \<and> io_plain (io (outside_acts x c))" if "io_plain (fst x)"
    using shared [OF that] by (simp add: outside_acts_def split: prod.split)
  have nil: "io_plain []" by (simp add: io_plain_def)
  show "agent_reach we env (c\<lparr>cc_scanner := on_processor_thread_start tid (cc_scanner c)\<rparr>) \<and>
      io_plain (io (c\<lparr>cc_scanner := on_processor_thread_start tid (cc_scanner c)\<rparr>))"
    using shared [OF nil, where q = "cc_queue c" and m = "cc_metrics c"] by simp
  show "agent_reach we env c' \<and> io_plain (io c')" if "onStart (profiler_env env) c = Inr c'"
    using c agent_reach.step [OF _ agent_step.starts [OF that]] io_counted_plain [OF onStart_io [OF that]] by blast
  show "agent_reach we env c' \<and> io_plain (io c')" if "controller_poll (profiler_env env) c = Inr (w, c')"
    using c agent_reach.step [OF _ agent_step.polls [OF _ that]] io_counted_plain [OF controller_poll_io [OF that]] by blast
  show "agent_reach we env c' \<and> io_plain (io c')" if "network_poll (poll_handler (profiler_env env)) c = Inr (w, c')"
    using c agent_reach.step [OF _ agent_step.handles [OF that]] io_within_plain [OF network_poll_io [OF that]] by blast
  show "agent_reach we env c' \<and> io_plain (io c')" if "processor_pop sz (writer_queue_listener we env) c = Inr (popped, c')"
  proof -
    let ?P = "\<lambda>c. agent_reach we env c \<and> io_plain (io c)"
    have q: "?P (d\<lparr>cc_queue := q\<rparr>)" if "?P d" for d q
      using agent_reach_shared [OF conjunct1 [OF that] conjunct2 [OF that] nil, where q = q and m = "cc_metrics d" and s = "cc_scanner d"] by simp
    have l: "?P e" if "writer_queue_listener we env ev d = Inr e" "?P d" for ev d e
    proof -
      have l: "ids_left we ev d" "log_writer_listener we (send_message (profiler_env env)) ev d = Inr e"
        using that(1) by (auto simp: writer_queue_listener_def split: if_splits)
      have "set (io e) \<subseteq> set (io d)" using listener_io [OF l(2)] by (simp add: io_noted_def)
      with that(2) io_plain_subset agent_reach.step [OF _ agent_step.records [OF _ l]] show ?thesis by blast
    qed
    show ?thesis by (rule processor_pop_keeps [where P = ?P, OF that c q l])
  qed
qed simp_all

section \<open>The queue stays well-formed\<close>

text \<open>
  The traces that wait on the queue lie in their frame buffers, also those of a broken walk, whose number of frames is
  negated: with that the listeners read no frame outside.
\<close>

fun event_within :: "QueueEvent \<Rightarrow> bool" where
  "event_within (RecordStackTrace _ trace _ _ _) = frames_within trace"
| "event_within _ = True"

definition queue_within :: "QueueSizes \<Rightarrow> nat \<Rightarrow> CircularQueue \<Rightarrow> bool" where
  "queue_within sz mf q \<longleftrightarrow> cq_inv sz mf q \<and> list_all event_within (stack_events sz q)"

lemma other_events_within: "list_all event_within (main_events sz q)" "list_all event_within (alloc_events sz q)"
proof -
  have "event_within (holder_event h)" for h by (cases "elementType h") simp_all
  then show "list_all event_within (main_events sz q)" by (simp add: main_events_def list_all_iff del: holder_event.simps)
  show "list_all event_within (alloc_events sz q)" by (simp add: alloc_events_def alloc_event_def list_all_iff)
qed

text \<open>
  What the other threads may do to the queue: push, with traces that fit its frame buffers whatever the sign of their
  number of frames, and count.
\<close>

fun op_within :: "nat \<Rightarrow> queue_op \<Rightarrow> bool" where
  "op_within mf (OpStackTrace _ trace _ _ _) = frames_within (sent_trace mf trace)"
| "op_within mf _ = True"

inductive pushed :: "QueueSizes \<Rightarrow> nat \<Rightarrow> CircularQueue \<Rightarrow> CircularQueue \<Rightarrow> bool" for sz mf q where
  nothing: "pushed sz mf q q"
| push: "pushed sz mf q r \<Longrightarrow> queue_op_fits mf p \<Longrightarrow> op_within mf p \<Longrightarrow> p \<noteq> OpPop \<Longrightarrow> queue_op_step sz p ([], r) = Inr ([], r') \<Longrightarrow>
    pushed sz mf q r'"
| count: "pushed sz mf q r \<Longrightarrow> uncounted r' = uncounted r \<Longrightarrow> pushed sz mf q r'"

lemma uncounted_within: "uncounted q' = uncounted q \<Longrightarrow> queue_within sz mf q' = queue_within sz mf q"
  using uncounted_cq_inv [of q' q sz mf] stack_events_cong [of q' q sz]
  by (cases q; cases q') (simp add: queue_within_def uncounted_def)

lemma spec_op_within:
  assumes "op_within mf p" "list_all event_within (spec_stack s)"
  shows "list_all event_within (spec_stack (spec_op sz mf p s))"
proof -
  have t: "list_all P xs \<Longrightarrow> list_all P (take k xs)" "list_all P xs \<Longrightarrow> list_all P (tl xs)" for P :: "QueueEvent \<Rightarrow> bool" and k xs
    by (auto simp: list_all_iff dest: in_set_takeD list.set_sel(2)) (metis list.set_sel(2) tl_Nil)
  show ?thesis using assms by (cases p) (auto intro!: t)
qed

lemma pushed_within: "pushed sz mf q r \<Longrightarrow> queue_within sz mf q \<Longrightarrow> queue_within sz mf r"
proof (induction rule: pushed.induct)
  case (push r p r')
  then have r: "cq_inv sz mf (snd ([] :: QueueEvent list, r))" "list_all event_within (stack_events sz r)"
    by (simp_all add: queue_within_def)
  obtain wq where "queue_op_step sz p ([], r) = Inr wq" "cq_inv sz mf (snd wq)"
      "queue_spec sz wq = spec_op sz mf p (queue_spec sz ([], r))"
    by (rule queue_op_refines [OF r(1) push.hyps(2)])
  moreover from this have "list_all event_within (spec_stack (queue_spec sz wq))"
    using spec_op_within [OF push.hyps(3), of "queue_spec sz ([], r)" sz] r(2) by (simp add: queue_spec_def)
  then have "list_all event_within (stack_events sz (snd wq))" by (simp add: queue_spec_def)
  ultimately show ?case using push.hyps(5) by (auto simp: queue_within_def)
next
  case (count r r')
  with uncounted_within [OF count.hyps(2), of sz mf] show ?case by simp
qed simp

lemma pushed_inv: "pushed sz mf q r \<Longrightarrow> cq_inv sz mf q \<Longrightarrow> cq_inv sz mf r"
proof (induction rule: pushed.induct)
  case (push r p r')
  then have "cq_inv sz mf (snd ([] :: QueueEvent list, r))" by simp
  then obtain wq where "queue_op_step sz p ([], r) = Inr wq" "cq_inv sz mf (snd wq)"
    by (rule queue_op_refines [OF _ push.hyps(2)])
  then show ?case using push.hyps(5) by auto
next
  case (count r r')
  with uncounted_cq_inv [OF count.hyps(2), of sz mf] show ?case by simp
qed simp

lemma pushed_trans: "pushed sz mf r t \<Longrightarrow> pushed sz mf q r \<Longrightarrow> pushed sz mf q t"
  by (induction rule: pushed.induct) (blast intro: pushed.intros)+

definition only_pushes :: "QueueSizes \<Rightarrow> nat \<Rightarrow> outside \<Rightarrow> bool" where
  "only_pushes sz mf x \<longleftrightarrow> (\<forall>q m s. queue_within sz mf q \<longrightarrow> pushed sz mf q (fst (snd x (q, m, s))))"

lemma only_pushes_keeps:
  assumes "only_pushes sz mf x" "queue_within sz mf (cc_queue c)"
  shows "queue_within sz mf (cc_queue (outside_acts x c))"
  using assms pushed_within [of sz mf "cc_queue c"] by (simp add: only_pushes_def outside_acts_def case_prod_beta)

lemma io_counted_within: "io_counted c c' \<Longrightarrow> queue_within sz mf (cc_queue c) \<Longrightarrow> queue_within sz mf (cc_queue c')"
  using uncounted_within [of "cc_queue c'" "cc_queue c" sz mf] by (simp add: io_counted_def)

text \<open>The faults of the queue and the reads outside a frame buffer.\<close>

fun overrun :: "processor_fault \<Rightarrow> bool" where
  "overrun (QueueFault _) = True"
| "overrun (WriterFault FramesOverread) = True"
| "overrun (ExporterFault FramesOutside) = True"
| "overrun _ = False"

text \<open>
  What a listener of the queue must respect for that: it only pushes notifications, and faults on neither the queue nor a
  trace that lies in its buffer.
\<close>

locale queue_client = queue_listener sz "pop_listener l" for sz :: QueueSizes and l :: "'a log_writer_scheme queue_listener" +
  assumes no_overrun: "event_within ev \<Longrightarrow> l ev c = Inl e \<Longrightarrow> \<not> overrun e"
begin

text \<open>A predicate on the listener's side that holds after each event of the queue holds after a pop.\<close>

lemma pop_told:
  assumes inv: "cq_inv sz mf q" and w: "I w" and p: "pop sz (pop_listener l) (w, q) = Inr (popped, w', q')"
    and told: "\<And>e w q. E e \<Longrightarrow> I w \<Longrightarrow> I (fst (pop_listener l e (w, q)))"
    and events: "list_all E (main_events sz q)" "list_all E (alloc_events sz q)" "list_all E (stack_events sz q)"
  shows "I w'"
proof -
  let ?l = "pop_listener l"
  have "\<exists>r1 w1 q1. pop_main sz ?l (w, q) = Inr (r1, w1, q1) \<and> cq_inv sz mf q1 \<and> I w1 \<and>
      alloc_events sz q1 = alloc_events sz q \<and> stack_events sz q1 = stack_events sz q"
  proof (cases "main_events sz q")
    case Nil
    then show ?thesis using pop_main_step(1) [OF inv Nil, of w] inv w by blast
  next
    case (Cons e es)
    have "I (fst (?l e (w, q)))" by (rule told [OF _ w]) (use Cons events(1) in simp)
    then show ?thesis using pop_main_step(2) [OF inv Cons, of w] by blast
  qed
  then obtain r1 w1 q1 where 1: "pop_main sz ?l (w, q) = Inr (r1, w1, q1)" "cq_inv sz mf q1" "I w1"
      "alloc_events sz q1 = alloc_events sz q" "stack_events sz q1 = stack_events sz q" by blast
  have "\<exists>r2 w2 q2. pop_allocation sz ?l (w1, q1) = Inr (r2, w2, q2) \<and> cq_inv sz mf q2 \<and> I w2 \<and>
      stack_events sz q2 = stack_events sz q1"
  proof (cases "alloc_events sz q1")
    case Nil
    then show ?thesis using pop_allocation_step(1) [OF 1(2) Nil, of w1] 1 by blast
  next
    case (Cons e es)
    have "I (fst (?l e (w1, q1)))" by (rule told [OF _ 1(3)]) (use Cons events(2) 1(4) in simp)
    then show ?thesis using pop_allocation_step(2) [OF 1(2) Cons, of w1] by blast
  qed
  then obtain r2 w2 q2 where 2: "pop_allocation sz ?l (w1, q1) = Inr (r2, w2, q2)" "cq_inv sz mf q2" "I w2"
      "stack_events sz q2 = stack_events sz q1" by blast
  have "\<exists>r3 w3 q3. pop_stack sz ?l (w2, q2) = Inr (r3, w3, q3) \<and> I w3"
  proof (cases "stack_events sz q2")
    case Nil
    then show ?thesis using pop_stack_step(1) [OF 2(2) Nil, of w2] 2(3) by blast
  next
    case (Cons e es)
    have "I (fst (?l e (w2, q2)))" by (rule told [OF _ 2(3)]) (use Cons events(3) 1(5) 2(4) in simp)
    then show ?thesis using pop_stack_step(2) [OF 2(2) Cons, of w2] by blast
  qed
  then obtain r3 w3 q3 where 3: "pop_stack sz ?l (w2, q2) = Inr (r3, w3, q3)" "I w3" by blast
  show ?thesis using p 1(1) 2(1) 3 by (simp add: pop_def)
qed

lemma processor_pop_queue:
  assumes "queue_within sz mf (cc_queue c)"
  shows "processor_pop sz l c = Inr (popped, c') \<Longrightarrow> queue_within sz mf (cc_queue c')"
    and "processor_pop sz l c = Inl e \<Longrightarrow> \<not> overrun e"
proof -
  have q: "cq_inv sz mf (cc_queue c)" "list_all event_within (stack_events sz (cc_queue c))"
    using assms by (simp_all add: queue_within_def)
  obtain r w' q' where p: "pop sz (pop_listener l) (Inr c, cc_queue c) = Inr (r, w', q')" "cq_inv sz mf q'"
      "stack_events sz q' = tl (stack_events sz (cc_queue c))"
    by (rule pop_keeps [OF q(1)])
  have "list_all event_within (tl (stack_events sz (cc_queue c)))" using q(2) by (cases "stack_events sz (cc_queue c)") simp_all
  then show "processor_pop sz l c = Inr (popped, c') \<Longrightarrow> queue_within sz mf (cc_queue c')"
    using p by (auto simp: processor_pop_def bind_result_Inr queue_within_def)
  let ?I = "\<lambda>w :: processor_fault + 'a log_writer_scheme. \<forall>e. w = Inl e \<longrightarrow> \<not> overrun e"
  have "?I (fst (pop_listener l ev (w, q)))" if "event_within ev" "?I w" for ev w q
    using that no_overrun [OF that(1)] by (cases w) (auto split: sum.splits)
  from pop_told [where I = ?I, OF q(1) _ p(1) this other_events_within q(2)]
  show "\<not> overrun e" if "processor_pop sz l c = Inl e" using that p(1) by (cases w') (auto simp: processor_pop_def)
qed

end

sublocale queue_client \<subseteq> loop: loop_invariant sz env l "only_pushes sz mf" "\<lambda>c. queue_within sz mf (cc_queue c)" "\<lambda>e. \<not> overrun e"
  for mf and env :: "'a log_writer_scheme controller_env"
proof
  fix c c' :: "'a log_writer_scheme" and x tid w popped e
  assume c: "queue_within sz mf (cc_queue c)"
  show "queue_within sz mf (cc_queue (outside_acts x c))" if "only_pushes sz mf x" by (rule only_pushes_keeps [OF that c])
  note counted = io_counted_within [OF _ c]
  show "queue_within sz mf (cc_queue c')" if "onStart (profiler_env env) c = Inr c'" by (rule counted [OF onStart_io [OF that]])
  show "queue_within sz mf (cc_queue c')" if "controller_poll (profiler_env env) c = Inr (w, c')"
    by (rule counted [OF controller_poll_io [OF that]])
  show "queue_within sz mf (cc_queue c')" if "network_poll (poll_handler (profiler_env env)) c = Inr (w, c')"
    using network_poll_io [OF that] c by (simp add: io_within_def)
  show "queue_within sz mf (cc_queue c')" if "processor_pop sz l c = Inr (popped, c')" by (rule processor_pop_queue(1) [OF c that])
  show "\<not> overrun e" if "processor_pop sz l c = Inl e" using processor_pop_queue(2) [OF c that] by blast
qed simp_all

context queue_client
begin

lemma run_keeps_queue:
  assumes "queue_within sz mf (cc_queue c)" "list_all (turn_allows (only_pushes sz mf)) ts"
  shows "case processor_run sz env l ts tid c of
      Inl e \<Rightarrow> \<not> overrun e
    | Inr (sleeps, ended, c') \<Rightarrow> queue_within sz mf (cc_queue c')"
  using loop.processor_run_keeps [OF assms(2,1), of env tid] by (auto split: sum.splits if_splits dest!: onEnd_queue)

lemma pop_empty:
  assumes "cq_inv sz mf q" "main_events sz q = []" "alloc_events sz q = []" "stack_events sz q = []"
  shows "pop sz (pop_listener l) (w, q) = Inr (False, w, q)"
  using pop_main_step(1) [OF assms(1,2), of w] pop_allocation_step(1) [OF assms(1,3), of w] pop_stack_step(1) [OF assms(1,4), of w]
  by (simp add: pop_def)

text \<open>A pop takes the head of each ring, and what the listener notes meanwhile comes behind.\<close>

lemma processor_pop_takes:
  assumes inv: "cq_inv sz mf (cc_queue c)" and p: "processor_pop sz l c = Inr (popped, c')"
  shows "cq_inv sz mf (cc_queue c')" "\<exists>new. main_events sz (cc_queue c') = tl (main_events sz (cc_queue c)) @ new"
    "alloc_events sz (cc_queue c') = tl (alloc_events sz (cc_queue c))" "stack_events sz (cc_queue c') = tl (stack_events sz (cc_queue c))"
    "popped \<longleftrightarrow> main_events sz (cc_queue c) \<noteq> [] \<or> alloc_events sz (cc_queue c) \<noteq> [] \<or> stack_events sz (cc_queue c) \<noteq> []"
    "\<not> popped \<Longrightarrow> c' = c"
proof -
  obtain r w' q' where r: "pop sz (pop_listener l) (Inr c, cc_queue c) = Inr (r, w', q')" "cq_inv sz mf q'"
    "alloc_events sz q' = tl (alloc_events sz (cc_queue c))" "stack_events sz q' = tl (stack_events sz (cc_queue c))"
    "\<exists>new. main_events sz q' = tl (main_events sz (cc_queue c)) @ new"
    "r \<longleftrightarrow> main_events sz (cc_queue c) \<noteq> [] \<or> alloc_events sz (cc_queue c) \<noteq> [] \<or> stack_events sz (cc_queue c) \<noteq> []"
    by (rule pop_keeps [OF inv])
  obtain d where d: "w' = Inr d" "popped = r" "c' = d\<lparr>cc_queue := q'\<rparr>" using p r(1) by (auto simp: processor_pop_def bind_result_Inr)
  then have "cc_queue c' = q'" by simp
  with r d(2) show "cq_inv sz mf (cc_queue c')" "\<exists>new. main_events sz (cc_queue c') = tl (main_events sz (cc_queue c)) @ new"
    "alloc_events sz (cc_queue c') = tl (alloc_events sz (cc_queue c))" "stack_events sz (cc_queue c') = tl (stack_events sz (cc_queue c))"
    "popped \<longleftrightarrow> main_events sz (cc_queue c) \<noteq> [] \<or> alloc_events sz (cc_queue c) \<noteq> [] \<or> stack_events sz (cc_queue c) \<noteq> []" by simp_all
  show "c' = c" if "\<not> popped"
    using pop_empty [OF inv, of "Inr c"] r(1,6) d that by auto
qed

lemma pop_loop_takes:
  assumes "pop_loop sz l n i c = Inr (i', c')" "cq_inv sz mf (cc_queue c)"
  shows "\<exists>k new. i' = i + k \<and> k \<le> n \<and> main_events sz (cc_queue c') = drop k (main_events sz (cc_queue c)) @ new \<and>
    alloc_events sz (cc_queue c') = drop k (alloc_events sz (cc_queue c)) \<and>
    stack_events sz (cc_queue c') = drop k (stack_events sz (cc_queue c)) \<and>
    (k < n \<longrightarrow> main_events sz (cc_queue c') = [] \<and> alloc_events sz (cc_queue c') = [] \<and> stack_events sz (cc_queue c') = []) \<and>
    (0 < k \<longleftrightarrow> 0 < n \<and> (main_events sz (cc_queue c) \<noteq> [] \<or> alloc_events sz (cc_queue c) \<noteq> [] \<or> stack_events sz (cc_queue c) \<noteq> []))"
  using assms
proof (induction n arbitrary: i c)
  case (Suc n)
  obtain popped d where d: "processor_pop sz l c = Inr (popped, d)" "(if popped then pop_loop sz l n (Suc i) d else Inr (i, d)) = Inr (i', c')"
    using Suc.prems(1) by (auto simp: bind_result_Inr)
  note t = processor_pop_takes [OF Suc.prems(2) d(1)]
  show ?case
  proof (cases popped)
    case True
    with d(2) have "pop_loop sz l n (Suc i) d = Inr (i', c')" by simp
    from Suc.IH [OF this t(1)] obtain k new where k: "i' = Suc i + k" "k \<le> n" "main_events sz (cc_queue c') = drop k (main_events sz (cc_queue d)) @ new"
      "alloc_events sz (cc_queue c') = drop k (alloc_events sz (cc_queue d))" "stack_events sz (cc_queue c') = drop k (stack_events sz (cc_queue d))"
      "k < n \<longrightarrow> main_events sz (cc_queue c') = [] \<and> alloc_events sz (cc_queue c') = [] \<and> stack_events sz (cc_queue c') = []"
      by blast
    obtain new1 where m: "main_events sz (cc_queue d) = tl (main_events sz (cc_queue c)) @ new1" using t(2) by blast
    have "main_events sz (cc_queue c') = drop (Suc k) (main_events sz (cc_queue c)) @ (drop (k - length (tl (main_events sz (cc_queue c)))) new1 @ new)"
      by (simp add: k(3) m drop_Suc)
    with k t(3,4,5) True show ?thesis
      by (intro exI [of _ "Suc k"] exI [of _ "drop (k - length (tl (main_events sz (cc_queue c)))) new1 @ new"]) (simp add: drop_Suc)
  next
    case False
    with d(2) t(5,6) show ?thesis by (intro exI [of _ 0] exI [of _ "[]"]) simp
  qed
qed simp

lemma turn_pops:
  assumes "queue_within sz mf (cc_queue c)" "turn_allows (only_pushes sz mf) t"
    and turn: "processor_turn sz env l t sleepDuration c = Inr (slept, nxt, c')"
  obtains connected c1 polled c2 i new where
    "controller_poll (profiler_env env) (outside_acts (before_poll t) c) = Inr (connected, c1)"
    "network_poll (poll_handler (profiler_env env)) (outside_acts (before_io t) c1) = Inr (polled, c2)"
    "\<And>d q q'. d = outside_acts (before_pop t) c2 \<Longrightarrow> q = cc_queue d \<Longrightarrow> q' = cc_queue c' \<Longrightarrow>
       (if isActive d then i \<le> 10 else i = 0 \<and> c' = d) \<and>
       main_events sz q' = drop i (main_events sz q) @ new \<and> alloc_events sz q' = drop i (alloc_events sz q) \<and>
       stack_events sz q' = drop i (stack_events sz q) \<and>
       (isActive d \<and> i < 10 \<longrightarrow> main_events sz q' = [] \<and> alloc_events sz q' = [] \<and> stack_events sz q' = []) \<and>
       (0 < i \<longleftrightarrow> isActive d \<and> (main_events sz q \<noteq> [] \<or> alloc_events sz q \<noteq> [] \<or> stack_events sz q \<noteq> []))"
    "(slept, nxt) = (if \<not> connected \<and> \<not> polled \<and> i = 0 \<and> stillRunning t then (Some sleepDuration, min 200 (sleepDuration * 2)) else (None, 2))"
proof -
  let ?x1 = "outside_acts (before_poll t) c"
  obtain connected c1 where 1: "controller_poll (profiler_env env) ?x1 = Inr (connected, c1)"
    using turn by (auto simp: processor_turn_def bind_result_Inr)
  let ?x2 = "outside_acts (before_io t) c1"
  obtain polled c2 where 2: "network_poll (poll_handler (profiler_env env)) ?x2 = Inr (polled, c2)"
    using turn 1 by (auto simp: processor_turn_def bind_result_Inr)
  let ?d = "outside_acts (before_pop t) c2"
  obtain i where 3: "poll_queue sz l ?d = Inr (i, c')"
    and s: "(slept, nxt) = (if \<not> connected \<and> \<not> polled \<and> i = 0 \<and> stillRunning t then (Some sleepDuration, min 200 (sleepDuration * 2)) else (None, 2))"
    using turn 1 2 by (auto simp: processor_turn_def bind_result_Inr Let_def MAX_SLEEP_IN_MS_def MIN_SLEEP_IN_MS_def split: if_splits)
  note ok = assms(2) [unfolded turn_allows_def]
  have "queue_within sz mf (cc_queue ?x1)" using only_pushes_keeps ok assms(1) by blast
  then have "queue_within sz mf (cc_queue c1)" by (rule io_counted_within [OF controller_poll_io [OF 1]])
  then have "queue_within sz mf (cc_queue ?x2)" using only_pushes_keeps ok by blast
  then have "queue_within sz mf (cc_queue c2)" using network_poll_io [OF 2] by (simp add: io_within_def)
  then have "queue_within sz mf (cc_queue ?d)" using only_pushes_keeps ok by blast
  then have q: "cq_inv sz mf (cc_queue ?d)" by (simp add: queue_within_def)
  show thesis
  proof (cases "isActive ?d")
    case True
    with 3 have "pop_loop sz l 10 0 ?d = Inr (i, c')" by (simp add: poll_queue_def PROCESSOR_MAX_POLLS_def)
    from pop_loop_takes [OF this q] obtain k new where k: "i = 0 + k" "k \<le> 10" "main_events sz (cc_queue c') = drop k (main_events sz (cc_queue ?d)) @ new"
      "alloc_events sz (cc_queue c') = drop k (alloc_events sz (cc_queue ?d))" "stack_events sz (cc_queue c') = drop k (stack_events sz (cc_queue ?d))"
      "k < 10 \<longrightarrow> main_events sz (cc_queue c') = [] \<and> alloc_events sz (cc_queue c') = [] \<and> stack_events sz (cc_queue c') = []"
      "0 < k \<longleftrightarrow> 0 < (10 :: nat) \<and> (main_events sz (cc_queue ?d) \<noteq> [] \<or> alloc_events sz (cc_queue ?d) \<noteq> [] \<or> stack_events sz (cc_queue ?d) \<noteq> [])"
      by (elim exE conjE) (rule that)
    show thesis by (rule that [OF 1 2 _ s, of new]) (use k True in simp)
  next
    case False
    with 3 have "i = 0" "c' = ?d" by (simp_all add: poll_queue_def)
    then show thesis by (intro that [OF 1 2 _ s, of "[]"]) (use False in simp)
  qed
qed

end

lemma writer_no_overrun: "event_within ev \<Longrightarrow> writer_queue_listener we env ev c = Inl e \<Longrightarrow> \<not> overrun e"
proof (cases ev)
  case (RecordStackTrace ts trace signal state tsc)
  moreover assume "event_within ev" "writer_queue_listener we env ev c = Inl e"
  ultimately have f: "frames_within trace" "e = IdsExhausted \<or>
      (\<exists>f. e = WriterFault f \<and> lw_recordStackTrace we (send_message (profiler_env env)) ts trace signal state c = Inl f)"
    by (auto simp: writer_queue_listener_def map_sum_def split: if_splits sum.splits)
  moreover have "f \<noteq> FramesOverread" if "lw_recordStackTrace we (send_message (profiler_env env)) ts trace signal state c = Inl f" for f
    using that f(1) by (auto simp: lw_recordStackTrace_def bind_result_def Let_def case_prod_beta map_sum_def split: sum.splits)
  ultimately show "\<not> overrun e" by (auto elim: overrun.elims)
qed (auto simp: writer_queue_listener_def map_sum_def split: if_splits sum.splits)

interpretation writer_client: queue_client "we_sizes we" "writer_queue_listener we env" for we env
proof
  show "\<exists>ns. snd (pop_listener (writer_queue_listener we env) ev (w, q)) = push_notes (we_sizes we) ns q" for ev w q
  proof (cases w)
    case (Inr c)
    show ?thesis
    proof (cases "writer_queue_listener we env ev (c\<lparr>cc_queue := q\<rparr>)")
      case r: (Inr d)
      then have "log_writer_listener we (send_message (profiler_env env)) ev (c\<lparr>cc_queue := q\<rparr>) = Inr d"
        by (simp add: writer_queue_listener_def split: if_splits)
      from listener_io [OF this] show ?thesis by (simp add: Inr r io_noted_def)
    qed (simp add: Inr, metis push_notes_simps(1))
  qed (simp, metis push_notes_simps(1))
qed (rule writer_no_overrun)

interpretation exporter_client: queue_client sz "exporter_queue_listener di" for sz di
proof
  have "snd (pop_listener (exporter_queue_listener di) ev (w, q)) = q" for ev w q
    by (cases w) (auto simp: exporter_queue_listener_def split: option.split sum.split)
  then show "\<exists>ns. snd (pop_listener (exporter_queue_listener di) ev (w, q)) = push_notes sz ns q" for ev w q
    by (metis push_notes_simps(1))
  show "\<not> overrun e" if "event_within ev" "exporter_queue_listener di ev c = Inl e" for ev c e
    using that by (cases ev) (auto simp: exporter_queue_listener_def prom_recordStackTrace_def map_sum_def split: option.splits sum.splits if_splits)
qed

text \<open>C7: However long the agent runs, a well-formed queue whose traces lie in their frame buffers stays so, and the processor
  reads no frame outside a buffer, neither when the queue copies and clears them nor when the log writer looks them up, and
  never waits for a commit nobody makes. It takes that the other threads only push, with traces that fit the buffers, the
  broken ones too, whose number of frames is negated; the listener's own notifications and the reset of the counters are
  accounted for. Other faults (a blocked wait, a callback of libbacktrace) may end the run.\<close>

theorem processor_keeps_queue:
  assumes "queue_within (we_sizes we) mf (cc_queue c)" "list_all (turn_allows (only_pushes (we_sizes we) mf)) ts"
  shows "case processor_run (we_sizes we) env (writer_queue_listener we env) ts tid c of
      Inl e \<Rightarrow> (\<forall>f. e \<noteq> QueueFault f) \<and> e \<noteq> WriterFault FramesOverread
    | Inr (sleeps, ended, c') \<Rightarrow> queue_within (we_sizes we) mf (cc_queue c')"
  using writer_client.run_keeps_queue [OF assms, of env env tid]
  by (cases "processor_run (we_sizes we) env (writer_queue_listener we env) ts tid c") auto

section \<open>The loop as steps\<close>

lemma run_reach:
  assumes "agent_reach we env c" "io_plain (io c)" "list_all (turn_allows (\<lambda>x. io_plain (fst x))) ts"
    and "processor_run sz env (writer_queue_listener we env) ts tid c = Inr (sleeps, ended, c')"
  obtains d where "agent_reach we env d" "if ended then onEnd (profiler_env env) d = Inr c' else d = c'"
  using agent_loop.processor_run_keeps [OF assms(3), of we env c sz tid] assms(1,2,4) by (auto split: if_splits)

lemma fork_reach:
  assumes "agent_reach we env d"
  shows "agent_reach we env (profiler_on_fork d)"
proof -
  let ?d = "d\<lparr>cc_scanner := reset_scan_threads (cc_scanner d)\<rparr>"
  have "agent_reach we env (d\<lparr>cc_queue := cc_queue d, cc_metrics := cc_metrics d, cc_scanner := reset_scan_threads (cc_scanner d)\<rparr>)"
    by (rule agent_reach.step [OF assms agent_step.others])
  then have "agent_reach we env ?d" by simp
  then have f: "agent_reach we env (network_on_fork (lw_onSocketConnected (controller_on_fork ?d)))" (is "agent_reach we env ?f")
    by (rule agent_reach.step [OF _ agent_step.forks])
  have "agent_reach we env (?f\<lparr>cc_queue := cc_queue ?f, cc_metrics := metrics_on_fork (cc_metrics ?f), cc_scanner := cc_scanner ?f\<rparr>)"
    by (rule agent_reach.step [OF f agent_step.others])
  then show ?thesis by (simp add: profiler_on_fork_def Let_def)
qed

text \<open>C6: A turn of the processor polls the controller, then the io service, then the queue. Unless the agent is then active
  nothing is popped; if it is, up to ten times one event is taken off the front of each ring, in the order of the rings,
  and fewer than ten times only if all three are then empty; what the listener notes meanwhile comes behind. The thread
  sleeps exactly when nothing was done and it is still running, and then doubles the next sleep, up to 200 milliseconds;
  otherwise the next one is two. As far as the other threads only push, with traces that fit.\<close>

theorem processor_turn_pops:
  assumes "queue_within (we_sizes we) mf (cc_queue c)" "turn_allows (only_pushes (we_sizes we) mf) t"
    and "processor_turn (we_sizes we) env (writer_queue_listener we env) t sleepDuration c = Inr (slept, nxt, c')"
  shows "\<exists>connected c1 polled c2 i new.
    controller_poll (profiler_env env) (outside_acts (before_poll t) c) = Inr (connected, c1) \<and>
    network_poll (poll_handler (profiler_env env)) (outside_acts (before_io t) c1) = Inr (polled, c2) \<and>
    (let sz = we_sizes we; d = outside_acts (before_pop t) c2; q = cc_queue d; q' = cc_queue c' in
       (if isActive d then i \<le> 10 else i = 0 \<and> c' = d) \<and>
       main_events sz q' = drop i (main_events sz q) @ new \<and> alloc_events sz q' = drop i (alloc_events sz q) \<and>
       stack_events sz q' = drop i (stack_events sz q) \<and>
       (isActive d \<and> i < 10 \<longrightarrow> main_events sz q' = [] \<and> alloc_events sz q' = [] \<and> stack_events sz q' = []) \<and>
       (0 < i \<longleftrightarrow> isActive d \<and> (main_events sz q \<noteq> [] \<or> alloc_events sz q \<noteq> [] \<or> stack_events sz q \<noteq> []))) \<and>
    (slept, nxt) = (if \<not> connected \<and> \<not> polled \<and> i = 0 \<and> stillRunning t then (Some sleepDuration, min 200 (sleepDuration * 2)) else (None, 2))"
  by (rule writer_client.turn_pops [OF assms]) (unfold Let_def, intro exI conjI, assumption, assumption, blast+)

text \<open>The sleep between idle turns: two milliseconds after work, then twice as long each time, up to 200.\<close>

lemma processor_sleeps:
  "processor_loop sz env l ts sleepDuration c = Inr (sleeps, ended, c') \<Longrightarrow> 2 \<le> sleepDuration \<Longrightarrow> sleepDuration \<le> 200 \<Longrightarrow>
     (\<forall>ms. hd sleeps = Some ms \<longrightarrow> sleeps \<noteq> [] \<longrightarrow> ms = sleepDuration) \<and>
     (\<forall>ms. Some ms \<in> set sleeps \<longrightarrow> 2 \<le> ms \<and> ms \<le> 200) \<and>
     (\<forall>i ms. Suc i < length sleeps \<longrightarrow> sleeps ! Suc i = Some ms \<longrightarrow> ms = (case sleeps ! i of None \<Rightarrow> 2 | Some p \<Rightarrow> min 200 (p * 2)))"
proof (induction ts arbitrary: sleepDuration sleeps c)
  case (Cons t ts)
  show ?case
  proof (cases "isOn c \<and> processorRunning t")
    case True
    then obtain slept nxt d ss where d: "processor_turn sz env l t sleepDuration c = Inr (slept, nxt, d)"
        "processor_loop sz env l ts nxt d = Inr (ss, ended, c')" "sleeps = slept # ss"
      using Cons.prems(1) by (auto simp: bind_result_Inr)
    have n: "slept = Some sleepDuration \<and> nxt = min 200 (sleepDuration * 2) \<or> slept = None \<and> nxt = 2"
      using d(1) by (auto simp: processor_turn_def bind_result_Inr Let_def MAX_SLEEP_IN_MS_def MIN_SLEEP_IN_MS_def split: if_splits)
    have "2 \<le> min 200 (sleepDuration * 2)"
    proof -
      have "unat sleepDuration * unat (2 :: u64) < 2 ^ LENGTH(64)" using Cons.prems(3) by (simp add: word_le_nat_alt)
      then have "unat (sleepDuration * 2) = unat sleepDuration * 2" using unat_mult_lem [of sleepDuration 2] by simp
      then show ?thesis using Cons.prems(2) by (simp add: word_le_nat_alt min_def)
    qed
    with n have "2 \<le> nxt" "nxt \<le> 200" by auto
    note IH = Cons.IH [OF d(2) this]
    show ?thesis
      using IH n Cons.prems(2,3) unfolding d(3) by (auto simp: nth_Cons hd_conv_nth split: nat.split)
  qed (use Cons.prems(1) in \<open>auto split: if_splits\<close>)
qed simp

section \<open>The end\<close>

lemma stopProcessProfiling_result:
  obtains r h' where "stopProcessProfiling setitimer h = Some (r, h')"
    "isProcessProfiling h' \<longrightarrow> \<not> setitimer \<lparr>tval_sec = 0, tval_usec = 0\<rparr>"
proof -
  have i: "itimer_interval 0 = Some \<lparr>tval_sec = 0, tval_usec = 0\<rparr>" by (simp add: itimer_interval_def INT_MIN_def INT_MAX_def)
  have "\<exists>r h'. stopProcessProfiling setitimer h = Some (r, h') \<and> (isProcessProfiling h' \<longrightarrow> \<not> setitimer \<lparr>tval_sec = 0, tval_usec = 0\<rparr>)"
    by (cases "currentProcessInterval h = 0"; cases "setitimer \<lparr>tval_sec = 0, tval_usec = 0\<rparr>")
      (auto simp: stopProcessProfiling_def updateProcessInterval_def updateInterval_def i NOT_PROFILING_def isProcessProfiling_def)
  with that show thesis by blast
qed

text \<open>C22: An agent that has been terminated, or whose process exits, leaves the loop at its next test, closes the connection,
  cancels its timers and stops the profiling timer (unless \<open>setitimer\<close> refuses); what it never stops is the scanning of
  threads, whose timers go on signalling samples that nobody takes off the queue.\<close>

theorem terminated_agent_stops:
  assumes "agent_reach we env c" "\<not> isOn c \<or> \<not> processorRunning t"
  shows "processor_loop sz env l (t # ts) sleepDuration c = Inr ([], True, c) \<and>
    (\<exists>c'. onEnd (profiler_env env) c = Inr c' \<and> cc_state c' = DISCONNECTED \<and> \<not> isConnected c' \<and> \<not> sock c' \<and> armed c' = {} \<and>
       (isProcessProfiling (signalHandler c') \<longrightarrow> \<not> ce_setitimer env \<lparr>tval_sec = 0, tval_usec = 0\<rparr>) \<and> cc_scanner c' = cc_scanner c)"
proof -
  obtain ok h where h: "stopProcessProfiling (ce_setitimer env) (signalHandler c) = Some (ok, h)"
      "isProcessProfiling h \<longrightarrow> \<not> ce_setitimer env \<lparr>tval_sec = 0, tval_usec = 0\<rparr>"
    by (rule stopProcessProfiling_result)
  let ?c = "c\<lparr>signalHandler := h\<rparr>" and ?e = "onDisconnect (profiler_env env) (c\<lparr>signalHandler := h\<rparr>)"
  have "conn_ok c" using agent_reach_inv [OF assms(1)] by (simp add: agent_inv_def between_def)
  then have "conn_ok ?c" by (simp add: conn_ok_def)
  note d = onDisconnect_fields [OF this, of "profiler_env env"]
  have "onEnd (profiler_env env) c = Inr ?e" by (simp add: onEnd_def update_signal_handler_def profiler_env_def h(1))
  moreover have "armed ?e = {}" "signalHandler ?e = h" "cc_scanner ?e = cc_scanner c"
    using all_timers [of c] by (auto simp: onDisconnect_def Let_def network_close_def closeSocket_def)
  ultimately show ?thesis using d h(2) assms(2) by auto
qed

section \<open>An example\<close>

text \<open>
  Two turns: the agent connects and greets the collector, then finds nothing to do but leaves the notification that another
  thread has pushed on the queue, as it has not been answered yet; in a third the process exits.
\<close>

definition quiet :: outside where "quiet = ([], id)"

definition demo_push :: outside where
  "demo_push = ([], \<lambda>(q, m, s). (snd (pushNotification demo_metric_sizes USER_ERROR ''note'' 1 q), m, s))"

definition demo_turns :: "turn list" where
  "demo_turns =
     [\<lparr>before_poll = (demo_events, id), before_io = quiet, before_pop = quiet, processorRunning = True, stillRunning = True\<rparr>,
      \<lparr>before_poll = quiet, before_io = quiet, before_pop = demo_push, processorRunning = True, stillRunning = True\<rparr>,
      \<lparr>before_poll = quiet, before_io = quiet, before_pop = quiet, processorRunning = False, stillRunning = False\<rparr>]"

definition demo_run :: "nat \<Rightarrow> processor_fault + u64 option list \<times> bool \<times> log_writer" where
  "demo_run n = processor_run demo_metric_sizes demo_env (writer_queue_listener demo_writer_env demo_env) (take n demo_turns) 5 (demo_agent False)"

lemma demo_run_facts:
  "demo_run 2 = Inr ([None, Some 2], False, snd (snd (projr (demo_run 2))))" "isConnected (snd (snd (projr (demo_run 2))))"
proof -
  have "\<not> isl (demo_run 2)" "fst (projr (demo_run 2)) = [None, Some 2]" "\<not> fst (snd (projr (demo_run 2)))" by code_simp+
  then show "demo_run 2 = Inr ([None, Some 2], False, snd (snd (projr (demo_run 2))))" by (metis (full_types) prod.collapse sum.collapse(2))
qed code_simp

lemma demo_run_start: "agent_reach demo_writer_env demo_env (demo_agent False)" "io_plain (io (demo_agent False))"
  using agent_initial_parts(4) [OF demo_agent_initial] by (auto simp: io_plain_def intro: agent_reach.initial [OF demo_agent_initial])

lemma demo_outside_pushes: "only_pushes demo_metric_sizes mf (es, id)" "only_pushes demo_metric_sizes mf demo_push"
proof -
  show "only_pushes demo_metric_sizes mf (es, id)" by (simp add: only_pushes_def pushed.nothing)
  have "pushed demo_metric_sizes mf q (snd (pushNotification demo_metric_sizes USER_ERROR ''note'' 1 q))" for q
    by (rule pushed.push [OF pushed.nothing, where p = "OpNotification USER_ERROR ''note'' 1"]) simp_all
  then show "only_pushes demo_metric_sizes mf demo_push" by (simp add: only_pushes_def demo_push_def)
qed

text \<open>An agent that exports to Prometheus is active from the start: it takes the notification pushed before the pop.\<close>

definition demo_pop_turn :: turn where
  "demo_pop_turn = \<lparr>before_poll = quiet, before_io = quiet, before_pop = demo_push, processorRunning = True, stillRunning = True\<rparr>"

definition demo_turn_result :: "processor_fault + u64 option \<times> u64 \<times> log_writer" where
  "demo_turn_result = processor_turn demo_metric_sizes demo_env (writer_queue_listener demo_writer_env demo_env) demo_pop_turn 2 (demo_agent True)"

lemma demo_queue_within: "queue_within demo_metric_sizes 4 (cc_queue (demo_agent p))"
proof -
  have "stack_events demo_metric_sizes demo_queue = []" by code_simp
  moreover have "cc_queue (demo_agent p) = demo_queue"
    by (simp add: demo_agent_def LogWriter_init_def controller.extend_def CollectorController_init_def network.extend_def Network_init_def)
  ultimately show ?thesis by (simp add: demo_queue_inv queue_within_def)
qed

lemma outside_quiet [simp]: "outside_acts quiet c = c"
  by (simp add: outside_acts_def quiet_def)

lemma processor_turn_pops_witness:
  "\<exists>c' i new. demo_turn_result = Inr (None, 2, c') \<and> 0 < i \<and> i \<le> (10 :: nat) \<and>
     main_events demo_metric_sizes (cc_queue c') = drop i [RecordNotification USER_ERROR ''note'' 1] @ new \<and>
     (i < 10 \<longrightarrow> main_events demo_metric_sizes (cc_queue c') = [])"
proof -
  let ?a = "demo_agent True"
  have "\<not> isl demo_turn_result" "fst (projr demo_turn_result) = None" "fst (snd (projr demo_turn_result)) = 2" by code_simp+
  then obtain c' where c': "demo_turn_result = Inr (None, 2, c')" by (metis prod.collapse sum.collapse(2))
  have "cc_state ?a = PROMETHEUS_MODE" "io ?a = []" by code_simp+
  then have polls: "controller_poll (profiler_env demo_env) ?a = Inr (False, ?a)" "network_poll (poll_handler (profiler_env demo_env)) ?a = Inr (False, ?a)"
    by (simp_all add: controller_poll_def network_poll_def MAX_POLLS_def numeral_eq_Suc)
  have q: "isActive (outside_acts demo_push ?a)"
    "main_events demo_metric_sizes (cc_queue (outside_acts demo_push ?a)) = [RecordNotification USER_ERROR ''note'' 1]" by code_simp+
  have sz: "we_sizes demo_writer_env = demo_metric_sizes" by (simp add: demo_writer_env_def)
  have t: "turn_allows (only_pushes demo_metric_sizes 4) demo_pop_turn"
    by (simp add: demo_pop_turn_def turn_allows_def quiet_def demo_outside_pushes)
  have b: "before_poll demo_pop_turn = quiet" "before_io demo_pop_turn = quiet" "before_pop demo_pop_turn = demo_push"
    by (simp_all add: demo_pop_turn_def)
  from processor_turn_pops [of demo_writer_env, unfolded sz, OF demo_queue_within t c' [unfolded demo_turn_result_def], unfolded b Let_def outside_quiet]
  obtain connected c1 polled c2 i new where r: "controller_poll (profiler_env demo_env) ?a = Inr (connected, c1)"
    "network_poll (poll_handler (profiler_env demo_env)) c1 = Inr (polled, c2)"
    "if isActive (outside_acts demo_push c2) then i \<le> 10 else i = 0 \<and> c' = outside_acts demo_push c2"
    "main_events demo_metric_sizes (cc_queue c') = drop i (main_events demo_metric_sizes (cc_queue (outside_acts demo_push c2))) @ new"
    "isActive (outside_acts demo_push c2) \<and> i < 10 \<longrightarrow> main_events demo_metric_sizes (cc_queue c') = []"
    "main_events demo_metric_sizes (cc_queue (outside_acts demo_push c2)) \<noteq> [] \<Longrightarrow> isActive (outside_acts demo_push c2) \<Longrightarrow> 0 < i"
    by blast
  have "c2 = ?a" using r(1,2) polls by simp
  with r(3-6) q have "0 < i" "i \<le> 10" "i < 10 \<longrightarrow> main_events demo_metric_sizes (cc_queue c') = []"
    "main_events demo_metric_sizes (cc_queue c') = drop i [RecordNotification USER_ERROR ''note'' 1] @ new" by simp_all
  with c' show ?thesis by blast
qed

lemma processor_keeps_queue_witness:
  "\<exists>c'. demo_run 2 = Inr ([None, Some 2], False, c') \<and> queue_within demo_metric_sizes 4 (cc_queue c') \<and>
     main_events demo_metric_sizes (cc_queue c') = [RecordNotification USER_ERROR ''note'' 1]"
proof -
  obtain c' where c': "demo_run 2 = Inr ([None, Some 2], False, c')" using demo_run_facts(1) by blast
  have sz: "we_sizes demo_writer_env = demo_metric_sizes" by (simp add: demo_writer_env_def)
  have q: "queue_within (we_sizes demo_writer_env) 4 (cc_queue (demo_agent False))" by (simp add: sz demo_queue_within)
  have t: "list_all (turn_allows (only_pushes (we_sizes demo_writer_env) 4)) (take 2 demo_turns)"
    by (simp add: sz demo_turns_def turn_allows_def quiet_def demo_outside_pushes)
  have "queue_within demo_metric_sizes 4 (cc_queue c')"
    using processor_keeps_queue [OF q t, of demo_env 5, unfolded sz, folded demo_run_def] by (simp add: c')
  moreover have "main_events demo_metric_sizes (cc_queue (snd (snd (projr (demo_run 2))))) = [RecordNotification USER_ERROR ''note'' 1]"
    by code_simp
  ultimately show ?thesis by (simp add: c')
qed

lemma terminated_agent_stops_witness:
  "\<exists>c'. onEnd (profiler_env demo_env) (demo_agent False) = Inr c' \<and> \<not> isProcessProfiling (signalHandler c') \<and>
     processor_loop demo_metric_sizes demo_env (writer_queue_listener demo_writer_env demo_env) [demo_turns ! 2] 2 (demo_agent False) = Inr ([], True, demo_agent False)"
proof -
  have "\<not> processorRunning (demo_turns ! 2)" "ce_setitimer demo_env \<lparr>tval_sec = 0, tval_usec = 0\<rparr>"
    by (simp_all add: demo_turns_def demo_env_def)
  with terminated_agent_stops [OF demo_run_start(1), of "demo_turns ! 2" demo_metric_sizes "writer_queue_listener demo_writer_env demo_env" "[]" 2] show ?thesis by blast
qed

end
