(* ===== verification/Symbolisation.thy ===== *)
theory Symbolisation
  imports Symbol_Table
begin

text \<open>
  What the locations of an address should be according to the debug information alone: the lookups of theory
  Symbol_Table, without caches, ids or announcements.
\<close>

section \<open>Symbolising an address\<close>

definition symbol_text :: "string \<Rightarrow> string" where
  "symbol_text n = (if take DUNE_PREFIX_LEN n = take DUNE_PREFIX_LEN DUNE_PREFIX
     then the (substitute_option (drop DUNE_PREFIX_LEN n) ''__'' ''.'') else n)"

fun last_symbol :: "sym_event list \<Rightarrow> string \<Rightarrow> string" where
  "last_symbol [] n = n"
| "last_symbol (SymInfo (Some m) # es) n = last_symbol es (symbol_text m)"
| "last_symbol (_ # es) n = last_symbol es n"

text \<open>The name in the debug information, else the symbol's, else what \<open>dladdr\<close> says.\<close>

fun first_known :: "string list \<Rightarrow> string" where
  "first_known [] = ''Unknown''"
| "first_known (n # ns) = (if n = [] then first_known ns else n)"

definition function_text :: "debug_info \<Rightarrow> string \<Rightarrow> u64 \<Rightarrow> string option \<Rightarrow> string" where
  "function_text di name pc btFunctionName = first_known
     [case btFunctionName of None \<Rightarrow> [] | Some n \<Rightarrow> n, name, case dladdr di pc of None \<Rightarrow> [] | Some dl \<Rightarrow> dl_function dl []]"

fun source_lines :: "debug_info \<Rightarrow> string \<Rightarrow> pc_event list \<Rightarrow> (string \<times> int) list" where
  "source_lines di name [] = []"
| "source_lines di name (PcInfo pc f l n # es) = (function_text di name pc n, l) # source_lines di name es"
| "source_lines di name (PcError # es) = source_lines di name es"

definition symbolise :: "debug_info \<Rightarrow> u64 \<Rightarrow> bool \<Rightarrow> (string \<times> int) list" where
  "symbolise di pc foreign = source_lines di (if foreign then [] else last_symbol (syminfo di pc) []) (pcinfo di pc)"

section \<open>The callbacks record it\<close>

definition shown :: "Location \<Rightarrow> string \<times> int" where
  "shown l = (functionName l, lineNumber l)"

text \<open>From \<open>s\<close> to \<open>s'\<close> the locations \<open>ls\<close> are recorded and the cache and the symbol's name stay.\<close>

definition locates :: "(string \<times> int) list \<Rightarrow> symbols \<Rightarrow> symbols \<Rightarrow> bool" where
  "locates ls s s' \<longleftrightarrow> map shown (currentLocations s') = map shown (currentLocations s) @ ls \<and>
     knownAddrToLocations s' = knownAddrToLocations s \<and> currentSymbolName s' = currentSymbolName s"

lemma recordFile_locates: "locates [] s (snd (recordFile f s))"
  by (simp add: locates_def recordFile_def Let_def split: option.split)

lemma recordLocation_locates: "locates [(if func = [] then ''Unknown'' else func, line)] s (recordLocation func i fn line s)"
  by (simp add: locates_def recordLocation_def recordFunction_def shown_def Let_def split: option.split)

lemma locates_trans: "locates ls s t \<Longrightarrow> locates ls' t u \<Longrightarrow> locates (ls @ ls') s u"
  by (simp add: locates_def)

lemma dl_function_known: "n \<noteq> [] \<Longrightarrow> dl_function dl n = n"
  by (simp add: dl_function_def)

lemma handlePcInfo_locates:
  "locates [(function_text di (currentSymbolName s) pc n, line)] s (handlePcInfo di pc f line n s)"
proof -
  have located: "locates [(if func = [] then ''Unknown'' else func, line)] s (recordLocation func i fn line t)"
    if "locates [] s t" for func i fn t
    using locates_trans [OF that recordLocation_locates] by simp
  have filed: "locates [(if func = [] then ''Unknown'' else func, line)] s (case recordFile g t of (i, u) \<Rightarrow> recordLocation func i g line u)"
    if "locates [] s t" for g t func
    using located [of "snd (recordFile g t)"] locates_trans [OF that recordFile_locates] by (simp add: case_prod_beta)
  have refl: "locates [] s s" by (simp add: locates_def)
  define func where "func = (if (case n of None \<Rightarrow> [] | Some n \<Rightarrow> n) = [] \<and> currentSymbolName s \<noteq> []
    then currentSymbolName s else (case n of None \<Rightarrow> [] | Some n \<Rightarrow> n))"
  let ?dl = "case dladdr di pc of None \<Rightarrow> func | Some dl \<Rightarrow> dl_function dl func"
  have named: "function_text di (currentSymbolName s) pc n = (if ?dl = [] then ''Unknown'' else ?dl)"
    "func \<noteq> [] \<Longrightarrow> function_text di (currentSymbolName s) pc n = func"
    by (auto simp: func_def function_text_def dl_function_known split: option.split)
  show ?thesis
  proof (cases f)
    case None
    show ?thesis
      unfolding handlePcInfo_def None Let_def option.case prod.case func_def [symmetric] named(1)
      by (cases "dladdr di pc") (use located [OF refl] filed [OF refl] in \<open>simp_all split: option.split split del: if_split\<close>)
  next
    case (Some g)
    obtain i t where t: "recordFile g s = (i, t)" by (cases "recordFile g s")
    have r: "locates [] s t" using recordFile_locates [of s g] by (simp add: t)
    then have c: "currentSymbolName t = currentSymbolName s" by (simp add: locates_def)
    show ?thesis
    proof (cases "i = 0")
      case True
      then show ?thesis
        unfolding handlePcInfo_def Some Let_def option.case prod.case t c func_def [symmetric] named(1)
        by (cases "dladdr di pc")
          (use located [OF r] filed [OF r] in \<open>simp_all split: option.split split del: if_split\<close>)
    next
      case i: False
      show ?thesis
      proof (cases "func = []")
        case True
        show ?thesis
          unfolding handlePcInfo_def Some Let_def option.case prod.case t c func_def [symmetric] named(1) True
          using i located [OF r, of "[]"] located [OF r, of "dl_function dl []" for dl]
          by (cases "dladdr di pc") (simp_all split: option.split split del: if_split)
      next
        case False
        then show ?thesis
          unfolding handlePcInfo_def Some Let_def option.case prod.case t c func_def [symmetric]
          using i located [OF r, of func] named(2) by simp
      qed
    qed
  qed
qed

lemma run_pcinfo_locates:
  "run_pcinfo di es s = Inr s' \<Longrightarrow> locates (source_lines di (currentSymbolName s) es) s s'"
proof (induction di es s rule: run_pcinfo.induct)
  case (2 di pc f l n es s)
  note h = handlePcInfo_locates [of di s pc n l f]
  with 2 have "locates (source_lines di (currentSymbolName s) es) (handlePcInfo di pc f l n s) s'" by (simp add: locates_def)
  from locates_trans [OF h this] show ?case by simp
qed (auto simp: locates_def)

lemma run_syminfo_locates:
  "run_syminfo es s = Inr s' \<Longrightarrow> currentSymbolName s' = last_symbol es (currentSymbolName s) \<and>
     currentLocations s' = currentLocations s \<and> knownAddrToLocations s' = knownAddrToLocations s"
  by (induction es s rule: run_syminfo.induct)
    (auto simp: handleSyminfo_def symbol_text_def split: option.splits if_splits)

section \<open>The cache\<close>

text \<open>The cache is keyed by the address alone, although the lookup depends on whether the frame was a foreign one.\<close>

definition cached_right :: "debug_info \<Rightarrow> symbols \<Rightarrow> bool" where
  "cached_right di s \<longleftrightarrow> (\<forall>pc ls. knownAddrToLocations s pc = Some ls \<longrightarrow> (\<exists>foreign. map shown ls = symbolise di pc foreign))"

lemma cached_right_clear: "cached_right di (clear_symbols s)"
  by (simp add: cached_right_def clear_symbols_def)

lemma lookup_new:
  assumes ok: "lookup_locations di pc foreign s = Inr (ls, s')" and none: "knownAddrToLocations s pc = None"
  shows "map shown ls = symbolise di pc foreign" "knownAddrToLocations s' = (knownAddrToLocations s)(pc \<mapsto> ls)"
proof -
  let ?s = "s\<lparr>currentLocations := [], currentSymbolName := []\<rparr>"
  obtain s1 where s1: "(if \<not> foreign then run_syminfo (syminfo di pc) ?s else Inr ?s) = Inr s1"
    using ok none by (auto simp: lookup_locations_def Let_def split: sum.splits)
  obtain s2 where s2: "run_pcinfo di (pcinfo di pc) s1 = Inr s2"
    using ok none s1 by (auto simp: lookup_locations_def Let_def split: sum.splits)
  have out: "ls = currentLocations s2" "s' = s2\<lparr>knownAddrToLocations := (knownAddrToLocations s2)(pc \<mapsto> ls)\<rparr>"
    using ok none s1 s2 by (auto simp: lookup_locations_def Let_def)
  have "currentSymbolName s1 = (if foreign then [] else last_symbol (syminfo di pc) [])" "currentLocations s1 = []"
      "knownAddrToLocations s1 = knownAddrToLocations s"
    using s1 run_syminfo_locates [of "syminfo di pc" ?s s1] by (auto split: if_splits)
  with run_pcinfo_locates [OF s2] out
  show "map shown ls = symbolise di pc foreign" "knownAddrToLocations s' = (knownAddrToLocations s)(pc \<mapsto> ls)"
    by (simp_all add: locates_def symbolise_def)
qed

lemma lookup_old: "lookup_locations di pc foreign s = Inr (ls, s') \<Longrightarrow> knownAddrToLocations s pc = Some ls' \<Longrightarrow> ls' = ls \<and> s' = s"
  by (simp add: lookup_locations_def)

lemma lookup_cached: "lookup_locations di pc foreign s = Inr (ls, s') \<Longrightarrow> cached_right di s \<Longrightarrow> cached_right di s'"
  using lookup_new [of di pc foreign s ls s'] lookup_old [of di pc foreign s ls s']
  by (cases "knownAddrToLocations s pc") (auto simp: cached_right_def)

lemma lookup_keeps:
  "lookup_locations di pc foreign s = Inr (ls, s') \<Longrightarrow> p \<noteq> pc \<or> knownAddrToLocations s p \<noteq> None \<Longrightarrow>
     knownAddrToLocations s' p = knownAddrToLocations s p"
  using lookup_new(2) [of di pc foreign s ls s'] lookup_old [of di pc foreign s ls s']
  by (cases "knownAddrToLocations s pc") auto

section \<open>Sequences of lookups\<close>

lemma run_lookups_keeps: "run_lookups di ps s = Inr (lss, s') \<Longrightarrow> knownAddrToLocations s p = Some ls \<Longrightarrow> knownAddrToLocations s' p = Some ls"
proof (induction di ps s arbitrary: lss rule: run_lookups.induct)
  case (2 di pc foreign ps s)
  obtain ls1 t lss1 where t: "lookup_locations di pc foreign s = Inr (ls1, t)" "run_lookups di ps t = Inr (lss1, s')"
    using "2.prems"(1) by (auto split: sum.splits)
  from "2.IH" [OF t(1) refl t(2)] lookup_keeps [OF t(1), of p] "2.prems"(2) show ?case by simp
qed simp

lemma run_lookups_cached:
  "run_lookups di ps s = Inr (lss, s') \<Longrightarrow> cached_right di s \<Longrightarrow> cached_right di s'"
proof (induction di ps s arbitrary: lss rule: run_lookups.induct)
  case (2 di pc foreign ps s)
  obtain ls t lss1 where t: "lookup_locations di pc foreign s = Inr (ls, t)" "run_lookups di ps t = Inr (lss1, s')"
    using "2.prems"(1) by (auto split: sum.splits)
  from "2.IH" [OF t(1) refl t(2) lookup_cached [OF t(1) "2.prems"(2)]] show ?case .
qed simp

text \<open>An address that is not cached yet is symbolised as the first frame that has it says.\<close>

lemma run_lookups_new:
  "run_lookups di ps s = Inr (lss, s') \<Longrightarrow> knownAddrToLocations s p = None \<Longrightarrow> map_of ps p = Some b \<Longrightarrow>
     \<exists>ls. knownAddrToLocations s' p = Some ls \<and> map shown ls = symbolise di p b"
proof (induction di ps s arbitrary: lss rule: run_lookups.induct)
  case (2 di pc foreign ps s)
  obtain ls t lss1 where t: "lookup_locations di pc foreign s = Inr (ls, t)" "run_lookups di ps t = Inr (lss1, s')"
    using "2.prems"(1) by (auto split: sum.splits)
  show ?case
  proof (cases "p = pc")
    case True
    with lookup_new [OF t(1)] run_lookups_keeps [OF t(2), of p ls] "2.prems"(2,3) show ?thesis by simp
  next
    case False
    with "2.IH" [OF t(1) refl t(2)] lookup_keeps [OF t(1), of p] "2.prems"(2,3) show ?thesis by simp
  qed
qed simp

text \<open>All of them at once: \<open>how\<close> says of each address whether it was taken for a foreign one.\<close>

lemma run_lookups_symbolise:
  assumes l: "run_lookups di ps s = Inr (lss, s')" and c: "cached_right di s"
    and known: "map Some lss = map (knownAddrToLocations s' \<circ> fst) ps"
  obtains how where "map (map shown) lss = map (\<lambda>(pc, _). symbolise di pc (how pc)) ps"
    and "\<And>pc b. knownAddrToLocations s pc = None \<Longrightarrow> map_of ps pc = Some b \<Longrightarrow> how pc = b"
proof -
  have "\<exists>f. (\<forall>ls. knownAddrToLocations s' pc = Some ls \<longrightarrow> map shown ls = symbolise di pc f) \<and>
      (\<forall>b. knownAddrToLocations s pc = None \<longrightarrow> map_of ps pc = Some b \<longrightarrow> f = b)" for pc
  proof (cases "knownAddrToLocations s pc = None \<and> map_of ps pc \<noteq> None")
    case True
    then show ?thesis using run_lookups_new [OF l, of pc] by force
  next
    case False
    obtain f where "\<forall>ls. knownAddrToLocations s' pc = Some ls \<longrightarrow> map shown ls = symbolise di pc f"
    proof (cases "knownAddrToLocations s' pc")
      case (Some ls)
      then obtain f where "map shown ls = symbolise di pc f" using run_lookups_cached [OF l c] unfolding cached_right_def by blast
      with Some that show thesis by simp
    qed (use that in simp)
    moreover have "\<forall>b. knownAddrToLocations s pc = None \<longrightarrow> map_of ps pc = Some b \<longrightarrow> f = b" using False by auto
    ultimately show ?thesis by blast
  qed
  then obtain how where how: "\<And>pc ls. knownAddrToLocations s' pc = Some ls \<Longrightarrow> map shown ls = symbolise di pc (how pc)"
      "\<And>pc b. knownAddrToLocations s pc = None \<Longrightarrow> map_of ps pc = Some b \<Longrightarrow> how pc = b" by metis
  have len: "length lss = length ps" using known by (metis length_map)
  have "map shown (lss ! k) = symbolise di (fst (ps ! k)) (how (fst (ps ! k)))" if "k < length ps" for k
    using known that how(1) len by (metis comp_apply nth_map)
  then have "map (map shown) lss = map (\<lambda>(pc, _). symbolise di pc (how pc)) ps"
    using len by (auto intro!: nth_equalityI simp: case_prod_beta)
  then show thesis using how(2) by (rule that)
qed

end
