(* ===== verification/Stack_Samples.thy ===== *)
theory Stack_Samples
  imports Announcements Symbolisation
begin

text \<open>
  What the collector reads in a stack sample: with the names announced on the connection it gets back the functions and
  lines the debug information gives for the addresses of the trace.
\<close>

section \<open>The lookups of a trace\<close>

lemma announce_symbols:
  "ready c \<Longrightarrow> announce (send_message env) as c = Inr c' \<Longrightarrow> ready c' \<and> lw_symbols c' = lw_symbols c"
proof (induction as arbitrary: c)
  case (Cons a as)
  then obtain m d where "lw_recordWithSize (send_message env) m c = Inr d" "announce (send_message env) as d = Inr c'"
    by (cases a) (auto simp: bind_result_Inr onNewFile_def onNewFunction_def)
  with Cons.IH [of d] lw_send [OF Cons.prems(1)] show ?case by metis
qed simp

definition entry_of :: "Location \<Rightarrow> CompressedFrameEntry" where
  "entry_of l = \<lparr>fe_methodId = methodId l, fe_line = word_of_int (lineNumber l)\<rparr>"

text \<open>The messages sent in between do not disturb them.\<close>

lemma lookup_frames_lookups:
  assumes "ready c" "lookup_frames we (send_message env) fs isError entries c = Inr (entries', c')"
  shows "ready c' \<and> (\<exists>lss. run_lookups (we_debug_info we) (map (\<lambda>f. (frame f, isForeign f)) fs) (lw_symbols c) = Inr (lss, lw_symbols c') \<and>
    entries' = (if isError then entries else entries @ map entry_of (concat lss)))"
  using assms
proof (induction fs arbitrary: c entries)
  case (Cons f fs)
  obtain ls d where d: "lw_lookup_locations we (send_message env) (frame f) (isForeign f) c = Inr (ls, d)"
      "lookup_frames we (send_message env) fs isError (addFrames ls isError entries) d = Inr (entries', c')"
    using Cons.prems(2) by (auto simp: bind_result_Inr)
  obtain s where s: "lookup_locations (we_debug_info we) (frame f) (isForeign f) (lw_symbols c) = Inr (ls, s)"
      "announce (send_message env) (drop (length (announced (lw_symbols c))) (announced s)) (c\<lparr>lw_symbols := s\<rparr>) = Inr d"
    using d(1) by (auto simp: lw_lookup_locations_def bind_result_Inr split: sum.splits)
  have "ready d" "lw_symbols d = s" using announce_symbols [OF _ s(2)] Cons.prems(1) by (simp_all add: symbols_ready)
  with Cons.IH [OF _ d(2)] s(1) show ?case by (auto simp: addFrames_def entry_of_def)
qed simp

section \<open>The cache while the agent runs\<close>

lemma listener_cached:
  assumes "ready c" "log_writer_listener we (send_message env) ev c = Inr c'" "cached_right (we_debug_info we) (lw_symbols c)"
  shows "cached_right (we_debug_info we) (lw_symbols c')"
proof (cases "\<exists>ts trace signal state tsc. ev = RecordStackTrace ts trace signal state tsc")
  case True
  then obtain ts trace signal state where r: "lw_recordStackTrace we (send_message env) ts trace signal state c = Inr c'"
    using assms(2) by auto
  let ?c = "snd (threadName we (ct_threadId trace) c)"
  note core = threadName_core [of we "ct_threadId trace" c]
  obtain fs entries d m where d: "lookup_frames we (send_message env) fs (num_frames trace < 0) [] ?c = Inr (entries, d)"
      "lw_recordWithSize (send_message env) m d = Inr c'"
    using r by (auto simp: lw_recordStackTrace_def bind_result_Inr Let_def case_prod_beta split: if_splits)
  have c: "ready ?c" using assms(1) ready_same_core(1) [OF conjunct1 [OF core]] by simp
  from lookup_frames_lookups [OF c d(1)] have "cached_right (we_debug_info we) (lw_symbols d)"
    using run_lookups_cached assms(3) conjunct2 [OF core] by metis
  moreover have "ready d" using lookup_frames_lookups [OF c d(1)] by blast
  ultimately show ?thesis using lw_send(2) [OF _ d(2)] by simp
next
  case False
  then have "lw_symbols c' = lw_symbols c"
    using assms(1,2) lw_send(2) [OF assms(1)]
    by (cases ev) (auto simp: lw_recordAllocation_def lw_recordNotification_def stashNotification_def lw_recordMetricInformation_def
      lw_recordMetricSamples_def lw_recordConstantMetricsComplete_def Let_def split: if_splits)
  with assms(3) show ?thesis by simp
qed

lemma agent_reach_cached: "agent_reach we env c \<Longrightarrow> cached_right (we_debug_info we) (lw_symbols c)"
proof (induction rule: agent_reach.induct)
  case (initial c)
  show ?case by (simp add: agent_initial_parts(2) [OF initial] init_symbols_def symbols_init_def cached_right_def)
next
  case (step c c')
  have b: "between True c" using agent_reach_inv [OF step.hyps(1)] by (simp add: agent_inv_def)
  from step.hyps(2) show ?case
  proof cases
    case (polls w)
    show ?thesis using poll_symbols [OF polls(2) b] step.IH cached_right_clear by simp
  next
    case (handles w)
    have "conn_ok c" using b by (simp add: between_def)
    with more_symbols handledD(11) [OF polling.network_poll_keeps [OF handles]] step.IH show ?thesis by metis
  next
    case (records ev)
    then show ?thesis using listener_cached [OF _ records(3) step.IH] b by (simp add: ready_def)
  next
    case starts
    then show ?thesis using start_aside(2) [OF starts b] step.IH by simp
  next
    case forks
    then show ?thesis using fork_symbols cached_right_clear by metis
  qed (use step.IH in simp_all)
qed

section \<open>What the collector reads\<close>

text \<open>The collector looks up the method of each frame among the descriptions that came before the sample.\<close>

fun method_name :: "AgentEnvelope list \<Rightarrow> u64 \<Rightarrow> string" where
  "method_name (MethodInformation i fid n # w) m = (if i = m then n else method_name w m)"
| "method_name (_ # w) m = method_name w m"
| "method_name [] m = []"

definition read_sample :: "AgentEnvelope list \<Rightarrow> StackSample \<Rightarrow> (string \<times> i32) list" where
  "read_sample before ss = map (\<lambda>e. (method_name before (fe_methodId e), fe_line e)) (compressedFrames ss)"

lemma method_name_found:
  assumes "NewFunction i n fid \<in> set (anns w)" "\<And>n' fid'. NewFunction i n' fid' \<in> set (anns w) \<Longrightarrow> n' = n"
  shows "method_name w i = n"
  using assms
proof (induction w)
  case (Cons m w)
  show ?case
  proof (cases "\<exists>fid n'. m = MethodInformation i fid n'")
    case True
    then obtain fid' n' where m: "m = MethodInformation i fid' n'" by blast
    have "n' = n" by (rule Cons.prems(2) [of n' fid']) (simp add: m)
    then show ?thesis by (simp add: m)
  next
    case False
    then have "method_name (m # w) i = method_name w i" "NewFunction i n fid \<in> set (anns w)"
      using Cons.prems(1) by (cases m; auto)+
    moreover have "method_name w i = n"
    proof (rule Cons.IH [OF calculation(2)])
      show "n' = n" if "NewFunction i n' fid' \<in> set (anns w)" for n' fid'
        by (rule Cons.prems(2) [of n' fid']) (simp add: that)
    qed
    ultimately show ?thesis by simp
  qed
qed simp

text \<open>With everything announced, an entry reads as the location it stands for.\<close>

lemma entry_reads:
  assumes inv: "lookup_inv (anns w) 0 s" and l: "loc_ok s l"
  shows "(method_name w (fe_methodId (entry_of l)), fe_line (entry_of l)) = (fst (shown l), word_of_int (snd (shown l)))"
proof -
  have ann: "announced_inv (anns w) s" "inj_on (knownMethodToIds s) (dom (knownMethodToIds s))"
    using inv by (auto simp: lookup_inv_def sym_inv_def announced_inv_def ids_inv_def)
  have known: "knownMethodToIds s (functionName l) = Some (methodId l)" using l by (simp add: loc_ok_def)
  then obtain fid where "NewFunction (methodId l) (functionName l) fid \<in> set (anns w)"
    using ann(1) unfolding announced_inv_def by blast
  then have "method_name w (methodId l) = functionName l"
  proof (rule method_name_found)
    fix n' fid' assume "NewFunction (methodId l) n' fid' \<in> set (anns w)"
    then have "knownMethodToIds s n' = Some (methodId l)" using ann(1) unfolding announced_inv_def by blast
    with known ann(2) show "n' = functionName l" unfolding inj_on_def dom_def
      by (metis (mono_tags) mem_Collect_eq option.distinct(1))
  qed
  then show ?thesis by (simp add: entry_of_def shown_def)
qed

text \<open>How the lines of a trace are read: \<open>how\<close> says of each address whether it was taken for a foreign one.\<close>

definition walked_frames :: "CallTrace \<Rightarrow> CallFrame list" where
  "walked_frames trace = drop NUMBER_OF_SIGNAL_HANDLER_FRAMES (take
     (nat (if num_frames trace < 0 then - 1 * num_frames trace else num_frames trace)) (frames trace))"

definition trace_lines :: "debug_info \<Rightarrow> (u64 \<Rightarrow> bool) \<Rightarrow> CallTrace \<Rightarrow> (string \<times> i32) list" where
  "trace_lines di how trace =
     (if num_frames trace < 0 then []
      else concat (map (\<lambda>f. map (\<lambda>(n, line). (n, word_of_int line)) (symbolise di (frame f) (how (frame f))))
        (walked_frames trace)))"

text \<open>C3: A stack sample put on the wire can be read back: the last message on the connection is the sample, with the thread
  and the time of the trace, and with the descriptions sent before it on this connection the collector finds for each
  frame below the signal handler's the function names and lines the debug information gives for its address, in order; a
  broken trace has no frames but its error code. Whether an address counts as foreign is what the first frame that has it
  says, unless it was looked up before: the cache does not tell the two apart.\<close>

theorem sample_reads_back:
  assumes "agent_reach we env c" "io_plain (io c)" "ids_left we (RecordStackTrace ts trace signal state tsc) c"
    and "log_writer_listener we (send_message (profiler_env env)) (RecordStackTrace ts trace signal state tsc) c = Inr c'"
    and "isConnected c'"
  shows "\<exists>before ss how. wire c' = before @ [StackSampleMessage ss] \<and>
    thread_id ss = ucast (ct_threadId trace) \<and> ss_time_epoch_millis ss = setSampleTime ts \<and>
    error_code ss = min 0 (num_frames trace) \<and>
    read_sample before ss = trace_lines (we_debug_info we) how trace \<and>
    (\<forall>pc b. knownAddrToLocations (lw_symbols c) pc = None \<longrightarrow>
       map_of (map (\<lambda>f. (frame f, isForeign f)) (walked_frames trace)) pc = Some b \<longrightarrow> how pc = b)"
proof -
  let ?di = "we_debug_info we" and ?env = "profiler_env env"
  let ?c = "snd (threadName we (ct_threadId trace) c)"
  let ?err = "num_frames trace < 0"
  let ?fs = "walked_frames trace"
  let ?ps = "map (\<lambda>f. (frame f, isForeign f)) ?fs"
  obtain new where n: "lookup_inv new 0 (lw_symbols c)" "on_wire new c" and b: "between True c"
    using agent_reach_inv [OF assms(1)] by (auto simp: agent_inv_def)
  note core = threadName_core [of we "ct_threadId trace" c]
  have c: "ready ?c" "on_wire new ?c" "lw_symbols ?c = lw_symbols c"
    using b assms(2) n(2) ready_same_core [OF conjunct1 [OF core]] core by (simp_all add: ready_def on_wire_def)
  have "callbacks ?di ?ps \<le> callbacks ?di (map (\<lambda>f. (frame f, isForeign f)) (frames trace))"
    unfolding walked_frames_def drop_map [symmetric] take_map [symmetric] by (rule callbacks_part)
  then have inv: "lookup_inv new (0 + 2 * callbacks ?di ?ps) (lw_symbols c)"
    using lookup_inv_budget [OF n(1)] assms(3) by (simp add: ids_left_def)
  obtain entries d ss where d: "lookup_frames we (send_message ?env) ?fs ?err [] ?c = Inr (entries, d)"
      "lw_recordWithSize (send_message ?env) (StackSampleMessage ss) d = Inr c'"
      "compressedFrames ss = entries" "thread_id ss = ucast (ct_threadId trace)" "ss_time_epoch_millis ss = setSampleTime ts"
      "error_code ss = min 0 (num_frames trace)"
    using assms(4) by (auto simp: lw_recordStackTrace_def bind_result_Inr Let_def case_prod_beta walked_frames_def split: if_splits)
  obtain new' where n': "ready d" "on_wire new' d" "lookup_inv new' 0 (lw_symbols d)"
    using lookup_frames_result [OF c(1,2) _ _ d(1)] inv c(3) by auto
  have w: "isConnected d" "wire c' = wire d @ [StackSampleMessage ss]" using lw_send(3) [OF n'(1) d(2)] assms(5) by auto
  then have new': "new' = anns (wire d)" using n'(2) by (simp add: on_wire_def)
  obtain lss where l: "run_lookups ?di ?ps (lw_symbols c) = Inr (lss, lw_symbols d)"
      "entries = (if ?err then [] else map entry_of (concat lss))"
    using lookup_frames_lookups [OF c(1) d(1)] c(3) by auto
  note later = run_lookups_later [OF inv l(1)]
  have known: "map Some lss = map (knownAddrToLocations (lw_symbols d) \<circ> fst) ?ps" using later by blast
  obtain how where how: "map (map shown) lss = map (\<lambda>(pc, _). symbolise ?di pc (how pc)) ?ps"
      "\<And>pc b. knownAddrToLocations (lw_symbols c) pc = None \<Longrightarrow> map_of ?ps pc = Some b \<Longrightarrow> how pc = b"
    by (rule run_lookups_symbolise [OF l(1) agent_reach_cached [OF assms(1)] known], erule that, blast)
  have "read_sample (wire d) ss = trace_lines ?di how trace"
  proof (cases ?err)
    case False
    have "loc_ok (lw_symbols d) l" if "l \<in> set (concat lss)" for l using later that by (auto simp: list_all_iff)
    then have "map (\<lambda>e. (method_name (wire d) (fe_methodId e), fe_line e)) (map entry_of (concat lss)) =
        map (\<lambda>l. (\<lambda>(n, line). (n, word_of_int line)) (shown l)) (concat lss)"
      using entry_reads [OF n'(3) [unfolded new']] by (simp add: case_prod_beta)
    also have "\<dots> = map (\<lambda>(n, line). (n, word_of_int line)) (concat (map (map shown) lss))"
      by (simp add: map_concat comp_def)
    finally have "map (\<lambda>e. (method_name (wire d) (fe_methodId e), fe_line e)) (map entry_of (concat lss)) = \<dots>" .
    then show ?thesis using False l(2) d(3) how(1) by (simp add: read_sample_def trace_lines_def map_concat comp_def case_prod_beta)
  qed (use l(2) d(3) in \<open>simp add: read_sample_def trace_lines_def\<close>)
  with w(2) d(4-6) how(2) show ?thesis by (intro exI [of _ "wire d"] exI [of _ ss] exI [of _ how]) blast
qed

section \<open>When the writes succeed\<close>

text \<open>The state after messages that went out one after the other.\<close>

definition sent :: "AgentEnvelope list \<Rightarrow> io_event list \<Rightarrow> 'a log_writer_scheme \<Rightarrow> 'a log_writer_scheme" where
  "sent ms es c = c\<lparr>io := es, wire := wire c @ ms, lw_output := map_option (\<lambda>written. written @ ms) (lw_output c)\<rparr>"

lemma sent_simps [simp]:
  "isConnected (sent ms es c) = isConnected c" "isSending (sent ms es c) = isSending c" "io (sent ms es c) = es"
  "wire (sent ms es c) = wire c @ ms" "lw_symbols (sent ms es c) = lw_symbols c"
  "sent ms' es' (sent ms es c) = sent (ms @ ms') es' c"
  "sent ms es (c\<lparr>lw_symbols := s\<rparr>) = (sent ms es c)\<lparr>lw_symbols := s\<rparr>"
  by (simp_all add: sent_def option.map_comp comp_def)

lemma sent_none: "sent [] (io c) c = c"
  by (cases "lw_output c") (simp_all add: sent_def)

lemma send_done:
  assumes "isConnected c" "\<not> isSending c" "io c = Done NO_ERROR # es"
  shows "lw_recordWithSize (send_message env) m c = Inr (sent [m] es c)"
proof -
  have "x\<lparr>isSending := False\<rparr> = x" if "\<not> isSending x" for x :: "'a log_writer_scheme" using that by (cases x) simp
  then show ?thesis using assms
    by (simp add: lw_recordWithSize_def recordWithSize_def send_message_def sendWithSize_def await_def sent_def Let_def is_disconnect_def)
qed

fun message_of :: "announcement \<Rightarrow> AgentEnvelope" where
  "message_of (NewFile i f) = ModuleInformation i f []"
| "message_of (NewFunction i n fid) = MethodInformation i fid n"

lemma announce_done:
  "isConnected c \<Longrightarrow> \<not> isSending c \<Longrightarrow> io c = replicate (length as) (Done NO_ERROR) @ es \<Longrightarrow>
     announce (send_message env) as c = Inr (sent (map message_of as) es c)"
proof (induction as arbitrary: c)
  case Nil
  then show ?case using sent_none [of c] by simp
next
  case (Cons a as)
  let ?d = "sent [message_of a] (replicate (length as) (Done NO_ERROR) @ es) c"
  have "lw_recordWithSize (send_message env) (message_of a) c = Inr ?d"
    by (rule send_done) (use Cons.prems in simp_all)
  then have "announce (send_message env) (a # as) c = announce (send_message env) as ?d"
    by (cases a) (simp_all add: onNewFile_def onNewFunction_def)
  also have "\<dots> = Inr (sent (map message_of as) es ?d)" by (rule Cons.IH) (use Cons.prems in simp_all)
  finally show ?case by simp
qed

lemma lookup_frames_done:
  assumes "isConnected c" "\<not> isSending c" "lookup_inv new (2 * callbacks (we_debug_info we) (map (\<lambda>f. (frame f, isForeign f)) fs)) (lw_symbols c)"
    and "run_lookups (we_debug_info we) (map (\<lambda>f. (frame f, isForeign f)) fs) (lw_symbols c) = Inr (lss, s')"
    and "announced s' = announced (lw_symbols c) @ as" "io c = replicate (length as) (Done NO_ERROR) @ es"
  shows "lookup_frames we (send_message env) fs isError entries c =
    Inr (if isError then entries else entries @ map entry_of (concat lss), (sent (map message_of as) es c)\<lparr>lw_symbols := s'\<rparr>)"
  using assms
proof (induction fs arbitrary: c new lss as entries)
  case Nil
  then show ?case using sent_none [of c] by simp
next
  case (Cons f fs)
  let ?di = "we_debug_info we" and ?ps = "map (\<lambda>f. (frame f, isForeign f)) fs"
  obtain ls t lss1 where t: "lookup_locations ?di (frame f) (isForeign f) (lw_symbols c) = Inr (ls, t)"
      "run_lookups ?di ?ps t = Inr (lss1, s')" "lss = ls # lss1"
    using Cons.prems(4) by (auto split: sum.splits)
  have inv: "lookup_inv new (2 * callbacks ?di ?ps + 2 * length (pcinfo ?di (frame f))) (lw_symbols c)"
    using Cons.prems(3) by (simp add: callbacks_def algebra_simps)
  obtain ext where e: "announced t = announced (lw_symbols c) @ ext" "lookup_inv (new @ ext) (0 + 2 * callbacks ?di ?ps) t"
    using lookup_locations_later [OF inv t(1)] by (auto simp: later_def)
  obtain ext2 where e2: "announced s' = announced t @ ext2" using run_lookups_later [OF e(2) t(2)] by (auto simp: later_def)
  have as: "as = ext @ ext2" using Cons.prems(5) e(1) e2 by simp
  let ?c = "c\<lparr>lw_symbols := t\<rparr>" and ?d = "sent (map message_of ext) (replicate (length ext2) (Done NO_ERROR) @ es) (c\<lparr>lw_symbols := t\<rparr>)"
  have "announce (send_message env) ext ?c = Inr ?d"
    by (rule announce_done) (use Cons.prems(1,2,6) as in \<open>simp_all add: replicate_add\<close>)
  then have "lw_lookup_locations we (send_message env) (frame f) (isForeign f) c = Inr (ls, ?d)"
    by (simp add: lw_lookup_locations_def t(1) e(1))
  moreover have "lookup_frames we (send_message env) fs isError (addFrames ls isError entries) ?d =
      Inr (if isError then addFrames ls isError entries else addFrames ls isError entries @ map entry_of (concat lss1),
        (sent (map message_of ext2) es ?d)\<lparr>lw_symbols := s'\<rparr>)"
    by (rule Cons.IH [where new = "new @ ext"]) (use Cons.prems(1,2) e e2 t(2) in simp_all)
  ultimately show ?case by (simp add: t(3) as addFrames_def entry_of_def)
qed

text \<open>C8: On an open connection, with writes that succeed and debug information without errors for the addresses of the trace,
  a popped trace is sent: the files and functions met for the first time are described, in the order in which looking up
  all the addresses one after the other meets them, then the sample follows with one entry for each location found, and
  that is all that is written. Nothing is left waiting and the connection stays open. The exception is a trace that counts
  more frames than its buffer holds: its lookups read on behind the buffer.\<close>

theorem sample_is_sent:
  assumes "agent_reach we env c" "isConnected c" "ids_left we (RecordStackTrace ts trace signal state tsc) c"
    and "run_lookups (we_debug_info we) (map (\<lambda>f. (frame f, isForeign f)) (walked_frames trace)) (lw_symbols c) = Inr (lss, s')"
    and "new = drop (length (announced (lw_symbols c))) (announced s')"
    and "io c = replicate (Suc (length new)) (Done NO_ERROR)"
  shows "if frames_within trace then
    \<exists>c' ss. log_writer_listener we (send_message (profiler_env env)) (RecordStackTrace ts trace signal state tsc) c = Inr c' \<and>
    isConnected c' \<and> io c' = [] \<and> lw_symbols c' = s' \<and> wire c' = wire c @ map message_of new @ [StackSampleMessage ss] \<and>
    (ss_type ss, sample_rate_millis ss) = setSampleType signal c \<and> has_max_frames ss = (MAX_FRAMES \<le> \<bar>num_frames trace\<bar>) \<and>
    compressedFrames ss = (if num_frames trace < 0 then [] else map entry_of (concat lss))
    else log_writer_listener we (send_message (profiler_env env)) (RecordStackTrace ts trace signal state tsc) c = Inl FramesOverread"
proof -
  let ?di = "we_debug_info we" and ?send = "send_message (profiler_env env)" and ?err = "num_frames trace < 0"
  let ?c = "snd (threadName we (ct_threadId trace) c)" and ?ps = "map (\<lambda>f. (frame f, isForeign f)) (walked_frames trace)"
  obtain old where n: "lookup_inv old 0 (lw_symbols c)" and b: "between True c"
    using agent_reach_inv [OF assms(1)] by (auto simp: agent_inv_def)
  note core = threadName_core [of we "ct_threadId trace" c]
  have c: "isConnected ?c" "\<not> isSending ?c" "lw_symbols ?c = lw_symbols c" "io ?c = io c" "wire ?c = wire c"
    using b assms(2) core ready_same_core [OF conjunct1 [OF core]] same_core_between [OF conjunct1 [OF core], of True]
    by (simp_all add: between_def)
  have "callbacks ?di ?ps \<le> callbacks ?di (map (\<lambda>f. (frame f, isForeign f)) (frames trace))"
    unfolding walked_frames_def drop_map [symmetric] take_map [symmetric] by (rule callbacks_part)
  then have inv: "lookup_inv old (2 * callbacks ?di ?ps) (lw_symbols ?c)"
    using lookup_inv_budget [OF n] assms(3) c(3) by (simp add: ids_left_def)
  then have "announced s' = announced (lw_symbols ?c) @ new"
    using run_lookups_later [of old 0 ?di ?ps "lw_symbols ?c" lss s'] assms(4,5) c(3) by (auto simp: later_def)
  moreover have "io ?c = replicate (length new) (Done NO_ERROR) @ [Done NO_ERROR]"
    using assms(6) c(4) by (simp add: replicate_append_same)
  ultimately have d: "lookup_frames we ?send (walked_frames trace) ?err [] ?c =
      Inr (if ?err then [] else map entry_of (concat lss), (sent (map message_of new) [Done NO_ERROR] ?c)\<lparr>lw_symbols := s'\<rparr>)"
    (is "_ = Inr (?entries, ?d)")
    using lookup_frames_done [OF c(1,2) inv] assms(4) c(3) by simp
  have "lw_recordWithSize ?send m ?d = Inr (sent [m] [] ?d)" for m
    by (rule send_done) (use c(1,2) in simp_all)
  moreover have "\<not> frames_within trace \<Longrightarrow> lw_recordStackTrace we ?send ts trace signal state c = Inl FramesOverread"
    unfolding lw_recordStackTrace_def Let_def case_prod_beta walked_frames_def [symmetric] d by simp
  moreover obtain ss where "compressedFrames ss = ?entries" "(ss_type ss, sample_rate_millis ss) = setSampleType signal c"
    "has_max_frames ss = (MAX_FRAMES \<le> \<bar>num_frames trace\<bar>)"
    "frames_within trace \<Longrightarrow> lw_recordStackTrace we ?send ts trace signal state c = map_sum SendFault id (lw_recordWithSize ?send (StackSampleMessage ss) ?d)"
  proof
    let ?ss = "\<lparr>ss_type = fst (setSampleType signal c), sample_rate_millis = snd (setSampleType signal c),
      ss_time_epoch_millis = setSampleTime ts, thread_id = ucast (ct_threadId trace),
      thread_name = fst (threadName we (ct_threadId trace) c),
      has_max_frames = ((if ?err then - 1 * num_frames trace else num_frames trace) \<ge> MAX_FRAMES),
      error_code = (if ?err then num_frames trace else 0), compressedFrames = ?entries, thread_state = state\<rparr>"
    show "lw_recordStackTrace we ?send ts trace signal state c = map_sum SendFault id (lw_recordWithSize ?send (StackSampleMessage ?ss) ?d)" if "frames_within trace"
      unfolding lw_recordStackTrace_def Let_def case_prod_beta walked_frames_def [symmetric] d using that by simp
    show "has_max_frames ?ss = (MAX_FRAMES \<le> \<bar>num_frames trace\<bar>)" by (simp add: abs_if)
  qed simp_all
  ultimately show ?thesis using c
    by (auto intro!: exI [of _ "sent [StackSampleMessage ss] [] ?d"] exI [of _ ss])
qed

section \<open>An example\<close>

lemma sample_is_sent_witness:
  "\<exists>c' ss. log_writer_listener demo_writer_env (send_message (profiler_env demo_env)) demo_trace_event
       (demo_open\<lparr>io := io demo_open @ replicate 3 (Done NO_ERROR)\<rparr>) = Inr c' \<and> isConnected c' \<and>
     wire c' = wire demo_open @ [ModuleInformation 1 ''libc.so'' [], MethodInformation 2 1 ''In libc.so'', StackSampleMessage ss] \<and>
     compressedFrames ss = [\<lparr>fe_methodId = 2, fe_line = 0\<rparr>]"
proof -
  let ?c = "demo_open\<lparr>io := io demo_open @ replicate 3 (Done NO_ERROR)\<rparr>"
  let ?trace = "\<lparr>num_frames = 4, ct_threadId = 9, frames = replicate 3 zeroFrame @ [\<lparr>isForeign = True, frame = 32\<rparr>]\<rparr>"
  let ?r = "run_lookups demo_info [(32, True)] (lw_symbols demo_open)"
  have "\<not> isl ?r" "fst (projr ?r) = [[\<lparr>methodId = 2, lineNumber = 0, loc_fileName = ''libc.so'', functionName = ''In libc.so''\<rparr>]]"
    "announced (snd (projr ?r)) = [NewFile 1 ''libc.so'', NewFunction 2 ''In libc.so'' 1]" "announced (lw_symbols demo_open) = []"
    by code_simp+
  then obtain s' where r: "?r = Inr ([[\<lparr>methodId = 2, lineNumber = 0, loc_fileName = ''libc.so'', functionName = ''In libc.so''\<rparr>]], s')"
      "drop (length (announced (lw_symbols ?c))) (announced s') = [NewFile 1 ''libc.so'', NewFunction 2 ''In libc.so'' 1]"
    by (cases ?r) auto
  have open_c: "isConnected ?c" using demo_open_facts by simp
  have l: "run_lookups (we_debug_info demo_writer_env) (map (\<lambda>f. (frame f, isForeign f)) (walked_frames ?trace)) (lw_symbols ?c) =
      Inr ([[\<lparr>methodId = 2, lineNumber = 0, loc_fileName = ''libc.so'', functionName = ''In libc.so''\<rparr>]], s')"
    using r(1) by (simp add: walked_frames_def NUMBER_OF_SIGNAL_HANDLER_FRAMES_def demo_writer_env_def del: run_lookups.simps)
  have w: "io ?c = replicate (Suc (length [NewFile 1 ''libc.so'', NewFunction 2 ''In libc.so'' 1])) (Done NO_ERROR)"
    by (simp add: demo_open_facts(7) numeral_3_eq_3)
  have "frames_within ?trace" by (simp add: frames_within_def)
  with sample_is_sent [OF demo_trace_start(1) open_c demo_trace_start(3) [unfolded demo_trace_event_def] l r(2) [symmetric] w]
  show ?thesis unfolding demo_trace_event_def by (auto simp: entry_of_def)
qed

lemma sample_reads_back_witness:
  "\<exists>before ss. wire (projr demo_record) = before @ [StackSampleMessage ss] \<and> read_sample before ss = [(''In libc.so'', 0)]"
proof -
  note r = sample_reads_back [OF demo_trace_start(1,2) demo_trace_start(3) [unfolded demo_trace_event_def]
      demo_record_facts(1,2) [unfolded demo_record_def demo_trace_event_def], folded demo_trace_event_def, folded demo_record_def]
  have new: "knownAddrToLocations (lw_symbols (demo_open\<lparr>io := io demo_open @ replicate 3 (Done NO_ERROR)\<rparr>)) 32 = None"
    by code_simp
  have fs: "walked_frames \<lparr>num_frames = 4, ct_threadId = 9, frames = replicate 3 zeroFrame @ [\<lparr>isForeign = True, frame = 32\<rparr>]\<rparr> =
      [\<lparr>isForeign = True, frame = 32\<rparr>]"
    by (simp add: walked_frames_def NUMBER_OF_SIGNAL_HANDLER_FRAMES_def)
  obtain before ss how where s: "wire (projr demo_record) = before @ [StackSampleMessage ss]"
      "read_sample before ss = trace_lines (we_debug_info demo_writer_env) how
         \<lparr>num_frames = 4, ct_threadId = 9, frames = replicate 3 zeroFrame @ [\<lparr>isForeign = True, frame = 32\<rparr>]\<rparr>"
      "how 32 = True"
    using r new fs by (auto simp del: replicate.simps)
  have "read_sample before ss = [(''In libc.so'', 0)]"
    by (simp add: s(2,3) trace_lines_def fs symbolise_def demo_writer_env_def demo_info_def function_text_def dl_function_def)
  with s(1) show ?thesis by blast
qed

end
