(* ===== verification/Other_Threads.thy ===== *)
theory Other_Threads
  imports Processor_Properties Signal_Capture
begin

text \<open>
  What the threads beside the processor do to what they share with it (\<^verbatim>\<open>src/lib/profiler.cpp\<close>, \<^verbatim>\<open>src/lib/metrics.cpp\<close>):
  profiling signals, and the loop of the metrics thread. Both only push onto the queue.
\<close>

section \<open>Interruptions\<close>

text \<open>A profiling signal: the stack it interrupts and what the handler reads from the system.\<close>

record 'c interruption =
  int_stack :: "'c unwinder"
  int_junk :: "CallFrame list"
  int_now :: timespec
  int_start :: u64
  int_end :: u64
  int_thread :: u64
  int_signal :: int

text \<open>
  What is supposed of one: the interrupted stack chains up (on one that does not the walk can write behind its array, see
  theory Linkable_Profiler), and the array has its length. The context and the cursor may fail to be had.
\<close>

definition interruption_ok :: "'c interruption \<Rightarrow> bool" where
  "interruption_ok i \<longleftrightarrow> unbroken (int_stack i) \<and> int (length (int_junk i)) = MAX_FRAMES"

lemma linkable_handle_result:
  assumes "interruption_ok i"
  obtains n h fs where "linkable_handle (int_stack i) (int_junk i) holder = Inr (n, h, fs)" "n \<le> 256" "n \<le> length fs"
proof -
  let ?u = "int_stack i"
  obtain ret cursor where u: "unw_init_local ?u = (ret, cursor)" by (cases "unw_init_local ?u")
  show thesis
  proof (cases "unw_getcontext ?u < 0 \<or> ret < 0")
    case True
    with u have "\<exists>h. linkable_handle ?u (int_junk i) holder = Inr (0, h, int_junk i)" by (auto simp: linkable_handle_def)
    with that show thesis by auto
  next
    case False
    let ?w = "stack_walk ?u (nat MAX_FRAMES) cursor"
    have "length ?w \<le> 256" using stack_walk_length [of ?u "nat MAX_FRAMES" cursor] by (simp add: MAX_FRAMES_def)
    then show thesis using that handle_walk [OF _ _ u, of "int_junk i" holder] assms False by (auto simp: interruption_ok_def Let_def)
  qed
qed

lemma pushed_main:
  assumes "pushed sz mf q r" "r' = snd (pushNotification sz cat msg v r)"
  shows "pushed sz mf q r'"
  by (rule pushed.push [OF assms(1), where p = "OpNotification cat msg v"]) (simp_all add: assms(2))

lemma handle_signal_pushed:
  assumes inv: "cq_inv sz mf q" and mf: "nat MAX_FRAMES \<le> mf" and ok: "interruption_ok i"
  obtains q' where "handle_signal sz strerror (int_stack i) (int_junk i) now st et tid sig q = Inr q'" "pushed sz mf q q'"
proof (cases "sig = SIGPROF \<or> sig = SIGALRM")
  case False
  then show thesis
    using that [of "snd (pushNotification sz USER_ERROR ''Signal number out of range: '' sig q)"] pushed_main [OF pushed.nothing refl]
    by (simp add: handle_signal_def)
next
  case True
  let ?u = "int_stack i"
  obtain n h fs where walk: "linkable_handle ?u (int_junk i) \<lparr>errorCode = 0, err_type = SUCCESS\<rparr> = Inr (n, h, fs)"
      and n: "n \<le> 256" "n \<le> length fs"
    by (rule linkable_handle_result [OF ok])
  let ?err = "err_type h \<noteq> SUCCESS"
  let ?q = "if ?err then pushError sz strerror h q else q"
  let ?t = "\<lparr>num_frames = (if ?err then - 1 * int n else int n), ct_threadId = tid, frames = fs\<rparr>"
  have fits: "trace_fits mf ?t" "frames_within (sent_trace mf ?t)"
    using n mf by (auto simp: trace_fits_def MAX_FRAMES_def frames_within_def sent_trace_def)
  have e: "pushed sz mf q ?q" using pushed_main [OF pushed.nothing refl] by (simp add: pushError_def pushNotification2_def pushed.nothing)
  obtain r q' where p: "pushStackTrace sz now ?t sig 0 (et - st) ?q = Inr (r, q')"
    using pushStackTrace_keeps [OF pushed_inv [OF e inv] fits(1), of now sig 0 "et - st"] by metis
  then have p': "pushed sz mf q q'"
    by (intro pushed.push [OF e, where p = "OpStackTrace now ?t sig 0 (et - st)"]) (use fits in simp_all)
  have "pushed sz mf q (q'\<lparr>cputimeFailures := n\<rparr>)" "pushed sz mf q (q'\<lparr>wallclockFailures := n\<rparr>)" for n
    by (rule pushed.count [OF p'], simp add: uncounted_def)+
  moreover have "handle_signal sz strerror ?u (int_junk i) now st et tid sig q =
      (if r then Inr q' else if sig = SIGPROF then Inr (q'\<lparr>cputimeFailures := cputimeFailures q' + 1\<rparr>)
       else Inr (q'\<lparr>wallclockFailures := wallclockFailures q' + 1\<rparr>))"
    using True walk p by (simp add: handle_signal_def Let_def)
  ultimately show thesis using that p' by (simp split: if_splits)
qed

section \<open>The other threads\<close>

text \<open>
  What other threads do between two actions of the processor: they are interrupted by signals, and one of them is the
  metrics thread, whose loop takes the lock for each of its reads and pushes without it.
\<close>

datatype metrics_act =
    StartsMetrics int
  | Scans kernel "string list option"
  | TriesDuration
  | Reads read_env
  | Drains read_env
  | SendsDuration u64 timespec

datatype 'c thread_act = Interrupted "'c interruption" | OfMetrics metrics_act

text \<open>One turn of the loop of \<open>sendDurationMetricId\<close>.\<close>

definition try_duration :: "QueueSizes \<Rightarrow> Metrics \<times> CircularQueue \<Rightarrow> Metrics \<times> CircularQueue" where
  "try_duration sz mq =
     (let (m, q) = mq
      in if mustSendDurationMetric m then
           (let (ok, q) = pushMetricInformation sz DURATION_INFO q
            in (m\<lparr>metricNameToId := insert_id DURATION_NAME DURATION_ID (metricNameToId m), mustSendDurationMetric := \<not> ok\<rparr>, q))
         else (m, q))"

fun metrics_act_step :: "QueueSizes \<Rightarrow> build \<Rightarrow> metrics_act \<Rightarrow> CircularQueue \<times> Metrics \<times> scanner
    \<Rightarrow> CircularQueue \<times> Metrics \<times> scanner" where
  "metrics_act_step sz b (StartsMetrics tid) (q, m, s) = (q, m\<lparr>retryEntries := []\<rparr>, on_metrics_thread_start tid s)"
| "metrics_act_step sz b (Scans k task) (q, m, s) = (q, m, scan_threads k task s)"
| "metrics_act_step sz b TriesDuration (q, m, s) = (case try_duration sz (m, q) of (m, q) \<Rightarrow> (q, m, s))"
| "metrics_act_step sz b (Reads env) (q, m, s) = (case read_all sz b env (m, q) of (_, m, q) \<Rightarrow> (q, m, s))"
| "metrics_act_step sz b (Drains env) (q, m, s) =
     (case eventRingReader m of
        Some er \<Rightarrow> if mt_enabled m then (case read_events sz b env er (m, q) of (_, m, q) \<Rightarrow> (q, m, s)) else (q, m, s)
      | None \<Rightarrow> (q, m, s))"
| "metrics_act_step sz b (SendsDuration ms t) (q, m, s) = (sendDuration sz ms t q, m, s)"

fun act_step :: "QueueSizes \<Rightarrow> build \<Rightarrow> (int \<Rightarrow> string) \<Rightarrow> 'c thread_act \<Rightarrow> CircularQueue \<times> Metrics \<times> scanner
    \<Rightarrow> capture_fault + CircularQueue \<times> Metrics \<times> scanner" where
  "act_step sz b strerror (Interrupted i) (q, ms) =
     map_sum id (\<lambda>q. (q, ms))
       (handle_signal sz strerror (int_stack i) (int_junk i) (int_now i) (int_start i) (int_end i) (int_thread i) (int_signal i) q)"
| "act_step sz b strerror (OfMetrics a) st = Inr (metrics_act_step sz b a st)"

fun thread_acts :: "QueueSizes \<Rightarrow> build \<Rightarrow> (int \<Rightarrow> string) \<Rightarrow> 'c thread_act list \<Rightarrow> CircularQueue \<times> Metrics \<times> scanner
    \<Rightarrow> capture_fault + CircularQueue \<times> Metrics \<times> scanner" where
  "thread_acts sz b strerror [] st = Inr st"
| "thread_acts sz b strerror (a # acts) st =
     (case act_step sz b strerror a st of Inl e \<Rightarrow> Inl e | Inr st \<Rightarrow> thread_acts sz b strerror acts st)"

fun act_ok :: "'c thread_act \<Rightarrow> bool" where
  "act_ok (Interrupted i) = interruption_ok i"
| "act_ok _ = True"

text \<open>The metrics thread only pushes.\<close>

lemma push_info_pushed: "pushed sz mf q r \<Longrightarrow> pushed sz mf q (snd (pushMetricInformation sz info r))"
  by (rule pushed.push [where p = "OpMetricInformation info"]) simp_all

lemma push_samples_pushed: "pushed sz mf q r \<Longrightarrow> pushed sz mf q (snd (pushMetricSamples sz xs t r))"
  by (rule pushed.push [where p = "OpMetricSamples xs t"]) simp_all

lemma push_complete_pushed: "pushed sz mf q r \<Longrightarrow> pushed sz mf q (snd (pushConstantMetricsComplete sz r))"
  by (rule pushed.push [where p = OpConstantMetricsComplete]) simp_all

lemma findOrCreateMetricId_pushed: "pushed sz mf q (snd (snd (findOrCreateMetricId sz e (ids, q))))"
  using push_info_pushed [OF pushed.nothing, of sz mf q]
  by (auto simp: findOrCreateMetricId_def Let_def case_prod_beta pushed.nothing split: option.split)

lemma attemptRecordEntries_pushed:
  "pushed sz mf q r \<Longrightarrow> pushed sz mf q (snd (snd (snd (attemptRecordEntries sz es (samples, failed, ids, r)))))"
proof (induction es arbitrary: samples failed ids r)
  case (Cons e es)
  have "pushed sz mf q (snd (snd (findOrCreateMetricId sz e (ids, r))))"
    by (rule pushed_trans [OF findOrCreateMetricId_pushed Cons.prems])
  with Cons.IH show ?case by (auto split: prod.splits)
qed simp

lemma recordEntries_pushed: "pushed sz mf q (snd (recordEntries sz es t (m, q)))"
proof -
  obtain s1 f1 i1 q1 where 1: "attemptRecordEntries sz es ([], [], metricNameToId m, q) = (s1, f1, i1, q1)" by (metis prod_cases4)
  obtain s2 f2 i2 q2 where 2: "attemptRecordEntries sz (retryEntries m) (s1, f1, i1, q1) = (s2, f2, i2, q2)" by (metis prod_cases4)
  have "pushed sz mf q q1" using attemptRecordEntries_pushed [OF pushed.nothing, of sz mf q es "[]" "[]" "metricNameToId m"] 1 by simp
  then have "pushed sz mf q q2" using attemptRecordEntries_pushed [of sz mf q q1 "retryEntries m" s1 f1 i1] 2 by simp
  then show ?thesis using push_samples_pushed [of sz mf q q2 s2 t] by (simp add: recordEntries_def 1 2 case_prod_beta)
qed

lemma fold_listener_pushed: "pushed sz mf q (snd mq) \<Longrightarrow> pushed sz mf q (snd (fold (metric_listener sz) cs mq))"
proof (induction cs arbitrary: mq)
  case (Cons c cs)
  obtain m r where mq: "mq = (m, r)" by fastforce
  have "pushed sz mf r (snd (metric_listener sz c (m, r)))"
    by (cases c) (simp_all add: recordEntries_pushed pushNotification2_def pushed_main [OF pushed.nothing refl])
  with Cons mq pushed_trans show ?case by fastforce
qed simp

lemma read_events_pushed: "pushed sz mf q r \<Longrightarrow> pushed sz mf q (snd (snd (read_events sz b env er (m, r))))"
  using fold_listener_pushed by (fastforce simp: read_events_def split: prod.splits)

lemma complete_constants_pushed: "pushed sz mf q r \<Longrightarrow> pushed sz mf q (snd (complete_constants sz (m, r)))"
  using push_complete_pushed [of sz mf q r]
  by (auto simp: complete_constants_def Let_def case_prod_beta split: option.split)

lemma read_all_pushed: "pushed sz mf q (snd (snd (read_all sz b env (m, q))))"
proof -
  obtain r m' q' where r: "read_all sz b env (m, q) = (r, m', q')" by (metis prod_cases3)
  have "pushed sz mf q q'"
    using r
  proof (cases rule: read_all_parts)
    case (reads cpu er calls cpu' m1 q1 m2 q2)
    have "pushed sz mf q q1"
      using fold_listener_pushed [of sz mf q "(m\<lparr>cpudataReader := Some cpu', cpuErrors := cpu_errors cpu'\<rparr>, q)" calls] reads(4)
      by (simp add: pushed.nothing)
    then have "pushed sz mf q q2" using read_events_pushed [of sz mf q q1 b env er m1] reads(5) by simp
    then show ?thesis using complete_constants_pushed [of sz mf q q2 m2] reads(6) by simp
  qed (simp add: pushed.nothing)
  then show ?thesis by (simp add: r)
qed

lemma try_duration_pushed: "pushed sz mf q (snd (try_duration sz (m, q)))"
  using push_info_pushed [OF pushed.nothing] by (simp add: try_duration_def case_prod_beta pushed.nothing)

lemma metrics_act_pushed: "pushed sz mf q (fst (metrics_act_step sz b a (q, m, s)))"
proof (cases a)
  case (Reads env)
  with read_all_pushed [of sz mf q b env m] show ?thesis by (simp add: case_prod_beta)
next
  case (Drains env)
  show ?thesis
  proof (cases "eventRingReader m")
    case (Some er)
    with read_events_pushed [OF pushed.nothing, of sz mf q b env er m] Drains show ?thesis by (simp add: case_prod_beta pushed.nothing)
  qed (simp add: Drains pushed.nothing)
next
  case TriesDuration
  with try_duration_pushed [of sz mf q m] show ?thesis by (simp add: case_prod_beta)
next
  case (SendsDuration ms t)
  then show ?thesis by (simp add: sendDuration_def push_samples_pushed [OF pushed.nothing])
qed (simp_all add: pushed.nothing)

lemma metrics_acts_pushed: "pushed sz mf q (fst (fold (metrics_act_step sz b) acts (q, m, s)))"
proof (induction acts arbitrary: q m s)
  case (Cons a acts)
  obtain r m1 s1 where r: "metrics_act_step sz b a (q, m, s) = (r, m1, s1)" by (metis prod_cases3)
  with Cons.IH [of r m1 s1] metrics_act_pushed [of sz mf q b a m s] show ?case by (auto intro: pushed_trans)
qed (simp add: pushed.nothing)

lemma act_pushed:
  assumes "cq_inv sz mf q" "nat MAX_FRAMES \<le> mf" "act_ok a"
  shows "\<exists>q' ms'. act_step sz b strerror a (q, ms) = Inr (q', ms') \<and> pushed sz mf q q'"
proof (cases a)
  case (Interrupted i)
  with assms show ?thesis
    by (auto elim!: handle_signal_pushed [OF assms(1,2), of i strerror "int_now i" "int_start i" "int_end i" "int_thread i" "int_signal i"])
next
  case (OfMetrics a')
  with metrics_act_pushed [of sz mf q b a' "fst ms" "snd ms"] show ?thesis
    by (cases "metrics_act_step sz b a' (q, ms)") auto
qed

lemma acts_pushed:
  assumes "nat MAX_FRAMES \<le> mf"
  shows "cq_inv sz mf q \<Longrightarrow> list_all act_ok acts \<Longrightarrow>
    \<exists>q' ms'. thread_acts sz b strerror acts (q, ms) = Inr (q', ms') \<and> pushed sz mf q q'"
proof (induction acts arbitrary: q ms)
  case (Cons a acts)
  obtain r ms1 where r: "act_step sz b strerror a (q, ms) = Inr (r, ms1)" "pushed sz mf q r"
    using act_pushed [OF Cons.prems(1) assms, of a] Cons.prems(2) by fastforce
  with Cons.IH [OF pushed_inv [OF r(2) Cons.prems(1)], of ms1] Cons.prems(2) show ?case
    using pushed_trans [OF _ r(2)] by auto
qed (simp add: pushed.nothing)

section \<open>The metrics thread\<close>

text \<open>\<open>Metrics::run\<close>, with a listener of its own: one turn of its loop for each environment given.\<close>

fun metrics_loop :: "QueueSizes \<Rightarrow> build \<Rightarrow> kernel \<Rightarrow> (CircularQueue \<Rightarrow> CircularQueue) \<Rightarrow> cycle_env list
    \<Rightarrow> scanner \<times> Metrics \<times> CircularQueue \<Rightarrow> (u64 option list \<times> scanner \<times> Metrics \<times> CircularQueue) option" where
  "metrics_loop sz b k idle [] smq = Some ([], smq)"
| "metrics_loop sz b k idle (env # envs) smq =
     Option.bind (metrics_cycle sz b k idle env smq) (\<lambda>(sleep, smq).
       map_option (\<lambda>(sleeps, smq). (sleep # sleeps, smq)) (metrics_loop sz b k idle envs smq))"

definition metrics_thread :: "QueueSizes \<Rightarrow> build \<Rightarrow> kernel \<Rightarrow> (CircularQueue \<Rightarrow> CircularQueue) \<Rightarrow> int \<Rightarrow> string list option
    \<Rightarrow> cycle_env list \<Rightarrow> scanner \<times> Metrics \<times> CircularQueue
    \<Rightarrow> (u64 option list \<times> scanner \<times> Metrics \<times> CircularQueue) option" where
  "metrics_thread sz b k idle tid task envs smq =
     (case smq of (s, m, q) \<Rightarrow>
        metrics_loop sz b k idle envs (scan_threads k task (on_metrics_thread_start tid s), m\<lparr>retryEntries := []\<rparr>, q))"

text \<open>The loop is made of these acts, and of what the other threads do while it waits for room on the queue.\<close>

fun metrics_act_or :: "QueueSizes \<Rightarrow> build \<Rightarrow> (CircularQueue \<Rightarrow> CircularQueue) \<Rightarrow> metrics_act option
    \<Rightarrow> CircularQueue \<times> Metrics \<times> scanner \<Rightarrow> CircularQueue \<times> Metrics \<times> scanner" where
  "metrics_act_or sz b idle (Some a) st = metrics_act_step sz b a st"
| "metrics_act_or sz b idle None (q, ms) = (idle q, ms)"

lemma insert_id_twice [simp]: "insert_id n i (insert_id n i ids) = insert_id n i ids"
  by (simp add: insert_id_def)

abbreviation duration_named :: "Metrics \<Rightarrow> Metrics" where
  "duration_named m \<equiv> m\<lparr>metricNameToId := insert_id DURATION_NAME DURATION_ID (metricNameToId m), mustSendDurationMetric := False\<rparr>"

lemma push_until_tries:
  assumes "push_until sz idle DURATION_INFO q = Some q'" "mustSendDurationMetric m"
  shows "\<exists>acts. fold (metrics_act_or sz b idle) acts (q, m, s) = (q', duration_named m, s)"
proof -
  let ?P = "\<lambda>sz idle info q q'. info = DURATION_INFO \<longrightarrow> (\<forall>m. mustSendDurationMetric m \<longrightarrow>
    (\<exists>acts. fold (metrics_act_or sz b idle) acts (q, m, s) = (q', duration_named m, s)))"
  have "?P sz idle DURATION_INFO q q'"
  proof (rule push_until.raw_induct [OF _ assms(1), where P = ?P], intro impI allI)
    fix loop sz info q q' and m :: Metrics and idle :: "CircularQueue \<Rightarrow> CircularQueue"
    assume IH: "\<And>sz idle info q q'. loop sz idle info q = Some q' \<Longrightarrow> ?P sz idle info q q'"
      and step: "(case pushMetricInformation sz info q of (ok, q) \<Rightarrow> if ok then Some q else loop sz idle info (idle q)) = Some q'"
      and eq: "info = DURATION_INFO" and m: "mustSendDurationMetric m"
    obtain p q1 where r: "pushMetricInformation sz info q = (p, q1)" by fastforce
    let ?m = "(duration_named m)\<lparr>mustSendDurationMetric := \<not> p\<rparr>"
    have tries: "metrics_act_step sz b TriesDuration (q, m, s) = (q1, ?m, s)" using r m by (simp add: try_duration_def eq)
    show "\<exists>acts. fold (metrics_act_or sz b idle) acts (q, m, s) = (q', duration_named m, s)"
    proof (cases p)
      case True
      with step r tries show ?thesis by (intro exI [of _ "[Some TriesDuration]"]) simp
    next
      case False
      with step r eq have "loop sz idle DURATION_INFO (idle q1) = Some q'" by simp
      from IH [OF this, rule_format, OF refl, of ?m] False obtain acts where
        "fold (metrics_act_or sz b idle) acts (idle q1, ?m, s) = (q', duration_named ?m, s)" unfolding eq by auto
      with tries show ?thesis by (intro exI [of _ "Some TriesDuration # None # acts"]) simp
    qed
  qed
  with assms(2) show ?thesis by blast
qed

lemma eliminate_events_acts:
  "eliminate_events sz b passes again window (m, q) = Some (window', m', q') \<Longrightarrow>
    \<exists>acts. fold (metrics_act_or sz b idle) acts (q, m, s) = (q', m', s)"
proof (induction passes arbitrary: again window m q)
  case Nil
  then show ?case by (cases again) (auto intro: exI [of _ "[]"])
next
  case (Cons p passes)
  obtain env start finish where p: "p = (env, start, finish)" by (metis prod_cases3)
  show ?case
  proof (cases "again \<and> mt_enabled m")
    case True
    then obtain er where er: "eventRingReader m = Some er" using Cons.prems p by (cases again) (auto split: option.splits)
    obtain r m1 q1 where r: "read_events sz b env er (m, q) = (r, m1, q1)" by (metis prod_cases3)
    from Cons.prems True p er r have "\<exists>w. eliminate_events sz b passes r w (m1, q1) = Some (window', m', q')"
      by (auto simp: Let_def)
    with Cons.IH obtain acts where "fold (metrics_act_or sz b idle) acts (q1, m1, s) = (q', m', s)" by blast
    with True er r show ?thesis by (intro exI [of _ "Some (Drains env) # acts"]) simp
  next
    case False
    with Cons.prems p show ?thesis by (cases again) (auto intro: exI [of _ "[]"])
  qed
qed

lemma metrics_cycle_acts:
  assumes "metrics_cycle sz b k idle env (s, m, q) = Some (sleep, s', m', q')"
  shows "\<exists>acts. fold (metrics_act_or sz b idle) acts (q, m, s) = (q', m', s')"
proof -
  obtain m1 q1 where 1: "sendDurationMetricId sz idle (m, q) = Some (m1, q1)"
    using assms by (cases "sendDurationMetricId sz idle (m, q)") (auto simp: metrics_cycle_def)
  have "\<exists>acts. fold (metrics_act_or sz b idle) acts (q, m, s) = (q1, m1, s)"
  proof (cases "mustSendDurationMetric m")
    case True
    with 1 push_until_tries [of sz idle q q1 m b s] show ?thesis by (auto simp: sendDurationMetricId_def)
  qed (use 1 in \<open>auto simp: sendDurationMetricId_def intro: exI [of _ "[]"]\<close>)
  then obtain a1 where a1: "fold (metrics_act_or sz b idle) a1 (q, m, s) = (q1, m1, s)" by blast
  let ?s = "scan_threads k (ce_threads env) s"
  obtain again m2 q2 where 2: "read_all sz b (ce_read env) (m1, q1) = (again, m2, q2)" by (metis prod_cases3)
  have a2: "fold (metrics_act_or sz b idle) (a1 @ [Some (Scans k (ce_threads env)), Some (Reads (ce_read env))]) (q, m, s) = (q2, m2, ?s)"
    by (simp add: a1 2)
  show ?thesis
  proof (cases "workInMs (ce_start env) (ce_end env) < sampleRateMillis m2")
    case True
    then obtain window q3 where 3: "eliminate_events sz b (ce_passes env) again
        (sampleRateMillis m2 - workInMs (ce_start env) (ce_end env)) (m2, q2) = Some (window, m', q3)"
      and q': "q' = sendDuration sz (sampleRateMillis m2 - window) (ce_last env) q3" "s' = ?s"
      using assms by (auto simp: metrics_cycle_def 1 2 Let_def)
    from eliminate_events_acts [OF 3] obtain a3 where "fold (metrics_act_or sz b idle) a3 (q2, m2, ?s) = (q3, m', ?s)" by blast
    with a2 q' show ?thesis
      by (intro exI [of _ "(a1 @ [Some (Scans k (ce_threads env)), Some (Reads (ce_read env))]) @ a3 @
        [Some (SendsDuration (sampleRateMillis m2 - window) (ce_last env))]"]) (simp only: fold_append o_apply, simp)
  next
    case False
    with assms have "q' = q2" "m' = m2" "s' = ?s" by (auto simp: metrics_cycle_def 1 2 Let_def)
    with a2 show ?thesis by blast
  qed
qed

lemma metrics_loop_acts:
  "metrics_loop sz b k idle envs (s, m, q) = Some (sleeps, s', m', q') \<Longrightarrow>
    \<exists>acts. fold (metrics_act_or sz b idle) acts (q, m, s) = (q', m', s')"
proof (induction envs arbitrary: s m q sleeps)
  case (Cons env envs)
  then obtain sleep s1 m1 q1 sleeps1 where c: "metrics_cycle sz b k idle env (s, m, q) = Some (sleep, s1, m1, q1)"
      "metrics_loop sz b k idle envs (s1, m1, q1) = Some (sleeps1, s', m', q')" by (auto simp: bind_eq_Some_conv)
  obtain a1 a2 where "fold (metrics_act_or sz b idle) a1 (q, m, s) = (q1, m1, s1)"
      "fold (metrics_act_or sz b idle) a2 (q1, m1, s1) = (q', m', s')"
    using metrics_cycle_acts [OF c(1)] Cons.IH [OF c(2)] by blast
  then show ?case by (intro exI [of _ "a1 @ a2"]) simp
qed (auto intro: exI [of _ "[]"])

lemma metrics_acts_keep:
  assumes "\<forall>q. cq_inv sz mf q \<longrightarrow> cq_inv sz mf (idle q)"
  shows "cq_inv sz mf q \<Longrightarrow> cq_inv sz mf (fst (fold (metrics_act_or sz b idle) acts (q, m, s)))"
proof (induction acts arbitrary: q m s)
  case (Cons a acts)
  obtain r m1 s1 where r: "metrics_act_or sz b idle a (q, m, s) = (r, m1, s1)" by (metis prod_cases3)
  have "cq_inv sz mf r"
  proof (cases a)
    case (Some a')
    with r pushed_inv [OF metrics_act_pushed Cons.prems, of b a' m s] show ?thesis by simp
  qed (use r Cons.prems assms in auto)
  with Cons.IH [of r m1 s1] r show ?case by simp
qed simp

text \<open>The metrics thread, from its start through any number of turns of its loop, is a run of the acts above, which are
  all that is assumed of it below, with what other threads do to the queue whenever it has to wait for room; if that keeps
  the queue well-formed, so does the metrics thread.\<close>

lemma metrics_thread_is_acts:
  assumes "metrics_thread sz b k idle tid task envs (s, m, q) = Some (sleeps, s', m', q')"
  shows "(\<exists>acts. fold (metrics_act_or sz b idle) acts (q, m, s) = (q', m', s')) \<and>
    length sleeps = length envs \<and>
    ((\<forall>q. cq_inv sz mf q \<longrightarrow> cq_inv sz mf (idle q)) \<longrightarrow> cq_inv sz mf q \<longrightarrow> cq_inv sz mf q')"
proof -
  obtain acts where acts: "fold (metrics_act_or sz b idle) acts
      (q, m\<lparr>retryEntries := []\<rparr>, scan_threads k task (on_metrics_thread_start tid s)) = (q', m', s')"
    using metrics_loop_acts assms unfolding metrics_thread_def by fastforce
  let ?acts = "Some (StartsMetrics tid) # Some (Scans k task) # acts"
  have run: "fold (metrics_act_or sz b idle) ?acts (q, m, s) = (q', m', s')" using acts by simp
  have "metrics_loop sz b k idle envs smq = Some (sleeps, smq') \<Longrightarrow> length sleeps = length envs" for envs sleeps smq smq'
    by (induction envs arbitrary: sleeps smq) (auto simp: bind_eq_Some_conv)
  then have "length sleeps = length envs" using assms unfolding metrics_thread_def by fastforce
  moreover have "cq_inv sz mf q'" if idle: "\<forall>q. cq_inv sz mf q \<longrightarrow> cq_inv sz mf (idle q)" and "cq_inv sz mf q"
    using metrics_acts_keep [OF idle that(2), of b ?acts m s] run by simp
  ultimately show ?thesis using run by blast
qed

section \<open>The duty cycle\<close>








text \<open>What is known of the other threads: all they do in between the processor's actions is a run of such acts.\<close>

definition threads_do :: "QueueSizes \<Rightarrow> build \<Rightarrow> (int \<Rightarrow> string) \<Rightarrow> 'c thread_act list \<Rightarrow> outside \<Rightarrow> bool" where
  "threads_do sz b strerror acts x \<longleftrightarrow> (\<forall>st st'. thread_acts sz b strerror acts st = Inr st' \<longrightarrow> snd x st = st')"

lemma threads_only_push:
  assumes "threads_do sz b strerror acts x" "list_all act_ok acts" "nat MAX_FRAMES \<le> mf"
  shows "only_pushes sz mf x"
  unfolding only_pushes_def
proof (intro allI impI)
  fix q m s assume "queue_within sz mf q"
  then have "cq_inv sz mf q" by (simp add: queue_within_def)
  from acts_pushed [OF assms(3) this assms(2), of b strerror "(m, s)"] assms(1) show "pushed sz mf q (fst (snd x (q, m, s)))"
    unfolding threads_do_def by fastforce
qed


lemma metrics_thread_is_acts_witness:
  "\<exists>sleeps s m q. metrics_thread demo_metric_sizes WithRuntimeEvents (\<lambda>_ _. None) id 6 None [demo_cycle, demo_cycle]
      (scanner_init, demo_metrics, demo_queue) = Some (sleeps, s, m, q) \<and> length sleeps = 2 \<and> cq_inv demo_metric_sizes 4 q"
proof -
  have "metrics_thread demo_metric_sizes WithRuntimeEvents (\<lambda>_ _. None) id 6 None [demo_cycle, demo_cycle]
      (scanner_init, demo_metrics, demo_queue) \<noteq> None" by code_simp
  then obtain sleeps s m q where r: "metrics_thread demo_metric_sizes WithRuntimeEvents (\<lambda>_ _. None) id 6 None [demo_cycle, demo_cycle]
      (scanner_init, demo_metrics, demo_queue) = Some (sleeps, s, m, q)" by fastforce
  from metrics_thread_is_acts [OF r, of 4] demo_queue_inv r show ?thesis by simp
qed

end
