(* ===== verification/Agent.thy ===== *)
theory Agent
  imports Other_Threads
begin

text \<open>
  The agent as \<^verbatim>\<open>src/lib/profiler.cpp\<close> and \<^verbatim>\<open>src/lib/lib_opsian.cpp\<close> put it together: configured from its options, its
  processor running beside the other threads; its start, and its state in a forked child.
\<close>

section \<open>The configured agent\<close>

lemma configured_initial:
  assumes "profiler_configure sz hasHostName cd rt errors symbols_init cfg = Inr c" "\<not> prometheusEnabled cfg"
  shows "agent_initial c"
proof -
  obtain q where q: "newCircularQueue sz (maxFramesToCapture cfg) = Inr q"
    using assms by (auto simp: profiler_configure_def split: sum.splits)
  let ?out = "if logFilePath cfg = [] then None else Some []"
  let ?w = "LogWriter_init ?out symbols_init (CollectorController_init False (configured_on hasHostName cfg) cd (newMetrics rt errors) q)"
  have "c = log_writer.extend ?w \<lparr>prom_root = None\<rparr>" using assms q by (simp add: profiler_configure_def Let_def)
  moreover have "log_writer.truncate (log_writer.extend w x) = w" for w :: log_writer and x
    by (simp add: log_writer.truncate_def log_writer.extend_def)
  ultimately show ?thesis unfolding agent_initial_def by metis
qed

lemma configured_within:
  assumes "profiler_configure sz hasHostName cd rt errors s cfg = Inr c"
  shows "queue_within sz (nat (maxFramesToCapture cfg)) (cc_queue c)"
proof -
  obtain q where q: "newCircularQueue sz (maxFramesToCapture cfg) = Inr q"
    using assms by (auto simp: profiler_configure_def split: sum.splits)
  have "cc_queue c = q"
    using assms q by (auto simp: profiler_configure_def Let_def log_writer.extend_def LogWriter_init_def controller.extend_def
      CollectorController_init_def network.extend_def Network_init_def split: prod.splits if_splits)
  with newCircularQueue_inv(1,4) [OF q] show ?thesis by (simp add: queue_within_def del: length_0_conv)
qed

lemma configured_run_keeps:
  assumes "queue_within (we_sizes we) mf (cc_queue c)" "list_all (turn_allows (only_pushes (we_sizes we) mf)) ts"
  shows "case processor_run (we_sizes we) env (configured_listener we env cfg) ts tid c of
      Inl e \<Rightarrow> \<not> overrun e
    | Inr (sleeps, ended, c') \<Rightarrow> queue_within (we_sizes we) mf (cc_queue c')"
proof (cases "prometheusEnabled cfg")
  case True
  then have l: "configured_listener we env cfg = exporter_queue_listener (we_debug_info we)" by (simp add: configured_listener_def)
  show ?thesis unfolding l by (rule exporter_client.run_keeps_queue [OF assms])
next
  case False
  then have l: "configured_listener we env cfg = writer_queue_listener we env" by (simp add: configured_listener_def)
  show ?thesis unfolding l by (rule writer_client.run_keeps_queue [OF assms])
qed

text \<open>C4: The agent as it is configured, with buffers for at least the \<open>MAX_FRAMES\<close> frames a walk can report (the default),
  never overruns them, as long as the stacks that signals interrupt chain up: whatever the other options and the network
  do, and whatever the other threads do in between (are interrupted, also where the context or the cursor cannot be had,
  scan threads, read and push metrics), the processor does not fault on the queue and reads no frame outside a buffer,
  neither the log writer nor the exporter, and in the state it leaves the other threads can go on without a fault.
  With a collector instead of Prometheus it also stays within the steps of theory Announcements.\<close>

theorem configured_agent_never_overruns:
  fixes acts :: "'c thread_act list" and strerror :: "int \<Rightarrow> string"
  assumes "profiler_configure (we_sizes we) hasHostName cd rt errors symbols_init cfg = Inr c"
    and "MAX_FRAMES \<le> maxFramesToCapture cfg"
    and "list_all (turn_allows (\<lambda>x. \<exists>acts :: 'c thread_act list. list_all act_ok acts \<and> threads_do (we_sizes we) (ce_build env) strerror acts x)) ts"
  shows "(\<forall>e. overrun e \<longrightarrow> processor_run (we_sizes we) env (configured_listener we env cfg) ts tid c \<noteq> Inl e) \<and>
    (\<forall>sleeps ended c'. processor_run (we_sizes we) env (configured_listener we env cfg) ts tid c = Inr (sleeps, ended, c') \<longrightarrow>
       (list_all act_ok acts \<longrightarrow>
          (\<exists>st. thread_acts (we_sizes we) (ce_build env) strerror acts (cc_queue c', cc_metrics c', cc_scanner c') = Inr st)) \<and>
       (\<not> prometheusEnabled cfg \<longrightarrow> list_all (turn_allows (\<lambda>x. io_plain (fst x))) ts \<longrightarrow>
          (\<exists>d. agent_reach we env d \<and> (if ended then onEnd (profiler_env env) d = Inr c' else d = c'))))"
proof (intro conjI allI impI)
  let ?run = "processor_run (we_sizes we) env (configured_listener we env cfg) ts tid c" and ?mf = "nat (maxFramesToCapture cfg)"
  have mf: "nat MAX_FRAMES \<le> ?mf" using assms(2) by simp
  have allowed: "turn_allows P t \<Longrightarrow> (\<And>x. P x \<Longrightarrow> Q x) \<Longrightarrow> turn_allows Q t" for P Q t by (simp add: turn_allows_def)
  have "list_all (turn_allows (only_pushes (we_sizes we) ?mf)) ts"
    by (rule list.pred_mono_strong [OF assms(3)], erule allowed) (metis threads_only_push [OF _ _ mf])
  note k = configured_run_keeps [OF configured_within [OF assms(1)] this, of env cfg tid]
  show "?run \<noteq> Inl e" if "overrun e" for e using k that by auto
  fix sleeps ended c' assume r: "?run = Inr (sleeps, ended, c')"
  show "\<exists>st. thread_acts (we_sizes we) (ce_build env) strerror acts (cc_queue c', cc_metrics c', cc_scanner c') = Inr st"
    if "list_all act_ok acts"
    using acts_pushed [OF mf _ that, of _ _ "ce_build env" strerror "(cc_metrics c', cc_scanner c')"] k r by (fastforce simp: queue_within_def)
  show "\<exists>d. agent_reach we env d \<and> (if ended then onEnd (profiler_env env) d = Inr c' else d = c')"
    if "\<not> prometheusEnabled cfg" "list_all (turn_allows (\<lambda>x. io_plain (fst x))) ts"
  proof -
    have i: "agent_initial c" by (rule configured_initial [OF assms(1) that(1)])
    have l: "configured_listener we env cfg = writer_queue_listener we env" using that(1) by (simp add: configured_listener_def)
    have "io_plain (io c)" by (simp add: agent_initial_parts(4) [OF i] io_plain_def)
    from run_reach [OF agent_reach.initial [OF i] this that(2) r [unfolded l]] show ?thesis by metis
  qed
qed

section \<open>Starting and forking\<close>

text \<open>
  \<open>start_opsian_native\<close>: nothing without the variable; \<open>None\<close> would be a loop of the set-up that does not end. The
  configuration is an object that lives on, with the host name as the agent's id if it has none. Then \<open>start\<close> installs the
  actions (\<open>profiler_actions\<close>) and creates the threads that run \<open>processor_run\<close> and the metrics loop.
\<close>

datatype start_result = NotStarted | StartThrows config_fault | NoQueue queue_fault | Started ConfigurationOptions profiler_agent

definition start_opsian_native :: "QueueSizes \<Rightarrow> bool \<Rightarrow> string \<Rightarrow> codec \<Rightarrow> runtime_events \<Rightarrow> u32 \<Rightarrow> string option \<Rightarrow> process
    \<Rightarrow> start_result option" where
  "start_opsian_native sz hasHostName hostname cd rt errors opts p =
     (case start_configuration opts p of
        None \<Rightarrow> Some NotStarted
      | Some r \<Rightarrow> map_option (\<lambda>r. case r of
            Inl e \<Rightarrow> StartThrows e
          | Inr cfg \<Rightarrow>
              (case profiler_configure sz hasHostName cd rt errors symbols_init cfg of
                 Inl e \<Rightarrow> NoQueue e
               | Inr c \<Rightarrow> Started (configured_agentId hostname cfg) c)) r)"

text \<open>\<open>child_fork\<close>: the set-up runs again on the configuration object, then the profiler is reset
  (the notices of a fork to the io service are calls into boost).\<close>

definition child_fork :: "string \<Rightarrow> process \<Rightarrow> ConfigurationOptions \<times> 'a log_writer_scheme
    \<Rightarrow> (config_fault + ConfigurationOptions \<times> 'a log_writer_scheme) option" where
  "child_fork opts p x =
     (case x of (cfg, c) \<Rightarrow> map_option (map_sum id (\<lambda>cfg. (cfg, profiler_on_fork c))) (child_fork_configuration opts p cfg))"

lemma setup_again:
  assumes "setup_configuration opts p newConfigurationOptions = Some (Inr cfg)"
  obtains cfg' where "child_fork_configuration opts p' (configured_agentId hostname cfg) = Some (Inr cfg')"
    "prometheusPorts cfg' = prometheusPorts cfg @ prometheusPorts cfg" "prometheusEnabled cfg' = prometheusEnabled cfg"
proof -
  obtain c where c: "parseArguments opts newConfigurationOptions = Inr c"
      and cfg: "cfg = (the (substitute_options p c))\<lparr>prometheusEnabled := prometheusPorts c \<noteq> []\<rparr>"
    using assms by (auto simp: setup_configuration_cases split: sum.splits)
  have pc: "prometheusPorts cfg = prometheusPorts c" using substitute_options_ok [of p c] cfg by auto
  have "prometheusPorts (configured_agentId hostname cfg) = prometheusPorts cfg" by (simp add: configured_agentId_def)
  moreover have "prometheusPorts newConfigurationOptions = []" by (simp add: newConfigurationOptions_def)
  ultimately obtain c2 where c2: "parseArguments opts (configured_agentId hostname cfg) = Inr c2"
      "prometheusPorts c2 = prometheusPorts cfg @ prometheusPorts c"
    using parse_from_ports [OF c [unfolded parseArguments_def], of "configured_agentId hostname cfg"] by (auto simp: parseArguments_def)
  obtain c3 where "substitute_options p' c2 = Some c3" "prometheusPorts c3 = prometheusPorts c2"
    using substitute_options_ok [of p' c2] by blast
  with c2 pc cfg show thesis
    using that [of "c3\<lparr>prometheusEnabled := prometheusPorts c2 \<noteq> []\<rparr>"]
    by (auto simp: child_fork_configuration_def setup_configuration_cases)
qed

text \<open>C10: A forked child sets itself up from the parent's options without fault and starts afresh: it is not connected, knows no
  symbols and scans no threads, and stays within the steps of theory Announcements. But it keeps the queue with whatever the
  parent had not popped yet, which both of them will send, and it takes each Prometheus port twice.\<close>

theorem child_agent_after_fork:
  assumes "setup_configuration opts p newConfigurationOptions = Some (Inr cfg)" "agent_reach we env c"
  shows "\<exists>cfg' c'. child_fork opts p' (configured_agentId hostname cfg, c) = Some (Inr (cfg', c')) \<and> agent_reach we env c' \<and>
    \<not> isConnected c' \<and> \<not> sock c' \<and> cc_state c' = DISCONNECTED \<and> notifications c' = [] \<and>
    knownAddrToLocations (lw_symbols c') = Map.empty \<and> knownMethodToIds (lw_symbols c') = Map.empty \<and>
    cc_scanner c' = scanner_init\<lparr>calls := calls (cc_scanner c)\<rparr> \<and> \<not> mt_enabled (cc_metrics c') \<and> isOn c' = isOn c \<and>
    cc_queue c' = cc_queue c \<and> prometheusPorts cfg' = prometheusPorts cfg @ prometheusPorts cfg"
proof -
  obtain cfg' where f: "child_fork_configuration opts p' (configured_agentId hostname cfg) = Some (Inr cfg')"
      "prometheusPorts cfg' = prometheusPorts cfg @ prometheusPorts cfg"
    by (rule setup_again [OF assms(1)])
  have "conn_ok c" using agent_reach_inv [OF assms(2)] by (simp add: agent_inv_def between_def)
  then have "\<not> isConnected (profiler_on_fork c)" "\<not> sock (profiler_on_fork c)"
    by (auto simp: profiler_on_fork_def Let_def network_on_fork_def network_close_def closeSocket_def lw_onSocketConnected_def
      controller_on_fork_def conn_ok_def)
  with f fork_reach [OF assms(2)] show ?thesis
    by (auto simp: child_fork_def profiler_on_fork_def Let_def network_on_fork_def network_close_def closeSocket_def
      lw_onSocketConnected_def controller_on_fork_def reset_scan_threads_def metrics_on_fork_def clear_symbols_def isOn_def)
qed

text \<open>C35: A process that forks while one of its threads is between claiming a slot and committing it, with nothing committed
  ahead of that slot, leaves a child whose processor waits in its first pop for a commit that never comes, as that
  thread does not exist in the child (events committed ahead of the slot would be popped first); a fork after a
  completed push to an empty queue leaves the event on the child's queue.\<close>

theorem fork_amid_push_hangs_child:
  fixes c :: "'a log_writer_scheme" and l :: "'a log_writer_scheme queue_listener"
  assumes "cq_inv sz mf (cc_queue c)" "main_events sz (cc_queue c) = []"
    and "acquireWrite (mainSize sz) (mainQueue (cc_queue c)) = (Some i, claimed)"
  shows "processor_pop sz l (profiler_on_fork (c\<lparr>cc_queue := (cc_queue c)\<lparr>mainQueue := claimed\<rparr>\<rparr>)) = Inl (QueueFault NeverCommitted) \<and>
    (\<forall>cat msg v. main_events sz (cc_queue (profiler_on_fork (c\<lparr>cc_queue := snd (pushNotification sz cat msg v (cc_queue c))\<rparr>))) =
       [RecordNotification cat msg v])"
proof
  let ?m = "mainQueue (cc_queue c)"
  have q: "cc_queue (profiler_on_fork d) = cc_queue d" for d :: "'a log_writer_scheme"
    by (simp add: profiler_on_fork_def Let_def network_on_fork_def network_close_def closeSocket_def lw_onSocketConnected_def
      controller_on_fork_def)
  have inv: "iq_inv (mainSize sz) ?m" by (rule cq_invD(1) [OF assms(1)])
  have u: "iq_used (mainSize sz) ?m = 0" using assms(2) length_iq_abs [of "mainSize sz" ?m] by (simp add: main_events_def)
  have a: "claimed = ?m\<lparr>iq_input := advance (mainSize sz) (iq_input ?m)\<rparr>" "iq_output ?m \<noteq> advance (mainSize sz) (iq_input ?m)"
    using assms(3) by (auto simp: acquireWrite_def Let_def split: if_splits)
  have out: "iq_pos (mainSize sz) ?m 0 = iq_output ?m" using inv by (simp add: iq_inv_def iq_pos_def)
  have "is_committed (iq_buffer ?m ! iq_pos (mainSize sz) ?m 0) = UNCOMMITTED"
    using inv unfolding iq_inv_def u by (simp add: Capacity_def)
  then have "acquireRead claimed = Spins" using a out by (simp add: acquireRead_def)
  then show "processor_pop sz l (profiler_on_fork (c\<lparr>cc_queue := (cc_queue c)\<lparr>mainQueue := claimed\<rparr>\<rparr>)) = Inl (QueueFault NeverCommitted)"
    by (simp add: processor_pop_def pop_def pop_main_def q)
  have "iq_used (mainSize sz) ?m \<noteq> mainSize sz" using iq_full_iff [OF inv] a(2) by simp
  then have "0 < mainSize sz" using u by simp
  then show "\<forall>cat msg v. main_events sz (cc_queue (profiler_on_fork (c\<lparr>cc_queue := snd (pushNotification sz cat msg v (cc_queue c))\<rparr>))) =
       [RecordNotification cat msg v]"
    using push_main_keeps(4) [OF assms(1), of "RecordNotification cat msg v" for cat msg v] assms(2) by (simp add: q)
qed

section \<open>An example\<close>

text \<open>An agent with the default options and an API key; while it connects, a signal finds a thread at work.\<close>

definition demo_options_set :: ConfigurationOptions where
  "demo_options_set = newConfigurationOptions\<lparr>apiKey := ''key''\<rparr>"

definition demo_agent_env :: "profiler_agent controller_env" where
  "demo_agent_env = controller_arguments ''host'' ''5.0.0'' demo_options_set
     \<lparr>ce_apiKey = [], ce_agentId = [], ce_hostname = [], ce_applicationVersion = [],
     ce_ocamlVersion = [], ce_processorCount = 1, ce_AGENT_VERSION = 1, ce_GIT_STR = [], ce_BUILD_TYPE = [],
     ce_getpid = 7, ce_timezone = (''UTC'', 0), ce_configuration = newConfigurationOptions, ce_millis = \<lambda>_. 0, ce_dist = \<lambda>_. 500,
     ce_setitimer = \<lambda>_. True, ce_metrics_thread_running = True, ce_build = WithRuntimeEvents, ce_reader_env = demo_reader_env,
     socketConnectHandler = id, recordAllocationTableHandler = \<lambda>_ c. Inr c\<rparr>"

definition demo_interruption :: "nat interruption" where
  "demo_interruption = \<lparr>int_stack = demo_stack, int_junk = replicate 256 zeroFrame, int_now = demo_time, int_start = 5, int_end = 9,
     int_thread = 77, int_signal = SIGPROF\<rparr>"

definition demo_acts :: "nat thread_act list" where
  "demo_acts = [Interrupted demo_interruption, OfMetrics (StartsMetrics 6), OfMetrics (SendsDuration 5 demo_time)]"

definition demo_signal :: outside where
  "demo_signal = ([], \<lambda>st. case thread_acts demo_metric_sizes WithRuntimeEvents (\<lambda>_. []) demo_acts st of Inr st \<Rightarrow> st | Inl _ \<Rightarrow> st)"

definition demo_signal_turn :: turn where
  "demo_signal_turn = \<lparr>before_poll = (demo_events, snd demo_signal), before_io = quiet, before_pop = quiet,
     processorRunning = True, stillRunning = True\<rparr>"

definition demo_configured :: "queue_fault + profiler_agent" where
  "demo_configured = profiler_configure demo_metric_sizes True demo_codec runtime_events_init 0 symbols_init demo_options_set"

definition demo_signal_run :: "processor_fault + u64 option list \<times> bool \<times> profiler_agent" where
  "demo_signal_run = processor_run demo_metric_sizes demo_agent_env (configured_listener demo_writer_env demo_agent_env demo_options_set)
     [demo_signal_turn] 5 (projr demo_configured)"

lemma demo_signal_facts:
  "\<not> isl demo_configured" "\<not> isl demo_signal_run" "length (stack_events demo_metric_sizes (cc_queue (snd (snd (projr demo_signal_run))))) = 1"
  by code_simp+

lemma configured_agent_never_overruns_witness:
  "\<exists>c sleeps ended c' st. demo_configured = Inr c \<and> demo_signal_run = Inr (sleeps, ended, c') \<and>
     length (stack_events demo_metric_sizes (cc_queue c')) = 1 \<and>
     thread_acts demo_metric_sizes WithRuntimeEvents (\<lambda>_. []) demo_acts (cc_queue c', cc_metrics c', cc_scanner c') = Inr st \<and>
     (\<exists>d. agent_reach demo_writer_env demo_agent_env d)"
proof -
  let ?P = "\<lambda>x. \<exists>acts :: nat thread_act list. list_all act_ok acts \<and> threads_do (we_sizes demo_writer_env) (ce_build demo_agent_env) (\<lambda>_. []) acts x"
  have sz: "we_sizes demo_writer_env = demo_metric_sizes" by (simp add: demo_writer_env_def)
  have b: "ce_build demo_agent_env = WithRuntimeEvents" by (simp add: demo_agent_env_def controller_arguments_def)
  obtain c where c: "demo_configured = Inr c" using demo_signal_facts(1) sum.collapse(2) by metis
  obtain sleeps ended c' where r: "demo_signal_run = Inr (sleeps, ended, c')" using demo_signal_facts(2) sum.collapse(2) by (metis prod_cases3)
  have ok: "list_all act_ok demo_acts"
    by (auto simp: demo_acts_def interruption_ok_def demo_interruption_def unbroken_def demo_stack_def MAX_FRAMES_def split: if_splits)
  have "?P (demo_events, snd demo_signal)"
    using ok by (intro exI [of _ demo_acts]) (simp add: threads_do_def demo_signal_def sz b)
  moreover have "?P quiet" by (intro exI [of _ "[]"]) (simp add: threads_do_def quiet_def)
  ultimately have t: "list_all (turn_allows ?P) [demo_signal_turn]" by (simp add: turn_allows_def demo_signal_turn_def)
  have plain: "list_all (turn_allows (\<lambda>x. io_plain (fst x))) [demo_signal_turn]"
    by (simp add: turn_allows_def demo_signal_turn_def quiet_def demo_events_def io_plain_def)
  have p: "\<not> prometheusEnabled demo_options_set" "MAX_FRAMES \<le> maxFramesToCapture demo_options_set"
    by (simp_all add: demo_options_set_def newConfigurationOptions_def)
  note configured = c [unfolded demo_configured_def, folded sz]
  have run: "processor_run (we_sizes demo_writer_env) demo_agent_env (configured_listener demo_writer_env demo_agent_env demo_options_set)
      [demo_signal_turn] 5 c = Inr (sleeps, ended, c')"
    using r unfolding demo_signal_run_def c sum.sel sz .
  note all = configured_agent_never_overruns [OF configured p(2) t, of 5 demo_acts]
  from conjunct2 [OF all, rule_format, OF run] ok p(1) plain
  have "\<exists>st. thread_acts demo_metric_sizes WithRuntimeEvents (\<lambda>_. []) demo_acts (cc_queue c', cc_metrics c', cc_scanner c') = Inr st"
    "\<exists>d. agent_reach demo_writer_env demo_agent_env d" unfolding sz b by blast+
  then show ?thesis using c r demo_signal_facts(3) [unfolded r sum.sel snd_conv] unfolding sz by blast
qed

lemma child_agent_after_fork_witness:
  "\<exists>cfg cfg' c'. child_fork ''prometheusPort=9090'' demo_process (configured_agentId ''host'' cfg, demo_agent False) = Some (Inr (cfg', c')) \<and>
     agent_reach demo_writer_env demo_env c' \<and> \<not> isConnected c' \<and> isOn c' \<and> prometheusPorts cfg' = [9090, 9090]"
proof -
  obtain cfg where cfg: "setup_configuration ''prometheusPort=9090'' demo_process newConfigurationOptions = Some (Inr cfg)"
      "prometheusPorts cfg = [9090]" using demo_setup by blast
  have "isOn (demo_agent False)"
    by (simp add: demo_agent_def LogWriter_init_def controller.extend_def CollectorController_init_def network.extend_def
      Network_init_def isOn_def)
  then show ?thesis
    using child_agent_after_fork [OF cfg(1) agent_reach.initial [OF demo_agent_initial [of False], of demo_writer_env demo_env],
        of demo_process "''host''"] cfg(2) by auto
qed

lemma fork_amid_push_hangs_child_witness:
  "\<exists>i claimed. acquireWrite (mainSize demo_metric_sizes) (mainQueue demo_queue) = (Some i, claimed) \<and>
     processor_pop demo_metric_sizes (writer_queue_listener demo_writer_env demo_env)
       (profiler_on_fork ((demo_agent False)\<lparr>cc_queue := demo_queue\<lparr>mainQueue := claimed\<rparr>\<rparr>)) = Inl (QueueFault NeverCommitted)"
proof -
  have q: "cc_queue (demo_agent False) = demo_queue"
    by (simp add: demo_agent_def LogWriter_init_def controller.extend_def CollectorController_init_def network.extend_def
      Network_init_def)
  have "fst (acquireWrite (mainSize demo_metric_sizes) (mainQueue demo_queue)) = Some 0" by code_simp
  then obtain claimed where "acquireWrite (mainSize demo_metric_sizes) (mainQueue demo_queue) = (Some 0, claimed)"
    by (metis prod.collapse)
  with fork_amid_push_hangs_child [of demo_metric_sizes 4 "demo_agent False", unfolded q, OF demo_queue_facts this] show ?thesis by blast
qed

end
