(* ===== verification/Spec2Isabelle.thy ===== *)
theory Spec2Isabelle
  imports Queue_Interleaving Circular_Queue Concurrent_Map Linkable_Profiler Signal_Capture Config Signal_Handler
    Proc_Scanner Symbol_Table Metrics Processor_Properties Stack_Samples Agent
begin

text \<open>
  A verification development of the Opsian profiling agent for OCaml programs (\<^verbatim>\<open>src/lib\<close>).

  \<^bold>\<open>The program.\<close> The agent is a library linked into an OCaml program. Profiling signals interrupt the program's threads;
  the handler walks the stack and pushes the frames onto lock-free queues. A processor thread pops them, looks up symbols,
  and sends messages over TLS to a collector, which in turn sets the sampling rates; without a collector it can count the
  samples and be scraped by Prometheus. A metrics thread reads counters of the machine and of the OCaml runtime, and scans
  the process for threads to profile.

  \<^bold>\<open>Theories and sources\<close>, in the order they import each other:
  \<^item> Prelude: lemmas on modular windows and lists that the rings share.
  \<^item> Internal_Queue (\<^verbatim>\<open>internal_queue.h\<close>): the ring \<open>InternalQueue\<close>, one caller at a time. Queue_Interleaving: the same code
    as steps of any number of producers and the consumer, each atomic access one step.
  \<^item> Metric_Types (\<^verbatim>\<open>metric_types.h\<close>, shared structs), Circular_Queue (\<^verbatim>\<open>circular_queue.h\<close>, \<^verbatim>\<open>circular_queue.cpp\<close>): holders, the
    three rings with their frame buffers, every push, and \<open>pop\<close> with its listener.
  \<^item> Concurrent_Map (\<^verbatim>\<open>concurrent_map.h\<close>): the linear-probing table and its hash functions.
  \<^item> Linkable_Profiler (\<^verbatim>\<open>linkable_profiler.c\<close>), Signal_Capture (\<^verbatim>\<open>profiler.cpp\<close>, \<open>handle\<close>): the stack walk and the signal
    handler. Signal_Handler (\<^verbatim>\<open>signal_handler.cpp\<close>) and Proc_Scanner (\<^verbatim>\<open>proc_scanner.cpp\<close>): the process timer and the timers of
    the threads.
  \<^item> Config (\<^verbatim>\<open>lib_opsian.cpp\<close>, \<^verbatim>\<open>globals.h\<close>): options. Symbol_Table (\<^verbatim>\<open>symbol_table.cpp\<close>): lookups and the announcements they
    make.
  \<^item> Text_Format, Cpudata_Reader (\<^verbatim>\<open>cpudata_reader.cpp\<close>), Event_Ring (\<^verbatim>\<open>event_ring_reader.cpp\<close>, \<^verbatim>\<open>events.*.cpp\<close>), Metrics
    (\<^verbatim>\<open>metrics.cpp\<close>): the metrics thread and its readers.
  \<^item> Messages (\<^verbatim>\<open>data.proto\<close>), Network (\<^verbatim>\<open>network.cpp\<close>), Protocol_Handler (\<^verbatim>\<open>protocol_handler.cpp\<close>), Collector_Controller
    (\<^verbatim>\<open>collector_controller.cpp\<close>), Log_Writer (\<^verbatim>\<open>log_writer.cpp\<close>): the connection. The state of each is a record that extends
    the one before, so an operation of one runs on the state of all. \<open>agent_fault\<close> is what stops the connection,
    \<open>writer_fault\<close> adds a read behind the frames of a trace, \<open>symbol_fault\<close> is what libbacktrace's error callbacks run into.
  \<^item> Prometheus_Exporter (\<^verbatim>\<open>prometheus_exporter.cpp\<close>): the call tree and the scrapes, with \<open>exporter_fault\<close> for
    a broken trace (its message is formatted with \<open>%n\<close>) and frames outside a buffer. Processor (\<^verbatim>\<open>processor.cpp\<close>,
    \<^verbatim>\<open>profiler.cpp\<close>): the processor thread's loop over all of these, the set-up and the fork.
  \<^item> Collector_Properties, Announcements, Processor_Properties: properties of the connection, of what is sent on it, and of the
    loop. Symbolisation says what an address means by the debug information alone, Stack_Samples that this is what the
    collector reads.
  \<^item> Other_Threads: what happens beside the processor, as \<open>thread_act\<close>s: an \<open>interruption\<close> is the handler of Signal_Capture on
    the queue, a \<open>metrics_act\<close> one critical section or push of the metrics thread, whose whole loop \<open>metrics_thread\<close> is made
    of them. Agent: the whole, from the options to the running loop; \<open>start_opsian_native\<close> and \<open>child_fork\<close> are the entry
    points of \<^verbatim>\<open>lib_opsian.cpp\<close>.

  \<^bold>\<open>Calls into the environment.\<close> The io service's outstanding operations complete in an order the model does not choose: the
  state holds the list of events to come (\<open>io_event\<close>), and a run loop takes them one by one and runs the handlers, nested
  where the code nests them. System calls, clocks, random numbers, libunwind, libbacktrace, protobuf's coding and the
  OCaml runtime are arguments. \<open>partial_function\<close> is used where a loop may not end (retries, substitution); other
  loops terminate by a measure. A list of turns, of events or of schedule entries takes the place of fuel: a run
  is as long as its list, and the properties hold for every list.

  \<^bold>\<open>Lemma groups.\<close> Refinement of bounded FIFO queues by the rings under every interleaving, and of a bounded finite map by the
  table. Invariants of the connection by rule induction over \<open>controller_step\<close>, carried by two locales: \<open>run_loop\<close> (what a
  wait keeps when every handler keeps it) and \<open>handled_sender\<close> (what the handlers keep, given a sender that keeps it), each
  interpreted for the handlers inside a wait and outside one. \<open>socket_callback\<close> is the contract of the callback the profiler
  gives the controller. \<open>loop_invariant\<close> states what a predicate must respect to hold around the processor's loop, and \<open>queue_client\<close> what a
  listener must do to the popped events for the queue to stay well-formed (a sublocale), and that it does not fault on a
  popped trace whose frames lie in their buffer; the interpretations show that the steps used in Announcements cover the
  code's loop, and that both listeners, the collector's writer and the exporter, keep the queue and read no frame outside a
  buffer. Two properties say what one turn of the processor and of the metrics thread does. Agent discharges the loop's condition on other threads from what Other_Threads
  proves of the signal handler and of the metrics thread. Round trips: the hash finaliser, the
  option parser on rendered options, \<^verbatim>\<open>/proc/stat\<close> lines, framed messages, and the stack samples as the collector reads
  them.

  \<^bold>\<open>Bounds.\<close> Indices of the rings wrap at their capacity; the queue properties exclude, and a lemma shows, the schedule under which
  a producer loses values (a stall across a whole lap). Symbol ids are 64-bit: the processor stops in the model (\<open>IdsExhausted\<close>) where the
  counter could wrap. The exporter's counts are unbounded integers here and \<open>int\<close> in the source. Memory ordering is
  sequentially consistent.

  \<^bold>\<open>Not modelled.\<close> Logging and message texts on the console; certificates and the TLS library (the handshake is one event);
  thread creation, names and joins, and the crash handler; the drain loop of \<open>Network::close\<close> (handlers that are ready when
  the socket is closed run after it in the model), cancelled timer handlers that are already queued (they ignore the call),
  partial reads beyond the protocol handler's buffer (reported when the read completes); sockets of the Prometheus server;
  destructors; write errors of the log file. Vendored libraries, examples and scripts are not part of the agent's own code.
  Other threads act between the processor's polls, not between two pops of one poll (their interleaving with a single pop
  is that of Queue_Interleaving).

  \<^bold>\<open>Left open.\<close> What the processor's loop makes the exporter count in Prometheus mode is a further interpretation of
  \<open>loop_invariant\<close>; the drain loop of \<open>Network::close\<close> would need the order of ready handlers as an argument.
\<close>

end
